(* ===== verification/Kprelude.thy ===== *)
theory Kprelude
  imports Main "HOL-Library.Word"
begin

text \<open>
  Shared vocabulary of the development: machine integer types, the result type of
  kernel code (a panic or an undefined C operation is a value), the little-endian
  encoding of words, and byte-addressed physical memory with 64-bit loads and stores.
\<close>

unbundle bit_operations_syntax

named_theorems kres_simps \<open>how the result type flows through sequencing\<close>
named_theorems mem_simps \<open>reads of memory after writes\<close>
named_theorems riscv_consts \<open>values of the constants of riscv.h, memlayout.h and param.h\<close>

type_synonym u8 = "8 word"
type_synonym u16 = "16 word"
type_synonym u32 = "32 word"
type_synonym u64 = "64 word"

section \<open>Results of kernel code\<close>

text \<open>
  \<open>Panic msg\<close> is a call of \<^verbatim>\<open>panic(msg)\<close>, which never returns; \<open>Undef what\<close> is an
  operation to which C gives no meaning (an array index out of range, a dereference of a
  null pointer, signed overflow). \<open>Sleeps what\<close> ends a run of one process that goes to sleep until
  another process wakes it.
\<close>

datatype kerror = Panic string | Undef string | Sleeps string

type_synonym 'a kres = "kerror + 'a"

definition bnd :: "'a kres \<Rightarrow> ('a \<Rightarrow> 'b kres) \<Rightarrow> 'b kres" where
  "bnd m f = (case m of Inl e \<Rightarrow> Inl e | Inr x \<Rightarrow> f x)"

definition panic_if :: "bool \<Rightarrow> string \<Rightarrow> 'a kres \<Rightarrow> 'a kres" where
  "panic_if c msg k = (if c then Inl (Panic msg) else k)"

lemma bnd_Inl [simp, kres_simps]: "bnd (Inl e) f = Inl e"
  by (simp add: bnd_def)

lemma bnd_Inr [simp, kres_simps]: "bnd (Inr x) f = f x"
  by (simp add: bnd_def)

lemma bnd_eq_Inr [kres_simps]: "bnd m f = Inr y \<longleftrightarrow> (\<exists>x. m = Inr x \<and> f x = Inr y)"
  by (cases m) auto

lemma bnd_eq_Inl [kres_simps]:
  "bnd m f = Inl e \<longleftrightarrow> m = Inl e \<or> (\<exists>x. m = Inr x \<and> f x = Inl e)"
  by (cases m) auto

lemma bnd_assoc: "bnd (bnd m f) g = bnd m (\<lambda>x. bnd (f x) g)"
  by (cases m) auto

lemma bnd_cong [fundef_cong]:
  "m = m' \<Longrightarrow> (\<And>x. m' = Inr x \<Longrightarrow> f x = g x) \<Longrightarrow> bnd m f = bnd m' g"
  by (cases m') auto

lemma panic_if_False [simp, kres_simps]: "panic_if False msg k = k"
  by (simp add: panic_if_def)

lemma panic_if_True [simp, kres_simps]: "panic_if True msg k = Inl (Panic msg)"
  by (simp add: panic_if_def)

lemma panic_if_eq_Inr [kres_simps]: "panic_if c msg k = Inr y \<longleftrightarrow> \<not> c \<and> k = Inr y"
  by (simp add: panic_if_def)

lemma panic_if_eq_Inl [kres_simps]:
  "panic_if c msg k = Inl e \<longleftrightarrow> (if c then e = Panic msg else k = Inl e)"
  by (auto simp: panic_if_def)

lemma panic_if_cong [fundef_cong]:
  "c = c' \<Longrightarrow> (\<not> c' \<Longrightarrow> k = k') \<Longrightarrow> panic_if c msg k = panic_if c' msg k'"
  by (simp add: panic_if_def)

section \<open>Little-endian words\<close>

primrec le_bytes :: "nat \<Rightarrow> 'a::len word \<Rightarrow> u8 list" where
  "le_bytes 0 w = []"
| "le_bytes (Suc n) w = ucast w # le_bytes n (drop_bit 8 w)"

primrec le_word :: "u8 list \<Rightarrow> 'a::len word" where
  "le_word [] = 0"
| "le_word (b # bs) = ucast b OR push_bit 8 (le_word bs)"

lemma length_le_bytes [simp]: "length (le_bytes n w) = n"
  by (induction n arbitrary: w) auto

lemma le_word_le_bytes_bits:
  "bit (le_word (le_bytes n w) :: 'a::len word) k \<longleftrightarrow> k < 8 * n \<and> bit (w :: 'a word) k"
proof (induction n arbitrary: w k)
  case 0
  then show ?case by simp
next
  case (Suc n)
  show ?case
  proof (cases "k < 8")
    case True
    then show ?thesis
      by (auto simp: bit_or_iff bit_push_bit_iff bit_unsigned_iff dest: bit_imp_le_length)
  next
    case False
    then have "k - 8 + 8 = k" by simp
    with False show ?thesis
      by (auto simp: bit_or_iff bit_push_bit_iff bit_unsigned_iff Suc.IH bit_drop_bit_eq
          dest: bit_imp_le_length)
  qed
qed

lemma le_word_le_bytes: "LENGTH('a) \<le> 8 * n \<Longrightarrow> le_word (le_bytes n w) = (w :: 'a::len word)"
  by (rule bit_word_eqI) (auto simp: le_word_le_bytes_bits)

lemma bit_le_word_bound: "bit (le_word bs :: 'a::len word) k \<Longrightarrow> k < 8 * length bs"
proof (induction bs arbitrary: k)
  case Nil
  then show ?case by simp
next
  case (Cons b bs)
  then show ?case
    by (fastforce simp: bit_or_iff bit_push_bit_iff bit_unsigned_iff dest: bit_imp_le_length)
qed

lemma le_bytes_le_word:
  "8 * length bs \<le> LENGTH('a) \<Longrightarrow> le_bytes (length bs) (le_word bs :: 'a::len word) = bs"
proof (induction bs)
  case Nil
  then show ?case by simp
next
  case (Cons b bs)
  have "ucast (ucast b OR push_bit 8 (le_word bs) :: 'a word) = b"
    using Cons.prems
    by (auto intro!: bit_word_eqI simp: bit_or_iff bit_push_bit_iff bit_unsigned_iff)
  moreover have "drop_bit 8 (ucast b OR push_bit 8 (le_word bs) :: 'a word)
      = take_bit (LENGTH('a) - 8) (le_word bs)"
    by (rule bit_word_eqI)
      (auto simp: bit_or_iff bit_push_bit_iff bit_unsigned_iff bit_drop_bit_eq bit_take_bit_iff
        dest: bit_imp_le_length)
  moreover have "take_bit (LENGTH('a) - 8) (le_word bs :: 'a word) = le_word bs"
    using Cons.prems by (intro bit_word_eqI) (auto simp: bit_take_bit_iff dest: bit_le_word_bound)
  ultimately show ?case
    using Cons by simp
qed

section \<open>Physical memory\<close>

text \<open>
  Memory is a byte for every 64-bit address. A block of bytes is read and written at an
  address; 64-bit accesses are little-endian, as on RISC-V.
\<close>

type_synonym memory = "u64 \<Rightarrow> u8"

definition mem_read :: "memory \<Rightarrow> u64 \<Rightarrow> nat \<Rightarrow> u8 list" where
  "mem_read m a n = map (\<lambda>i. m (a + of_nat i)) [0..<n]"

definition mem_write :: "memory \<Rightarrow> u64 \<Rightarrow> u8 list \<Rightarrow> memory" where
  "mem_write m a bs = (\<lambda>x. if unat (x - a) < length bs then bs ! unat (x - a) else m x)"

definition ld64 :: "memory \<Rightarrow> u64 \<Rightarrow> u64" where
  "ld64 m a = le_word (mem_read m a 8)"

definition st64 :: "memory \<Rightarrow> u64 \<Rightarrow> u64 \<Rightarrow> memory" where
  "st64 m a v = mem_write m a (le_bytes 8 v)"

lemma length_mem_read [simp]: "length (mem_read m a n) = n"
  by (simp add: mem_read_def)

lemma nth_mem_read [simp]: "i < n \<Longrightarrow> mem_read m a n ! i = m (a + of_nat i)"
  by (simp add: mem_read_def)

lemma mem_write_in [mem_simps]:
  "unat (x - a) < length bs \<Longrightarrow> mem_write m a bs x = bs ! unat (x - a)"
  by (simp add: mem_write_def)

lemma mem_write_out [mem_simps]: "length bs \<le> unat (x - a) \<Longrightarrow> mem_write m a bs x = m x"
  by (simp add: mem_write_def)

lemma mem_read_write_same [mem_simps]:
  assumes "length bs \<le> 2 ^ 64"
  shows "mem_read (mem_write m a bs) a (length bs) = bs"
proof (rule nth_equalityI)
  fix i assume "i < length (mem_read (mem_write m a bs) a (length bs))"
  then have i: "i < length bs" by simp
  with assms have "unat (of_nat i :: u64) = i"
    by (simp add: unat_of_nat)
  with i show "mem_read (mem_write m a bs) a (length bs) ! i = bs ! i"
    by (simp add: mem_write_def)
qed simp

lemma mem_read_cong: "(\<And>i. i < n \<Longrightarrow> m (a + of_nat i) = m' (a + of_nat i)) \<Longrightarrow>
    mem_read m a n = mem_read m' a n"
  by (auto intro: nth_equalityI)

lemma ld64_st64_same [simp]: "ld64 (st64 m a v) a = v"
  using mem_read_write_same [of "le_bytes 8 v" m a]
  by (simp add: ld64_def st64_def le_word_le_bytes)

lemma ld64_cong: "(\<And>i. i < 8 \<Longrightarrow> m (a + of_nat i) = m' (a + of_nat i)) \<Longrightarrow> ld64 m a = ld64 m' a"
  by (simp add: ld64_def mem_read_cong [of 8 m a m'])

section \<open>Pages\<close>

text \<open>
  A page is 4096 bytes at an aligned address; seen as an array of 64-bit words it has
  512 slots. Distinct aligned pages are disjoint, and so are distinct slots.
\<close>

definition pg_aligned :: "u64 \<Rightarrow> bool" where
  "pg_aligned p \<longleftrightarrow> p mod 4096 = 0"

definition in_page :: "u64 \<Rightarrow> u64 \<Rightarrow> bool" where
  "in_page p x \<longleftrightarrow> unat (x - p) < 4096"

definition slot :: "u64 \<Rightarrow> nat \<Rightarrow> u64" where
  "slot p i = p + 8 * of_nat i"

lemma u64_bound: "unat (x :: u64) < 2 ^ 64"
  using unsigned_less [of x] by simp

lemma u32_bound: "unat (x :: u32) < 2 ^ 32"
  using unsigned_less [of x] by simp

lemma u8_bound: "unat (x :: u8) < 2 ^ 8"
  using unsigned_less [of x] by simp

lemma unat_eqD: "unat (x :: u64) = unat y \<Longrightarrow> x = y"
  by (simp add: word_unat_eq_iff)

lemma pg_aligned_unat: "pg_aligned p \<longleftrightarrow> unat p mod 4096 = 0"
proof -
  have "pg_aligned p \<longleftrightarrow> unat (p mod 4096) = 0"
    by (simp add: pg_aligned_def word_unat_eq_iff)
  then show ?thesis by (simp only: unat_mod) simp
qed

lemma pg_alignedE:
  assumes "pg_aligned p"
  obtains k where "unat p = 4096 * k"
  using assms by (metis mod_0_imp_dvd dvdE pg_aligned_unat)

lemma pg_aligned_bound: "pg_aligned p \<Longrightarrow> unat p + 4096 \<le> 2 ^ 64"
  using u64_bound [of p] by (auto elim!: pg_alignedE)

lemma in_page_iff:
  assumes "pg_aligned p"
  shows "in_page p x \<longleftrightarrow> unat p \<le> unat x \<and> unat x < unat p + 4096"
  using pg_aligned_bound [OF assms] u64_bound [of x]
  by (auto simp: in_page_def unat_sub_if')

lemma in_page_div: "pg_aligned p \<Longrightarrow> in_page p x \<longleftrightarrow> unat x div 4096 = unat p div 4096"
  by (auto simp: in_page_iff elim!: pg_alignedE)

lemma in_page_unique:
  assumes "pg_aligned p" "pg_aligned q" "in_page p x" "in_page q x"
  shows "p = q"
proof -
  have "unat p = unat q"
    using assms by (auto simp: in_page_div elim!: pg_alignedE)
  then show ?thesis by (rule unat_eqD)
qed

lemma in_page_self [simp]: "in_page p p"
  by (simp add: in_page_def)

lemma unat_slot: "pg_aligned p \<Longrightarrow> i < 512 \<Longrightarrow> k < 8 \<Longrightarrow> unat (slot p i + of_nat k) = unat p + 8 * i + k"
proof -
  assume a: "pg_aligned p" and "i < 512" "k < 8"
  then have "unat (8 * of_nat i :: u64) = 8 * i" "unat (of_nat k :: u64) = k"
    by (simp_all add: unat_word_ariths unat_of_nat)
  with pg_aligned_bound [OF a] \<open>i < 512\<close> \<open>k < 8\<close> show ?thesis
    by (simp add: slot_def unat_word_ariths)
qed

lemma in_page_slot: "pg_aligned p \<Longrightarrow> i < 512 \<Longrightarrow> k < 8 \<Longrightarrow> in_page p (slot p i + of_nat k)"
  by (simp add: in_page_iff unat_slot)

lemma slot_inj:
  assumes "pg_aligned p" "pg_aligned q" "i < 512" "j < 512" "slot p i = slot q j"
  shows "p = q \<and> i = j"
proof -
  from assms(5) have "unat p + 8 * i = unat q + 8 * j"
    using unat_slot [OF assms(1,3), of 0] unat_slot [OF assms(2,4), of 0] by simp
  moreover obtain k l where "unat p = 4096 * k" "unat q = 4096 * l"
    using assms(1,2) by (metis pg_alignedE)
  ultimately have "512 * k + i = 512 * l + j" "unat p = 4096 * k" "unat q = 4096 * l"
    by linarith+
  moreover from this have "k = l" "i = j"
    using assms(3,4) by (metis add.commute div_mult_self2 div_less zero_neq_numeral add_0 mod_mult_self2 mod_less)+
  ultimately show ?thesis by (simp add: unat_eqD)
qed

lemma st64_out_page:
  assumes "pg_aligned p" "i < 512" "\<not> in_page p x"
  shows "st64 m (slot p i) v x = m x"
proof -
  have "unat (slot p i) = unat p + 8 * i"
    using unat_slot [OF assms(1,2), of 0] by simp
  then have "8 \<le> unat (x - slot p i)"
    using assms pg_aligned_bound [OF assms(1)] u64_bound [of x]
    by (simp add: in_page_iff unat_sub_if') linarith
  then show ?thesis by (simp add: st64_def mem_write_out)
qed

lemma ld64_st64_slot:
  assumes "pg_aligned p" "pg_aligned q" "i < 512" "j < 512"
  shows "ld64 (st64 m (slot p i) v) (slot q j) = (if p = q \<and> i = j then v else ld64 m (slot q j))"
proof (cases "p = q \<and> i = j")
  case True
  then show ?thesis by simp
next
  case ne: False
  have "st64 m (slot p i) v (slot q j + of_nat k) = m (slot q j + of_nat k)" if "k < 8" for k
  proof (cases "p = q")
    case True
    with ne have "i \<noteq> j" by simp
    moreover have "unat (slot p i) = unat p + 8 * i" "unat (slot q j + of_nat k) = unat p + 8 * j + k"
      using unat_slot [OF assms(1,3), of 0] unat_slot [OF assms(2,4) that] True by simp_all
    ultimately have "8 \<le> unat (slot q j + of_nat k - slot p i)"
      using assms that pg_aligned_bound [OF assms(1)]
      by (simp add: unat_sub_if' del: of_nat_add) linarith
    then show ?thesis by (simp add: st64_def mem_write_out)
  next
    case False
    then have "\<not> in_page p (slot q j + of_nat k)"
      using in_page_unique [OF assms(1,2)] in_page_slot [OF assms(2,4) that] by blast
    then show ?thesis using assms by (simp add: st64_out_page)
  qed
  then show ?thesis using ne by (auto intro: ld64_cong)
qed

definition page_eq :: "memory \<Rightarrow> memory \<Rightarrow> u64 \<Rightarrow> bool" where
  "page_eq m m' p \<longleftrightarrow> (\<forall>x. in_page p x \<longrightarrow> m x = m' x)"

lemma page_eqI: "(\<And>x. in_page p x \<Longrightarrow> m x = m' x) \<Longrightarrow> page_eq m m' p"
  by (simp add: page_eq_def)

lemma page_eq_refl [simp]: "page_eq m m p"
  by (simp add: page_eq_def)

lemma page_eq_sym: "page_eq m m' p \<Longrightarrow> page_eq m' m p"
  by (simp add: page_eq_def)

lemma page_eq_trans: "page_eq m m' p \<Longrightarrow> page_eq m' m'' p \<Longrightarrow> page_eq m m'' p"
  by (simp add: page_eq_def)

lemma page_eq_slot: "page_eq m m' p \<Longrightarrow> pg_aligned p \<Longrightarrow> i < 512 \<Longrightarrow> ld64 m (slot p i) = ld64 m' (slot p i)"
  by (rule ld64_cong) (simp add: page_eq_def in_page_slot)

lemma page_eq_st64:
  assumes "pg_aligned p" "pg_aligned q" "p \<noteq> q" "i < 512"
  shows "page_eq m (st64 m (slot p i) v) q"
proof (rule page_eqI)
  fix x assume "in_page q x"
  then have "\<not> in_page p x"
    using assms in_page_unique by blast
  then show "m x = st64 m (slot p i) v x"
    using assms by (simp add: st64_out_page)
qed

end
