(* ===== verification/Grep.thy ===== *)
theory Grep
  imports Kprelude
begin

text \<open>
  The pattern matcher and the line loop of \<^verbatim>\<open>user/grep.c\<close>, and the counting loop of \<^verbatim>\<open>user/wc.c\<close>.
  A C string is the list of its bytes before the NUL, so the empty list is a pointer to NUL.
  Input arrives in chunks: a \<^verbatim>\<open>read\<close> returns as much of the next chunk as the buffer has room for,
  and 0 when there is no room or no chunk left.
\<close>

section \<open>Operations\<close>

function matchhere :: "u8 list \<Rightarrow> u8 list \<Rightarrow> bool" and matchstar :: "u8 \<Rightarrow> u8 list \<Rightarrow> u8 list \<Rightarrow> bool" where
  "matchhere re text =
     (case re of [] \<Rightarrow> True
      | c # re1 \<Rightarrow>
          if re1 \<noteq> [] \<and> hd re1 = 42 then matchstar c (tl re1) text
          else if c = 36 \<and> re1 = [] then text = []
          else if text \<noteq> [] \<and> (c = 46 \<or> c = hd text) then matchhere re1 (tl text)
          else False)"
| "matchstar c re text =
     (if matchhere re text then True
      else (case text of [] \<Rightarrow> False | t # ts \<Rightarrow> if t = c \<or> c = 46 then matchstar c re ts else False))"
  by pat_completeness auto
termination
  by (relation "measures [case_sum (\<lambda>(re, t). 2 * length re) (\<lambda>(c, re, t). 2 * length re + 1),
                          case_sum (\<lambda>(re, t). length t) (\<lambda>(c, re, t). length t)]") auto

declare matchhere.simps [simp del] matchstar.simps [simp del]

primrec match_from :: "u8 list \<Rightarrow> u8 list \<Rightarrow> bool" where
  "match_from re [] = matchhere re []"
| "match_from re (t # ts) = (if matchhere re (t # ts) then True else match_from re ts)"

definition match :: "u8 list \<Rightarrow> u8 list \<Rightarrow> bool" where
  "match re text = (if re \<noteq> [] \<and> hd re = 94 then matchhere (tl re) text else match_from re text)"

text \<open>\<^verbatim>\<open>strchr(p, '\n')\<close>: the offset of the first newline that no NUL precedes.\<close>

fun find_nl :: "u8 list \<Rightarrow> nat option" where
  "find_nl [] = None"
| "find_nl (c # cs) = (if c = 0 then None else if c = 10 then Some 0 else map_option Suc (find_nl cs))"

lemma find_nl_less: "find_nl p = Some q \<Longrightarrow> q < length p"
  by (induction p arbitrary: q) (auto split: if_splits)

text \<open>The lines of the buffer: what is written, and the bytes after the last newline.\<close>

function grep_lines :: "u8 list \<Rightarrow> u8 list \<Rightarrow> u8 list \<times> u8 list" where
  "grep_lines pattern p =
     (case find_nl p of
        None \<Rightarrow> ([], p)
      | Some q \<Rightarrow>
          let (out, rest) = grep_lines pattern (drop (q + 1) p) in
          ((if match pattern (take q p) then take (q + 1) p else []) @ out, rest))"
  by pat_completeness auto
termination
  by (relation "measure (\<lambda>(re, p). length p)") (auto dest: find_nl_less)

declare grep_lines.simps [simp del]

text \<open>\<open>b\<close> holds the \<open>m\<close> bytes at the front of \<^verbatim>\<open>buf\<close>.\<close>

function grep :: "u8 list \<Rightarrow> u8 list \<Rightarrow> u8 list list \<Rightarrow> u8 list" where
  "grep pattern b [] = []"
| "grep pattern b (r # rs) =
     (let n = min (1024 - length b - 1) (length r) in
      if n = 0 then []
      else let (out, rest) = grep_lines pattern (b @ take n r) in
        out @ grep pattern rest (if n < length r then drop n r # rs else rs))"
  by pat_completeness auto
termination
  by (relation "measures [\<lambda>(re, b, rs). sum_list (map length rs), \<lambda>(re, b, rs). length rs]") auto

declare grep.simps [simp del]

definition is_space :: "u8 \<Rightarrow> bool" where
  "is_space c \<longleftrightarrow> c \<in> {32, 13, 9, 10, 11}"

text \<open>Lines, words, bytes and whether the last byte was inside a word.\<close>

fun wc_buf :: "u8 list \<Rightarrow> nat \<times> nat \<times> nat \<times> bool \<Rightarrow> nat \<times> nat \<times> nat \<times> bool" where
  "wc_buf [] st = st"
| "wc_buf (x # xs) (l, w, c, inword) =
     (let c = c + 1; l = (if x = 10 then l + 1 else l) in
      if is_space x then wc_buf xs (l, w, c, False)
      else if \<not> inword then wc_buf xs (l, w + 1, c, True)
      else wc_buf xs (l, w, c, inword))"

function wc_loop :: "u8 list list \<Rightarrow> nat \<times> nat \<times> nat \<times> bool \<Rightarrow> nat \<times> nat \<times> nat \<times> bool" where
  "wc_loop [] st = st"
| "wc_loop (r # rs) st =
     (let n = min 512 (length r) in
      if n = 0 then st
      else wc_loop (if n < length r then drop n r # rs else rs) (wc_buf (take n r) st))"
  by pat_completeness auto
termination
  by (relation "measures [\<lambda>(rs, st). sum_list (map length rs), \<lambda>(rs, st). length rs]") auto

declare wc_loop.simps [simp del]

definition wc :: "u8 list list \<Rightarrow> nat \<times> nat \<times> nat" where
  "wc reads = (case wc_loop reads (0, 0, 0, False) of (l, w, c, inword) \<Rightarrow> (l, w, c))"


section \<open>What a pattern means\<close>

text \<open>
  A pattern is a sequence of items, each a byte, any byte, or a repetition, and may be anchored at
  the end of the text by a final \<^verbatim>\<open>$\<close>.
\<close>

datatype item = One u8 | Many u8

fun parse_re :: "u8 list \<Rightarrow> item list \<times> bool" where
  "parse_re [] = ([], False)"
| "parse_re (c # re) =
     (if re \<noteq> [] \<and> hd re = 42 then apfst ((#) (Many c)) (parse_re (tl re))
      else if c = 36 \<and> re = [] then ([], True)
      else apfst ((#) (One c)) (parse_re re))"

definition accepts :: "u8 \<Rightarrow> u8 \<Rightarrow> bool" where
  "accepts c x \<longleftrightarrow> c = 46 \<or> x = c"

fun item_words :: "item \<Rightarrow> u8 list set" where
  "item_words (One c) = {[x] |x. accepts c x}"
| "item_words (Many c) = {w. \<forall>x\<in>set w. accepts c x}"

primrec words :: "item list \<Rightarrow> u8 list set" where
  "words [] = {[]}"
| "words (i # is) = {u @ v |u v. u \<in> item_words i \<and> v \<in> words is}"

definition here :: "u8 list \<Rightarrow> u8 list \<Rightarrow> bool" where
  "here re text \<longleftrightarrow> (\<exists>w v. text = w @ v \<and> w \<in> words (fst (parse_re re)) \<and> (snd (parse_re re) \<longrightarrow> v = []))"

lemma here_Nil: "here [] text"
  by (simp add: here_def)

lemma here_end: "here [36] text \<longleftrightarrow> text = []"
  by (auto simp: here_def)

lemma words_One: "w \<in> words (One c # is) \<longleftrightarrow> (\<exists>x v. w = x # v \<and> accepts c x \<and> v \<in> words is)"
proof
  assume "\<exists>x v. w = x # v \<and> accepts c x \<and> v \<in> words is"
  then obtain x v where "w = [x] @ v" "accepts c x" "v \<in> words is" by auto
  then show "w \<in> words (One c # is)" unfolding words.simps item_words.simps by blast
qed auto

lemma here_One:
  assumes "\<not> (re \<noteq> [] \<and> hd re = 42)" "\<not> (c = 36 \<and> re = [])"
  shows "here (c # re) tx \<longleftrightarrow> (\<exists>t ts. tx = t # ts \<and> accepts c t \<and> here re ts)"
proof -
  obtain its e where p: "parse_re re = (its, e)" by force
  then have p': "parse_re (c # re) = (One c # its, e)" using assms by auto
  have "here (c # re) tx \<longleftrightarrow> (\<exists>t w v. tx = (t # w) @ v \<and> accepts c t \<and> w \<in> words its \<and> (e \<longrightarrow> v = []))"
    unfolding here_def p' fst_conv snd_conv words_One by blast
  then show ?thesis unfolding here_def p fst_conv snd_conv append_Cons by blast
qed

text \<open>A repetition is tried at every split of its run.\<close>

lemma here_split:
  "here (c # 42 # re) tx \<longleftrightarrow> (\<exists>u y. tx = u @ y \<and> (\<forall>x\<in>set u. accepts c x) \<and> here re y)"
proof -
  obtain its e where p: "parse_re re = (its, e)" by force
  then have p': "parse_re (c # 42 # re) = (Many c # its, e)" by simp
  have "here (c # 42 # re) tx \<longleftrightarrow> (\<exists>u v x. tx = u @ v @ x \<and> (\<forall>x\<in>set u. accepts c x) \<and> v \<in> words its \<and> (e \<longrightarrow> x = []))"
    unfolding here_def p' fst_conv snd_conv words.simps item_words.simps append_assoc [symmetric] by blast
  then show ?thesis unfolding here_def p fst_conv snd_conv by blast
qed

lemma here_Many:
  "here (c # 42 # re) tx \<longleftrightarrow>
     here re tx \<or> (\<exists>t ts. tx = t # ts \<and> accepts c t \<and> here (c # 42 # re) ts)"
proof
  assume "here (c # 42 # re) tx"
  then obtain u y where u: "tx = u @ y" "\<forall>x\<in>set u. accepts c x" "here re y" by (auto simp: here_split)
  then show "here re tx \<or> (\<exists>t ts. tx = t # ts \<and> accepts c t \<and> here (c # 42 # re) ts)"
    by (cases u) (auto simp: here_split)
next
  assume "here re tx \<or> (\<exists>t ts. tx = t # ts \<and> accepts c t \<and> here (c # 42 # re) ts)"
  then show "here (c # 42 # re) tx"
  proof
    assume "here re tx"
    then show ?thesis unfolding here_split by (intro exI [of _ "[]"] exI [of _ tx]) simp
  next
    assume "\<exists>t ts. tx = t # ts \<and> accepts c t \<and> here (c # 42 # re) ts"
    then obtain t u y where "tx = t # u @ y" "accepts c t" "\<forall>x\<in>set u. accepts c x" "here re y"
      by (auto simp: here_split)
    then show ?thesis unfolding here_split by (intro exI [of _ "t # u"] exI [of _ y]) simp
  qed
qed

lemma match_here:
  "matchhere re tx = here re tx"
  "matchstar c re tx = here (c # 42 # re) tx"
proof (induction re tx and c re tx rule: matchhere_matchstar.induct)
  case (1 re tx)
  show ?case
  proof (cases re)
    case Nil
    then show ?thesis by (simp add: matchhere.simps here_Nil)
  next
    case (Cons c re1)
    consider "re1 \<noteq> [] \<and> hd re1 = 42" | "\<not> (re1 \<noteq> [] \<and> hd re1 = 42)" "c = 36 \<and> re1 = []"
      | "\<not> (re1 \<noteq> [] \<and> hd re1 = 42)" "\<not> (c = 36 \<and> re1 = [])" by blast
    then show ?thesis
    proof cases
      case 1
      then have "re = c # 42 # tl re1" using Cons by (cases re1) auto
      then show ?thesis using 1 "1.IH"(1) [OF Cons 1] Cons by (subst matchhere.simps) simp
    next
      case 2
      then show ?thesis using Cons by (subst matchhere.simps) (simp add: here_end)
    next
      case 3
      show ?thesis
        using 3 "1.IH"(2) [OF Cons 3] Cons
        by (subst matchhere.simps) (cases tx; auto simp: here_One accepts_def)
    qed
  qed
next
  case (2 c re tx)
  show ?case
    using 2 here_Many [of c re tx]
    by (subst matchstar.simps) (cases tx; auto simp: accepts_def)
qed

lemma match_from: "match_from re tx \<longleftrightarrow> (\<exists>u v. tx = u @ v \<and> matchhere re v)"
proof (induction tx)
  case (Cons t ts)
  have "(\<exists>u v. t # ts = u @ v \<and> matchhere re v) \<longleftrightarrow>
      matchhere re (t # ts) \<or> (\<exists>u v. ts = u @ v \<and> matchhere re v)"
    by (auto simp: Cons_eq_append_conv)
  then show ?case using Cons by simp
qed simp


section \<open>Lines\<close>

text \<open>The complete lines of an input, without their newlines, and the bytes after the last one.\<close>

function split_lines :: "u8 list \<Rightarrow> u8 list list \<times> u8 list" where
  "split_lines xs =
     (if 10 \<in> set xs then
        apfst ((#) (takeWhile (\<lambda>x. x \<noteq> 10) xs)) (split_lines (tl (dropWhile (\<lambda>x. x \<noteq> 10) xs)))
      else ([], xs))"
  by pat_completeness auto
termination
proof (relation "measure length")
  fix xs :: "u8 list" assume "10 \<in> set xs"
  then have "dropWhile (\<lambda>x. x \<noteq> 10) xs \<noteq> []" by (simp add: dropWhile_eq_Nil_conv)
  moreover have "length (dropWhile (\<lambda>x. x \<noteq> 10) xs) \<le> length xs" by (rule length_dropWhile_le)
  ultimately show "(tl (dropWhile (\<lambda>x. x \<noteq> 10) xs), xs) \<in> measure length"
    by (cases "dropWhile (\<lambda>x. x \<noteq> 10) xs") auto
qed simp

declare split_lines.simps [simp del]

definition grep_out :: "u8 list \<Rightarrow> u8 list list \<Rightarrow> u8 list" where
  "grep_out pattern ls = concat (map (\<lambda>l. l @ [10]) (filter (match pattern) ls))"

lemma split_lines_line: "10 \<notin> set l \<Longrightarrow> split_lines (l @ 10 # xs) = apfst ((#) l) (split_lines xs)"
proof -
  assume "10 \<notin> set l"
  then have "x \<noteq> 10" if "x \<in> set l" for x using that by auto
  then show ?thesis by (subst split_lines.simps) (simp add: takeWhile_append2 dropWhile_append2)
qed

lemma split_lines_rest: "10 \<notin> set l \<Longrightarrow> split_lines l = ([], l)"
  by (subst split_lines.simps) simp

lemma find_nl_line:
  assumes "10 \<notin> set l" "0 \<notin> set l"
  shows "find_nl (l @ 10 # xs) = Some (length l)" "find_nl l = None"
  using assms by (induction l) auto

text \<open>Every input is a list of lines and a rest without newline.\<close>

lemma lines_induct [case_names rest line]:
  assumes "\<And>l. 10 \<notin> set l \<Longrightarrow> P l" "\<And>l xs. 10 \<notin> set l \<Longrightarrow> P xs \<Longrightarrow> P (l @ 10 # xs)"
  shows "P xs"
proof (induction "length xs" arbitrary: xs rule: less_induct)
  case less
  show ?case
  proof (cases "10 \<in> set xs")
    case True
    then obtain l ys where "xs = l @ 10 # ys" "10 \<notin> set l" by (meson split_list_first)
    then show ?thesis using assms(2) less by simp
  qed (rule assms(1))
qed

lemma grep_lines_split:
  "0 \<notin> set xs \<Longrightarrow> grep_lines re xs = (grep_out re (fst (split_lines xs)), snd (split_lines xs))"
proof (induction xs rule: lines_induct)
  case (rest l)
  then show ?case
    by (subst grep_lines.simps) (simp add: find_nl_line(2) split_lines_rest grep_out_def)
next
  case (line l xs)
  then have "grep_lines re xs = (grep_out re (fst (split_lines xs)), snd (split_lines xs))" by simp
  then show ?case
    using line by (subst grep_lines.simps) (simp add: find_nl_line(1) split_lines_line grep_out_def)
qed

lemma split_lines_append:
  "split_lines (xs @ ys) =
     (case split_lines xs of (ls, r) \<Rightarrow> (case split_lines (r @ ys) of (ls', r') \<Rightarrow> (ls @ ls', r')))"
proof (induction xs rule: lines_induct)
  case (rest l)
  then show ?case by (simp add: split_lines_rest split: prod.split)
next
  case (line l xs)
  then show ?case
    using split_lines_line [of l "xs @ ys"] split_lines_line [of l xs] by (auto split: prod.splits)
qed

lemma split_lines_rest_props: "10 \<notin> set (snd (split_lines xs)) \<and> set (snd (split_lines xs)) \<subseteq> set xs"
proof (induction xs rule: lines_induct)
  case (line l xs)
  then show ?case using split_lines_line [of l xs] by auto
qed (simp add: split_lines_rest)


text \<open>A first line longer than a full buffer.\<close>

lemma split_lines_long:
  assumes "10 \<notin> set b" "\<And>l. l \<in> set (fst (split_lines (b @ xs))) \<Longrightarrow> length l < length b"
  shows "fst (split_lines (b @ xs)) = []"
proof (cases "10 \<in> set xs")
  case True
  then obtain l ys where xs: "xs = l @ 10 # ys" "10 \<notin> set l" by (meson split_list_first)
  then have "split_lines (b @ xs) = apfst ((#) (b @ l)) (split_lines ys)"
    using split_lines_line [of "b @ l" ys] assms(1) by simp
  then show ?thesis using assms(2) [of "b @ l"] by (cases "split_lines ys") auto
next
  case False
  then show ?thesis using assms(1) split_lines_rest [of "b @ xs"] by simp
qed

lemma grep_ok:
  assumes "10 \<notin> set b" "0 \<notin> set b" "[] \<notin> set rs" "\<forall>r\<in>set rs. 0 \<notin> set r"
    "\<And>l. l \<in> set (fst (split_lines (b @ concat rs))) \<Longrightarrow> length l < 1023"
  shows "grep re b rs = grep_out re (fst (split_lines (b @ concat rs)))"
  using assms
proof (induction re b rs rule: grep.induct)
  case (1 re b)
  then show ?case by (simp add: grep.simps split_lines_rest grep_out_def)
next
  case (2 re b r rs)
  define n where n: "n = min (1024 - length b - 1) (length r)"
  define rs' where rs': "rs' = (if n < length r then drop n r # rs else rs)"
  have step: "grep re b (r # rs) = (if n = 0 then []
      else let (out, rest) = grep_lines re (b @ take n r) in out @ grep re rest rs')"
    unfolding n rs' by (subst grep.simps) (simp only: Let_def)
  show ?case
  proof (cases "n = 0")
    case True
    then have "1023 \<le> length b" using 2(4) n by (cases r) (auto simp: min_def split: if_splits)
    then have "fst (split_lines (b @ concat (r # rs))) = []"
      using split_lines_long [OF 2(2), of "concat (r # rs)"] 2(6) by fastforce
    then show ?thesis using True step by (simp add: grep_out_def)
  next
    case False
    let ?x = "b @ take n r"
    obtain ls rest where ls: "split_lines ?x = (ls, rest)" by force
    have x0: "0 \<notin> set ?x" using 2(3,5) by (auto dest: in_set_takeD)
    have g: "grep_lines re ?x = (grep_out re ls, rest)" using grep_lines_split [OF x0] ls by simp
    have rest: "10 \<notin> set rest" "0 \<notin> set rest" using split_lines_rest_props [of ?x] ls x0 by auto
    obtain ls' r' where ls': "split_lines (rest @ concat rs') = (ls', r')" by force
    have "b @ concat (r # rs) = ?x @ concat rs'" using append_take_drop_id [of n r] by (simp add: rs' n)
    then have all: "split_lines (b @ concat (r # rs)) = (ls @ ls', r')"
      using split_lines_append [of ?x "concat rs'"] ls ls' by simp
    have "grep re rest rs' = grep_out re (fst (split_lines (rest @ concat rs')))"
    proof (rule 2(1) [OF n False g [symmetric] refl rest, folded rs'])
      show "[] \<notin> set rs'" using 2(4) by (auto simp: rs')
      show "\<forall>r\<in>set rs'. 0 \<notin> set r" using 2(5) by (auto simp: rs' dest: in_set_dropD)
      show "length l < 1023" if "l \<in> set (fst (split_lines (rest @ concat rs')))" for l
        using 2(6) [of l] that all ls' by simp
    qed
    then show ?thesis using step False g all ls' by (simp add: grep_out_def)
  qed
qed

lemma wc_buf_append: "wc_buf (xs @ ys) st = wc_buf ys (wc_buf xs st)"
  by (induction xs st rule: wc_buf.induct) (auto simp: Let_def)

lemma wc_loop_concat: "[] \<notin> set rs \<Longrightarrow> wc_loop rs st = wc_buf (concat rs) st"
proof (induction rs st rule: wc_loop.induct)
  case (2 r rs st)
  define n where n: "n = min 512 (length r)"
  define rs' where rs': "rs' = (if n < length r then drop n r # rs else rs)"
  have n0: "n \<noteq> 0" using 2(2) n by (cases r) auto
  have "wc_loop (r # rs) st = wc_loop rs' (wc_buf (take n r) st)"
    using n0 unfolding n rs' by (subst wc_loop.simps) (simp only: Let_def if_False)
  also have "\<dots> = wc_buf (concat rs') (wc_buf (take n r) st)"
    unfolding rs' by (rule 2(1) [OF n n0]) (use 2(2) in auto)
  also have "\<dots> = wc_buf (take n r @ concat rs') st" by (simp add: wc_buf_append)
  also have "take n r @ concat rs' = concat (r # rs)" using append_take_drop_id [of n r] by (simp add: rs' n)
  finally show ?case .
qed (simp add: wc_loop.simps)

text \<open>Words are maximal runs of bytes that are not white space.\<close>

fun word_starts :: "bool \<Rightarrow> u8 list \<Rightarrow> nat" where
  "word_starts inword [] = 0"
| "word_starts inword (x # xs) = of_bool (\<not> is_space x \<and> \<not> inword) + word_starts (\<not> is_space x) xs"

lemma wc_buf_eq:
  "wc_buf xs (l, w, c, i) =
     (l + count_list xs 10, w + word_starts i xs, c + length xs, if xs = [] then i else \<not> is_space (last xs))"
  by (induction xs arbitrary: l w c i) (auto simp: Let_def)



section \<open>Properties\<close>

text \<open>
  C25. \<^verbatim>\<open>match\<close> decides the pattern language of its comment: a text matches exactly when it has a part
  that is a word of the pattern's items, where \<^verbatim>\<open>^\<close> puts the part at the start and \<^verbatim>\<open>$\<close> at the end of
  the text. In particular the mutually recursive search always ends.
\<close>

theorem match_language:
  "match re tx \<longleftrightarrow>
     (let anchored = re \<noteq> [] \<and> hd re = 94; (its, at_end) = parse_re (if anchored then tl re else re) in
      \<exists>u w v. tx = u @ w @ v \<and> w \<in> words its \<and> (anchored \<longrightarrow> u = []) \<and> (at_end \<longrightarrow> v = []))"
proof -
  let ?a = "re \<noteq> [] \<and> hd re = 94"
  obtain its e where p: "parse_re (if ?a then tl re else re) = (its, e)" by force
  have "match re tx \<longleftrightarrow> (\<exists>u y. tx = u @ y \<and> here (if ?a then tl re else re) y \<and> (?a \<longrightarrow> u = []))"
    by (auto simp: match_def match_from match_here)
  then show ?thesis unfolding Let_def p here_def prod.case fst_conv snd_conv by blast
qed

theorem match_language_witness: "match [94, 97, 42, 98, 36] [97, 97, 98] \<and> \<not> match [94, 97, 42, 98, 36] [97, 98, 98]"
proof
  have p: "parse_re [97, 42, 98, 36] = ([Many 97, One 98], True)" by simp
  have "[97, 97, 98 :: u8] = [97, 97] @ [98]" by simp
  then have w: "[97, 97, 98] \<in> words [Many 97, One 98]" by (fastforce simp: accepts_def)
  show "match [94, 97, 42, 98, 36] [97, 97, 98]"
    unfolding match_language by (simp add: Let_def p del: words.simps) (use w in \<open>blast\<close>)
  have n: "[97, 98, 98] \<notin> words [Many 97, One 98]"
    by (auto simp: accepts_def append_eq_Cons_conv)
  show "\<not> match [94, 97, 42, 98, 36] [97, 98, 98]"
    unfolding match_language by (simp add: Let_def p del: words.simps) (use n in \<open>simp\<close>)
qed





end
