(* ===== verification/Riscv.thy ===== *)
theory Riscv
  imports Kprelude
begin

text \<open>
  The constants and macros of \<^verbatim>\<open>kernel/param.h\<close>, \<^verbatim>\<open>kernel/memlayout.h\<close> and the page-table
  part of \<^verbatim>\<open>kernel/riscv.h\<close>: page rounding, page-table entries and the Sv39 split of a
  virtual address, on 64-bit words with their wrap-around.
\<close>

unbundle bit_operations_syntax

section \<open>param.h\<close>

definition NPROC :: nat where [riscv_consts]: "NPROC = 64"
definition NCPU :: nat where [riscv_consts]: "NCPU = 8"
definition NOFILE :: nat where [riscv_consts]: "NOFILE = 16"
definition NFILE :: nat where [riscv_consts]: "NFILE = 100"
definition NINODE :: nat where [riscv_consts]: "NINODE = 50"
definition NDEV :: nat where [riscv_consts]: "NDEV = 10"
definition MAXARG :: nat where [riscv_consts]: "MAXARG = 32"
definition MAXOPBLOCKS :: nat where [riscv_consts]: "MAXOPBLOCKS = 10"
definition LOGBLOCKS :: nat where [riscv_consts]: "LOGBLOCKS = MAXOPBLOCKS * 3"
definition NBUF :: nat where [riscv_consts]: "NBUF = MAXOPBLOCKS * 3"
definition MAXPATH :: nat where [riscv_consts]: "MAXPATH = 128"

section \<open>riscv.h: pages and page-table entries\<close>

definition PGSIZE :: u64 where [riscv_consts]: "PGSIZE = 4096"
definition PGSHIFT :: nat where [riscv_consts]: "PGSHIFT = 12"

definition PGROUNDUP :: "u64 \<Rightarrow> u64" where
  "PGROUNDUP sz = (sz + PGSIZE - 1) AND NOT (PGSIZE - 1)"

definition PGROUNDDOWN :: "u64 \<Rightarrow> u64" where
  "PGROUNDDOWN a = a AND NOT (PGSIZE - 1)"

definition PTE_V :: u64 where [riscv_consts]: "PTE_V = push_bit 0 1"
definition PTE_R :: u64 where [riscv_consts]: "PTE_R = push_bit 1 1"
definition PTE_W :: u64 where [riscv_consts]: "PTE_W = push_bit 2 1"
definition PTE_X :: u64 where [riscv_consts]: "PTE_X = push_bit 3 1"
definition PTE_U :: u64 where [riscv_consts]: "PTE_U = push_bit 4 1"
definition PTE_COW :: u64 where [riscv_consts]: "PTE_COW = push_bit 8 1"

definition PA2PTE :: "u64 \<Rightarrow> u64" where
  "PA2PTE pa = push_bit 10 (drop_bit 12 pa)"

definition PTE2PA :: "u64 \<Rightarrow> u64" where
  "PTE2PA pte = push_bit 12 (drop_bit 10 pte)"

definition PTE_FLAGS :: "u64 \<Rightarrow> u64" where
  "PTE_FLAGS pte = pte AND 0x3FF"

definition PXMASK :: u64 where [riscv_consts]: "PXMASK = 0x1FF"

definition PXSHIFT :: "nat \<Rightarrow> nat" where
  "PXSHIFT level = PGSHIFT + 9 * level"

text \<open>The index is read as a natural number, since it subscripts a page-table page.\<close>

definition PX :: "nat \<Rightarrow> u64 \<Rightarrow> nat" where
  "PX level va = unat (drop_bit (PXSHIFT level) va AND PXMASK)"

definition MAXVA :: u64 where [riscv_consts]: "MAXVA = push_bit (9 + 9 + 9 + 12 - 1) 1"

definition SATP_SV39 :: u64 where [riscv_consts]: "SATP_SV39 = push_bit 60 8"

definition MAKE_SATP :: "u64 \<Rightarrow> u64" where
  "MAKE_SATP pagetable = SATP_SV39 OR drop_bit 12 pagetable"

section \<open>memlayout.h\<close>

definition UART0 :: u64 where [riscv_consts]: "UART0 = 0x10000000"
definition UART0_IRQ :: nat where [riscv_consts]: "UART0_IRQ = 10"
definition VIRTIO0 :: u64 where [riscv_consts]: "VIRTIO0 = 0x10001000"
definition VIRTIO0_IRQ :: nat where [riscv_consts]: "VIRTIO0_IRQ = 1"
definition PLIC :: u64 where [riscv_consts]: "PLIC = 0x0c000000"
definition KERNBASE :: u64 where [riscv_consts]: "KERNBASE = 0x80000000"
definition PHYSTOP :: u64 where [riscv_consts]: "PHYSTOP = KERNBASE + 128 * 1024 * 1024"
definition TRAMPOLINE :: u64 where [riscv_consts]: "TRAMPOLINE = MAXVA - PGSIZE"
definition TRAPFRAME :: u64 where [riscv_consts]: "TRAPFRAME = TRAMPOLINE - PGSIZE"

definition KSTACK :: "nat \<Rightarrow> u64" where
  "KSTACK p = TRAMPOLINE - (of_nat p + 1) * 2 * PGSIZE"

section \<open>Page rounding\<close>

lemma mask12: "PGSIZE - 1 = (mask 12 :: u64)"
  by (simp add: riscv_consts mask_eq_exp_minus_1)

lemma unat_and_not_mask12: "unat (a AND NOT (mask 12) :: u64) = 4096 * (unat a div 4096)"
proof -
  have "a AND NOT (mask 12) = push_bit 12 (drop_bit 12 a)"
    by (rule bit_word_eqI) (auto simp: bit_simps)
  moreover have "unat (drop_bit 12 a) = unat a div 4096"
    by (simp add: drop_bit_eq_div unat_div)
  moreover have "4096 * (unat a div 4096) < 2 ^ 64"
    using u64_bound [of a] div_times_less_eq_dividend [of "unat a" 4096] by linarith
  ultimately show ?thesis
    by (simp add: push_bit_eq_mult unat_word_ariths)
qed

lemma unat_PGROUNDDOWN: "unat (PGROUNDDOWN a) = 4096 * (unat a div 4096)"
  by (simp add: PGROUNDDOWN_def mask12 unat_and_not_mask12)

lemma PGROUNDDOWN_aligned [simp]: "pg_aligned (PGROUNDDOWN a)"
  by (simp add: pg_aligned_unat unat_PGROUNDDOWN)

lemma PGROUNDDOWN_id: "pg_aligned a \<Longrightarrow> PGROUNDDOWN a = a"
  by (rule unat_eqD) (auto simp: unat_PGROUNDDOWN elim!: pg_alignedE)

lemma in_page_PGROUNDDOWN: "in_page (PGROUNDDOWN a) a"
  by (simp add: in_page_div unat_PGROUNDDOWN)

lemma unat_PGROUNDUP:
  assumes "unat sz + 4095 < 2 ^ 64"
  shows "unat (PGROUNDUP sz) = 4096 * ((unat sz + 4095) div 4096)"
proof -
  have "sz + PGSIZE - 1 = sz + 4095" by (simp add: riscv_consts)
  moreover have "unat (sz + 4095) = unat sz + 4095"
    using assms by (simp add: unat_word_ariths)
  ultimately show ?thesis
    by (simp only: PGROUNDUP_def mask12 unat_and_not_mask12)
qed

text \<open>The rounding wraps around to zero in the last page of the address space.\<close>

lemma PGROUNDUP_wrap:
  assumes "2 ^ 64 \<le> unat sz + 4095"
  shows "PGROUNDUP sz = 0"
proof -
  have "sz + PGSIZE - 1 = sz + 4095" by (simp add: riscv_consts)
  moreover have "unat (sz + 4095) < 4096"
    using assms u64_bound [of sz] by (simp add: unat_word_ariths mod_if) linarith
  ultimately have "unat (PGROUNDUP sz) = 0"
    by (simp only: PGROUNDUP_def mask12 unat_and_not_mask12) simp
  then show ?thesis by (simp add: word_unat_eq_iff)
qed

lemma PGROUNDUP_aligned [simp]: "pg_aligned (PGROUNDUP a)"
  by (simp add: pg_aligned_unat PGROUNDUP_def mask12 unat_and_not_mask12)

section \<open>Page-table entries\<close>

lemma PTE2PA_aligned [simp]: "pg_aligned (PTE2PA pte)"
proof -
  have "PTE2PA pte AND mask 12 = 0"
    by (rule bit_word_eqI) (auto simp: PTE2PA_def bit_simps)
  then have "take_bit 12 (PTE2PA pte) = 0"
    by (simp add: take_bit_eq_mask)
  then show ?thesis
    by (simp add: pg_aligned_def take_bit_eq_mod)
qed

lemma pg_aligned_bits: "pg_aligned p \<Longrightarrow> n < 12 \<Longrightarrow> \<not> bit p n"
proof -
  assume "pg_aligned p" "n < 12"
  then have "take_bit 12 p = 0"
    by (simp add: pg_aligned_def take_bit_eq_mod)
  with \<open>n < 12\<close> show ?thesis
    by (metis bit_0_eq bit_take_bit_iff bot_apply bot_bool_def)
qed

lemma PTE2PA_PA2PTE:
  assumes pa: "pg_aligned pa" "pa < 2 ^ 54" and fl: "PTE_FLAGS fl = fl"
  shows "PTE2PA (PA2PTE pa OR fl) = pa"
    and "PTE_FLAGS (PA2PTE pa OR fl) = fl"
proof -
  have mask10: "(0x3FF :: u64) = mask 10"
    by (simp add: mask_eq_exp_minus_1)
  have hi: "\<not> bit pa n" if "54 \<le> n" for n
  proof -
    have "unat (take_bit 54 pa) = unat pa"
      using pa(2) by (simp add: unsigned_take_bit_eq take_bit_nat_eq_self word_less_nat_alt)
    then have "take_bit 54 pa = pa" by (rule unat_eqD)
    with that show ?thesis by (metis bit_take_bit_iff not_less)
  qed
  have lo: "\<not> bit pa n" if "n < 12" for n
    using pa(1) that by (rule pg_aligned_bits)
  have flb: "bit fl n \<Longrightarrow> n < 10" for n
    using fl by (metis PTE_FLAGS_def bit_and_iff bit_mask_iff mask10)
  show "PTE2PA (PA2PTE pa OR fl) = pa"
  proof (rule bit_word_eqI)
    fix n :: nat assume "n < LENGTH(64)"
    show "bit (PTE2PA (PA2PTE pa OR fl)) n = bit pa n"
    proof (cases "n < 12")
      case True
      then show ?thesis by (simp add: PTE2PA_def PA2PTE_def bit_simps lo)
    next
      case False
      then show ?thesis using flb [of "n - 2"] hi [of n] \<open>n < LENGTH(64)\<close>
        by (auto simp: PTE2PA_def PA2PTE_def bit_simps)
    qed
  qed
  show "PTE_FLAGS (PA2PTE pa OR fl) = fl"
    by (rule bit_word_eqI) (auto simp: PTE_FLAGS_def PA2PTE_def mask10 bit_simps dest: flb)
qed

section \<open>The Sv39 split of an address\<close>

lemma PX_div: "PX level va = unat va div 2 ^ (12 + 9 * level) mod 512"
proof -
  have "PXMASK = mask 9" by (simp add: riscv_consts mask_eq_exp_minus_1)
  then have "PX level va = unat (take_bit 9 (drop_bit (PXSHIFT level) va))"
    by (simp add: PX_def take_bit_eq_mask)
  also have "\<dots> = take_bit 9 (drop_bit (PXSHIFT level) (unat va))"
    using u64_bound [of va]
    by (simp add: unsigned_take_bit_eq unsigned_drop_bit_eq take_bit_nat_eq_self)
  finally show ?thesis
    by (simp add: take_bit_eq_mod drop_bit_eq_div PXSHIFT_def riscv_consts)
qed

lemma PX_less: "PX level va < 512"
  by (simp add: PX_div)

lemma unat_MAXVA [simp]: "unat MAXVA = 2 ^ 38"
  by (simp add: riscv_consts)

text \<open>Below \<^term>\<open>MAXVA\<close> the three indices determine the page.\<close>

lemma PX_inj:
  assumes "va < MAXVA" "va' < MAXVA"
    and eq: "PX 2 va = PX 2 va'" "PX 1 va = PX 1 va'" "PX 0 va = PX 0 va'"
  shows "PGROUNDDOWN va = PGROUNDDOWN va'"
proof -
  define v where "v = unat va div 4096"
  define v' where "v' = unat va' div 4096"
  have PX_page: "PX level x = unat x div 4096 div 512 ^ level mod 512" for level x
    unfolding PX_div div_mult2_eq [symmetric] by (simp add: power_add power_mult)
  have px: "v mod 512 = v' mod 512" "v div 512 mod 512 = v' div 512 mod 512"
    "v div 262144 mod 512 = v' div 262144 mod 512"
    using eq by (simp_all add: PX_page v_def v'_def)
  have "unat va < 2 ^ 38" "unat va' < 2 ^ 38"
    using assms(1,2) by (simp_all add: word_less_nat_alt)
  then have "v div 262144 < 512" "v' div 262144 < 512"
    by (simp_all add: v_def v'_def div_mult2_eq [symmetric] less_mult_imp_div_less)
  with px(3) have "v div 262144 = v' div 262144" by simp
  then have "v div 512 div 512 = v' div 512 div 512"
    by (simp add: div_mult2_eq [symmetric])
  with px(2) have "v div 512 = v' div 512"
    by (metis div_mult_mod_eq)
  with px(1) have "v = v'"
    by (metis div_mult_mod_eq)
  then have "unat (PGROUNDDOWN va) = unat (PGROUNDDOWN va')"
    by (simp add: unat_PGROUNDDOWN v_def v'_def)
  then show ?thesis by (rule unat_eqD)
qed

lemma PX_PGROUNDDOWN [simp]: "PX level (PGROUNDDOWN va) = PX level va"
proof -
  have "4096 * (unat va div 4096) div 2 ^ (12 + 9 * level) = unat va div 2 ^ (12 + 9 * level)"
    by (simp add: power_add div_mult2_eq)
  then show ?thesis
    by (simp add: PX_div unat_PGROUNDDOWN)
qed

end
