(* ===== verification/Kstring.thy ===== *)
theory Kstring
  imports Riscv
begin

text \<open>
  The byte-string routines of \<^verbatim>\<open>kernel/string.c\<close> and of the user library \<^verbatim>\<open>user/ulib.c\<close>,
  on byte-addressed memory, so that overlapping arguments mean what they mean in C.
  \<^verbatim>\<open>char\<close> is unsigned on RISC-V.
\<close>

section \<open>kernel/string.c\<close>

function memset_loop :: "memory \<Rightarrow> u64 \<Rightarrow> u32 \<Rightarrow> nat \<Rightarrow> nat \<Rightarrow> memory" where
  "memset_loop m dst c i n =
     (if i < n then memset_loop (m(dst + of_nat i := ucast c)) dst c (Suc i) n else m)"
  by pat_completeness auto
termination
  by (relation "measure (\<lambda>(m, dst, c, i, n). n - i)") auto

definition memset :: "memory \<Rightarrow> u64 \<Rightarrow> u32 \<Rightarrow> u32 \<Rightarrow> memory" where
  "memset m dst c n = memset_loop m dst c 0 (unat n)"

primrec memcmp_loop :: "memory \<Rightarrow> nat \<Rightarrow> u64 \<Rightarrow> u64 \<Rightarrow> int" where
  "memcmp_loop m 0 s1 s2 = 0"
| "memcmp_loop m (Suc n) s1 s2 =
     (if m s1 \<noteq> m s2 then uint (m s1) - uint (m s2)
      else memcmp_loop m n (s1 + 1) (s2 + 1))"

definition memcmp :: "memory \<Rightarrow> u64 \<Rightarrow> u64 \<Rightarrow> u32 \<Rightarrow> int" where
  "memcmp m v1 v2 n = memcmp_loop m (unat n) v1 v2"

primrec move_down :: "nat \<Rightarrow> u64 \<Rightarrow> u64 \<Rightarrow> memory \<Rightarrow> memory" where
  "move_down 0 d s m = m"
| "move_down (Suc n) d s m = move_down n (d - 1) (s - 1) (m(d - 1 := m (s - 1)))"

primrec move_up :: "nat \<Rightarrow> u64 \<Rightarrow> u64 \<Rightarrow> memory \<Rightarrow> memory" where
  "move_up 0 d s m = m"
| "move_up (Suc n) d s m = move_up n (d + 1) (s + 1) (m(d := m s))"

definition memmove :: "memory \<Rightarrow> u64 \<Rightarrow> u64 \<Rightarrow> u32 \<Rightarrow> memory" where
  "memmove m dst src n =
     (if n = 0 then m
      else if src < dst \<and> src + ucast n > dst
      then move_down (unat n) (dst + ucast n) (src + ucast n) m
      else move_up (unat n) dst src m)"

primrec strncmp_loop :: "memory \<Rightarrow> nat \<Rightarrow> u64 \<Rightarrow> u64 \<Rightarrow> int" where
  "strncmp_loop m 0 p q = 0"
| "strncmp_loop m (Suc n) p q =
     (if m p \<noteq> 0 \<and> m p = m q then strncmp_loop m n (p + 1) (q + 1)
      else uint (m p) - uint (m q))"

definition strncmp :: "memory \<Rightarrow> u64 \<Rightarrow> u64 \<Rightarrow> u32 \<Rightarrow> int" where
  "strncmp m p q n = strncmp_loop m (unat n) p q"

text \<open>The first loop of \<^verbatim>\<open>strncpy\<close> leaves the decremented count, the cursor and the memory.\<close>

function strncpy_copy :: "int \<Rightarrow> u64 \<Rightarrow> u64 \<Rightarrow> memory \<Rightarrow> int \<times> u64 \<times> memory" where
  "strncpy_copy n s t m =
     (if n > 0 then
        (if m t \<noteq> 0 then strncpy_copy (n - 1) (s + 1) (t + 1) (m(s := m t))
         else (n - 1, s + 1, m(s := m t)))
      else (n - 1, s, m))"
  by pat_completeness auto
termination
  by (relation "measure (\<lambda>(n, s, t, m). nat n)") auto

function strncpy_pad :: "int \<Rightarrow> u64 \<Rightarrow> memory \<Rightarrow> memory" where
  "strncpy_pad n s m = (if n > 0 then strncpy_pad (n - 1) (s + 1) (m(s := 0)) else m)"
  by pat_completeness auto
termination
  by (relation "measure (\<lambda>(n, s, m). nat n)") auto

definition strncpy :: "memory \<Rightarrow> u64 \<Rightarrow> u64 \<Rightarrow> int \<Rightarrow> memory" where
  "strncpy m s t n = (case strncpy_copy n s t m of (n', s', m') \<Rightarrow> strncpy_pad n' s' m')"

function safestrcpy_copy :: "int \<Rightarrow> u64 \<Rightarrow> u64 \<Rightarrow> memory \<Rightarrow> u64 \<times> memory" where
  "safestrcpy_copy n s t m =
     (if n - 1 > 0 then
        (if m t \<noteq> 0 then safestrcpy_copy (n - 1) (s + 1) (t + 1) (m(s := m t))
         else (s + 1, m(s := m t)))
      else (s, m))"
  by pat_completeness auto
termination
  by (relation "measure (\<lambda>(n, s, t, m). nat n)") auto

definition safestrcpy :: "memory \<Rightarrow> u64 \<Rightarrow> u64 \<Rightarrow> int \<Rightarrow> memory" where
  "safestrcpy m s t n =
     (if n \<le> 0 then m
      else (case safestrcpy_copy n s t m of (s', m') \<Rightarrow> m'(s' := 0)))"

text \<open>
  \<^verbatim>\<open>strlen\<close> stops at the first NUL; on memory without one it never stops, which is \<open>None\<close>.
\<close>

partial_function (option) strlen_loop :: "memory \<Rightarrow> u64 \<Rightarrow> nat \<Rightarrow> nat option" where
  "strlen_loop m s n = (if m (s + of_nat n) \<noteq> 0 then strlen_loop m s (Suc n) else Some n)"

definition strlen :: "memory \<Rightarrow> u64 \<Rightarrow> nat option" where
  "strlen m s = strlen_loop m s 0"

section \<open>user/ulib.c\<close>

partial_function (option) strcpy_loop :: "u64 \<Rightarrow> u64 \<Rightarrow> memory \<Rightarrow> memory option" where
  "strcpy_loop s t m =
     (if m t \<noteq> 0 then strcpy_loop (s + 1) (t + 1) (m(s := m t)) else Some (m(s := m t)))"

definition strcpy :: "memory \<Rightarrow> u64 \<Rightarrow> u64 \<Rightarrow> memory option" where
  "strcpy m s t = strcpy_loop s t m"

partial_function (option) strcmp :: "memory \<Rightarrow> u64 \<Rightarrow> u64 \<Rightarrow> int option" where
  "strcmp m p q =
     (if m p \<noteq> 0 \<and> m p = m q then strcmp m (p + 1) (q + 1)
      else Some (uint (m p) - uint (m q)))"

partial_function (option) strchr :: "memory \<Rightarrow> u64 \<Rightarrow> u8 \<Rightarrow> u64 option" where
  "strchr m s c =
     (if m s \<noteq> 0 then (if m s = c then Some s else strchr m (s + 1) c) else Some 0)"

text \<open>The user library's \<^verbatim>\<open>memmove\<close> takes a signed count and chooses the direction by \<^verbatim>\<open>src > dst\<close>.\<close>

definition u_memmove :: "memory \<Rightarrow> u64 \<Rightarrow> u64 \<Rightarrow> int \<Rightarrow> memory" where
  "u_memmove m vdst vsrc n =
     (if vsrc > vdst then move_up (nat n) vdst vsrc m
      else move_down (nat n) (vdst + of_int n) (vsrc + of_int n) m)"

text \<open>\<^verbatim>\<open>atoi\<close>: overflow of the signed accumulator is undefined; a run of digits without end is \<open>None\<close>.\<close>

definition is_digit :: "u8 \<Rightarrow> bool" where
  "is_digit c \<longleftrightarrow> 48 \<le> c \<and> c \<le> 57"

partial_function (option) atoi_loop :: "memory \<Rightarrow> u64 \<Rightarrow> int \<Rightarrow> int kres option" where
  "atoi_loop m s n =
     (if is_digit (m s) then
        (if n * 10 + uint (m s) - 48 > 2147483647 then Some (Inl (Undef ''atoi: signed overflow''))
         else atoi_loop m (s + 1) (n * 10 + uint (m s) - 48))
      else Some (Inr n))"

definition atoi :: "memory \<Rightarrow> u64 \<Rightarrow> int kres option" where
  "atoi m s = atoi_loop m s 0"

section \<open>memset and memmove\<close>

declare memset_loop.simps [simp del] strncpy_copy.simps [simp del] strncpy_pad.simps [simp del]
  safestrcpy_copy.simps [simp del]

lemma memset_loop_apply:
  assumes "n < 2 ^ 64"
  shows "memset_loop m dst c i n x =
     (if i \<le> unat (x - dst) \<and> unat (x - dst) < n then ucast c else m x)"
  using assms
proof (induction m dst c i n rule: memset_loop.induct)
  case (1 m dst c i n)
  show ?case
  proof (cases "i < n")
    case True
    then have i: "unat (of_nat i :: u64) = i"
      using 1(2) by (simp add: unat_of_nat)
    have "x = dst + of_nat i \<longleftrightarrow> unat (x - dst) = i"
      using i by (metis add_diff_cancel_left' diff_add_cancel add.commute unat_eqD)
    moreover have "memset_loop (m(dst + of_nat i := ucast c)) dst c (Suc i) n x =
        (if Suc i \<le> unat (x - dst) \<and> unat (x - dst) < n then ucast c
         else (m(dst + of_nat i := ucast c)) x)"
      using 1 True by blast
    ultimately show ?thesis
      using True by (subst memset_loop.simps) (auto simp: Suc_le_eq)
  next
    case False
    then show ?thesis by (subst memset_loop.simps) auto
  qed
qed

lemma memset_apply [mem_simps]:
  "memset m dst c n x = (if unat (x - dst) < unat n then ucast c else m x)"
proof -
  have "unat n < 2 ^ 64"
    using u32_bound [of n] by simp
  then show ?thesis
    by (simp add: memset_def memset_loop_apply)
qed

lemma memset_page_eq:
  assumes "pg_aligned p" "pg_aligned q" "p \<noteq> q"
  shows "page_eq m (memset m p c 4096) q"
proof (rule page_eqI)
  fix x assume "in_page q x"
  then have "\<not> in_page p x"
    using assms in_page_unique by blast
  then show "m x = memset m p c 4096 x"
    by (simp add: memset_apply in_page_def)
qed

lemma ld64_memset_zero:
  assumes "pg_aligned p" "i < 512"
  shows "ld64 (memset m p 0 4096) (slot p i) = 0"
proof -
  have "memset m p 0 4096 (slot p i + of_nat k) = 0" if "k < 8" for k
    using in_page_slot [OF assms that] by (simp add: memset_apply in_page_def)
  then have "ld64 (memset m p 0 4096) (slot p i) = ld64 (\<lambda>x. 0) (slot p i)"
    by (intro ld64_cong) simp
  also have "\<dots> = 0"
    by (simp add: ld64_def mem_read_def upt_conv_Cons)
  finally show ?thesis .
qed


text \<open>Both copying loops, when the regions do not wrap around the address space.\<close>

lemma mem_read_Suc: "mem_read m a (Suc n) = m a # mem_read m (a + 1) n"
  by (rule nth_equalityI) (auto simp: nth_Cons' algebra_simps)

lemma mem_write_Nil [simp]: "mem_write m a [] = m"
  by (simp add: mem_write_def)

lemma mem_write_Cons:
  assumes "length bs < 2 ^ 64"
  shows "mem_write m s (b # bs) = mem_write (m(s := b)) (s + 1) bs"
proof
  fix x
  show "mem_write m s (b # bs) x = mem_write (m(s := b)) (s + 1) bs x"
  proof (cases "x = s")
    case True
    have "length bs \<le> unat (s - (s + 1))"
      using assms by (simp add: unsigned_minus_1_eq_mask mask_eq_exp_minus_1)
    with True show ?thesis by (simp add: mem_write_def)
  next
    case False
    then have "unat (x - s) \<noteq> 0" by (simp add: unat_eq_zero)
    then obtain k where k: "unat (x - s) = Suc k" by (metis not0_implies_Suc)
    have eq: "x - (s + 1) = (x - s) - 1" by (simp add: algebra_simps)
    have "unat ((x - s) - 1) = unat (x - s) - 1"
      using False by (intro unat_minus_one) simp
    then have "unat (x - (s + 1)) = k" unfolding eq k by simp
    with k False show ?thesis by (auto simp: mem_write_def)
  qed
qed

lemma move_up_mem_write:
  assumes "unat s + n \<le> 2 ^ 64" "unat d + n \<le> 2 ^ 64" "d \<le> s \<or> unat s + n \<le> unat d"
  shows "move_up n d s m = mem_write m d (mem_read m s n)"
  using assms
proof (induction n arbitrary: d s m)
  case 0
  then show ?case by (auto simp: mem_write_def)
next
  case (Suc n)
  show ?case
  proof (cases "n = 0")
    case True
    then show ?thesis by (auto simp: mem_write_def unat_eq_zero)
  next
    case False
    have s1: "unat (s + 1) = unat s + 1" and d1: "unat (d + 1) = unat d + 1"
      using Suc.prems False by (simp_all add: unat_word_ariths)
    have "move_up n (d + 1) (s + 1) (m(d := m s)) =
        mem_write (m(d := m s)) (d + 1) (mem_read (m(d := m s)) (s + 1) n)"
      using Suc.prems s1 d1 by (intro Suc.IH) (auto simp: word_le_nat_alt)
    moreover have "mem_read (m(d := m s)) (s + 1) n = mem_read m (s + 1) n"
    proof (rule mem_read_cong)
      fix i assume i: "i < n"
      then have "unat (s + 1 + of_nat i) = unat s + 1 + i"
        using Suc.prems s1 by (simp add: unat_word_ariths unat_of_nat)
      then have "s + 1 + of_nat i \<noteq> d"
        using Suc.prems i by (auto simp: word_le_nat_alt)
      then show "(m(d := m s)) (s + 1 + of_nat i) = m (s + 1 + of_nat i)" by simp
    qed
    moreover have "mem_write m d (mem_read m s (Suc n)) =
        mem_write (m(d := m s)) (d + 1) (mem_read m (s + 1) n)"
      using Suc.prems by (simp add: mem_read_Suc mem_write_Cons)
    ultimately show ?thesis by simp
  qed
qed

lemma move_down_mem_write:
  assumes "unat s + n \<le> 2 ^ 64" "unat d + n \<le> 2 ^ 64" "s \<le> d \<or> unat d + n \<le> unat s"
  shows "move_down n (d + of_nat n) (s + of_nat n) m = mem_write m d (mem_read m s n)"
  using assms
proof (induction n arbitrary: m)
  case 0
  then show ?case by (auto simp: mem_write_def)
next
  case (Suc n)
  let ?m = "m(d + of_nat n := m (s + of_nat n))"
  have un: "unat (of_nat n :: u64) = n"
    using Suc.prems by (simp add: unat_of_nat)
  have "move_down n (d + of_nat n) (s + of_nat n) ?m = mem_write ?m d (mem_read ?m s n)"
    using Suc.prems by (intro Suc.IH) auto
  moreover have "mem_read ?m s n = mem_read m s n"
  proof (rule mem_read_cong)
    fix i assume i: "i < n"
    then have "unat (s + of_nat i) = unat s + i" "unat (d + of_nat n) = unat d + n"
      using Suc.prems by (simp_all add: unat_word_ariths unat_of_nat)
    then have "s + of_nat i \<noteq> d + of_nat n"
      using Suc.prems i by (auto simp: word_le_nat_alt)
    then show "?m (s + of_nat i) = m (s + of_nat i)" by simp
  qed
  moreover have "mem_write ?m d (mem_read m s n) = mem_write m d (mem_read m s (Suc n))"
  proof
    fix x
    show "mem_write ?m d (mem_read m s n) x = mem_write m d (mem_read m s (Suc n)) x"
    proof (cases "unat (x - d) = n")
      case True
      then have "x = d + of_nat n"
        by (metis add.commute diff_add_cancel ucast_id of_nat_unat)
      with un show ?thesis by (simp add: mem_write_def)
    next
      case False
      then have "x \<noteq> d + of_nat n" using un by auto
      with False show ?thesis
        by (auto simp: mem_write_def less_Suc_eq)
    qed
  qed
  ultimately show ?case by (simp add: algebra_simps)
qed

theorem memmove_correct:
  assumes "unat src + unat n \<le> 2 ^ 64" "unat dst + unat n \<le> 2 ^ 64"
  shows "memmove m dst src n = mem_write m dst (mem_read m src (unat n))"
proof -
  have cast: "(ucast n :: u64) = of_nat (unat n)" by simp
  consider (zero) "n = 0" | (down) "n \<noteq> 0" "src < dst" "src + ucast n > dst"
    | (up) "n \<noteq> 0" "\<not> (src < dst \<and> src + ucast n > dst)" by blast
  then show ?thesis
  proof cases
    case zero
    then show ?thesis by (auto simp: memmove_def mem_write_def)
  next
    case down
    then show ?thesis
      using move_down_mem_write [of src "unat n" dst m] assms
      by (simp add: memmove_def cast [symmetric] word_less_nat_alt word_le_nat_alt)
  next
    case up
    have "dst \<le> src \<or> unat src + unat n \<le> unat dst"
    proof (cases "unat src + unat n < 2 ^ 64")
      case True
      then have "unat (src + ucast n) = unat src + unat n"
        using u32_bound [of n]
        by (simp add: unat_word_ariths unsigned_ucast_eq take_bit_nat_eq_self)
      with up show ?thesis by (auto simp: word_less_nat_alt word_le_nat_alt)
    next
      case False
      then show ?thesis
        using assms up u64_bound [of dst] by (auto simp: word_less_nat_alt word_le_nat_alt)
    qed
    then show ?thesis
      using up move_up_mem_write [of src "unat n" dst m] assms by (auto simp: memmove_def)
  qed
qed

theorem u_memmove_correct:
  assumes "0 \<le> n" "unat src + nat n \<le> 2 ^ 64" "unat dst + nat n \<le> 2 ^ 64"
  shows "u_memmove m dst src n = mem_write m dst (mem_read m src (nat n))"
proof -
  have "(of_int n :: u64) = of_nat (nat n)" using assms(1) by simp
  then show ?thesis
    using assms move_up_mem_write [of src "nat n" dst m] move_down_mem_write [of src "nat n" dst m]
    by (auto simp: u_memmove_def word_less_nat_alt word_le_nat_alt)
qed

section \<open>Bounded C strings\<close>

text \<open>\<open>cstrn m p n\<close> is the string at \<open>p\<close>, cut after \<open>n\<close> bytes.\<close>

definition cstrn :: "memory \<Rightarrow> u64 \<Rightarrow> nat \<Rightarrow> u8 list" where
  "cstrn m p n = takeWhile (\<lambda>b. b \<noteq> 0) (mem_read m p n)"

lemma cstrn_0 [simp]: "cstrn m p 0 = []"
  by (simp add: cstrn_def mem_read_def)

lemma cstrn_Suc: "cstrn m p (Suc n) = (if m p = 0 then [] else m p # cstrn m (p + 1) n)"
  by (simp add: cstrn_def mem_read_Suc)

lemma length_cstrn: "length (cstrn m p n) \<le> n"
  by (metis cstrn_def length_mem_read length_takeWhile_le)

lemma uint_u8_diff: "uint (a :: u8) - uint b = 0 \<longleftrightarrow> a = b" "uint (a :: u8) - uint b < 0 \<longleftrightarrow> a < b"
  by (auto simp: word_less_def word_uint_eq_iff)

lemma cstrn_cong: "(\<And>i. i < n \<Longrightarrow> m (p + of_nat i) = m' (p + of_nat i)) \<Longrightarrow> cstrn m p n = cstrn m' p n"
  by (simp add: cstrn_def mem_read_cong [of n m p m'])

lemma strncmp_loop_zero: "strncmp_loop m n p q = 0 \<longleftrightarrow> cstrn m p n = cstrn m q n"
  by (induction n arbitrary: p q) (auto simp: cstrn_Suc word_uint_eq_iff)

lemma strncmp_loop_less:
  "strncmp_loop m n p q < 0 \<longleftrightarrow> ord_class.lexordp (cstrn m p n) (cstrn m q n)"
proof (induction n arbitrary: p q)
  case 0
  then show ?case by simp
next
  case (Suc n)
  show ?case
  proof (cases "m p \<noteq> 0 \<and> m p = m q")
    case True
    then show ?thesis by (simp add: Suc cstrn_Suc)
  next
    case False
    moreover have "uint (m p) - uint (m q) < 0 \<longleftrightarrow> m p < m q" by (rule uint_u8_diff)
    ultimately show ?thesis
      by (auto simp: cstrn_Suc word_gt_0)
  qed
qed

lemma strncpy_pad_eq:
  "unat s + n \<le> 2 ^ 64 \<Longrightarrow> strncpy_pad (int n) s m = mem_write m s (replicate n 0)"
proof (induction n arbitrary: s m)
  case 0
  then show ?case by (simp add: strncpy_pad.simps)
next
  case (Suc n)
  have "strncpy_pad (int (Suc n)) s m = strncpy_pad (int n) (s + 1) (m(s := 0))"
    by (subst strncpy_pad.simps) (simp del: fun_upd_apply)
  also have "\<dots> = mem_write (m(s := 0)) (s + 1) (replicate n 0)"
  proof (cases "n = 0")
    case True
    then show ?thesis by (simp add: strncpy_pad.simps)
  next
    case False
    then have "unat (s + 1) = unat s + 1" using Suc.prems by (simp add: unat_word_ariths)
    then show ?thesis using Suc by (intro Suc.IH) simp
  qed
  also have "\<dots> = mem_write m s (replicate (Suc n) 0)"
    using Suc.prems by (simp add: mem_write_Cons)
  finally show ?case .
qed

text \<open>Two regions of \<open>n\<close> bytes that do not wrap around and do not overlap.\<close>

definition regions_apart :: "u64 \<Rightarrow> u64 \<Rightarrow> nat \<Rightarrow> bool" where
  "regions_apart s t n \<longleftrightarrow> unat s + n \<le> 2 ^ 64 \<and> unat t + n \<le> 2 ^ 64 \<and>
     (unat s + n \<le> unat t \<or> unat t + n \<le> unat s)"

lemma regions_apart_Suc:
  assumes "regions_apart s t (Suc n)" "0 < n"
  shows "regions_apart (s + 1) (t + 1) n"
proof -
  have "unat (s + 1) = unat s + 1" "unat (t + 1) = unat t + 1"
    using assms by (auto simp: regions_apart_def unat_word_ariths)
  then show ?thesis using assms by (auto simp: regions_apart_def)
qed

lemma regions_apart_cstrn:
  assumes "regions_apart s t (Suc n)"
  shows "cstrn (m(s := b)) (t + 1) n = cstrn m (t + 1) n"
proof (rule cstrn_cong)
  fix i assume "i < n"
  then have "unat (t + 1 + of_nat i) = unat t + 1 + i"
    using assms by (auto simp: regions_apart_def unat_word_ariths unat_of_nat)
  then have "t + 1 + of_nat i \<noteq> s"
    using assms \<open>i < n\<close> by (auto simp: regions_apart_def)
  then show "(m(s := b)) (t + 1 + of_nat i) = m (t + 1 + of_nat i)" by simp
qed

lemma strncpy_eq_nat:
  assumes "regions_apart s t n"
  shows "strncpy m s t (int n) =
    mem_write m s (cstrn m t n @ replicate (n - length (cstrn m t n)) 0)"
  using assms
proof (induction n arbitrary: s t m)
  case 0
  then show ?case
    by (simp add: strncpy_def strncpy_copy.simps strncpy_pad.simps)
next
  case (Suc n)
  have apart: "regions_apart (s + 1) (t + 1) n" if "0 < n"
    using regions_apart_Suc [OF Suc.prems that] .
  have bnd: "n < 2 ^ 64" using Suc.prems by (simp add: regions_apart_def)
  show ?case
  proof (cases "m t = 0")
    case True
    then have step: "strncpy m s t (int (Suc n)) = strncpy_pad (int n) (s + 1) (m(s := 0))"
      by (simp add: strncpy_def strncpy_copy.simps [of "1 + int n"] del: fun_upd_apply)
    show ?thesis
    proof (cases "n = 0")
      case True
      with step \<open>m t = 0\<close> show ?thesis
        by (simp add: strncpy_pad.simps cstrn_Suc mem_write_Cons del: fun_upd_apply)
    next
      case False
      then have "unat (s + 1) + n \<le> 2 ^ 64"
        using apart by (simp add: regions_apart_def)
      then show ?thesis
        using step \<open>m t = 0\<close> bnd
        by (simp add: strncpy_pad_eq cstrn_Suc mem_write_Cons del: fun_upd_apply)
    qed
  next
    case False
    let ?m = "m(s := m t)"
    let ?r = "cstrn m (t + 1) n @ replicate (n - length (cstrn m (t + 1) n)) 0"
    have step: "strncpy m s t (int (Suc n)) = strncpy ?m (s + 1) (t + 1) (int n)"
      using False
      by (simp add: strncpy_def strncpy_copy.simps [of "1 + int n"] del: fun_upd_apply)
    have "strncpy ?m (s + 1) (t + 1) (int n) = mem_write ?m (s + 1) ?r"
    proof (cases "n = 0")
      case True
      then show ?thesis
        by (simp add: strncpy_def strncpy_copy.simps strncpy_pad.simps)
    next
      case False
      then show ?thesis
        using Suc.IH [of "s + 1" "t + 1" ?m] apart regions_apart_cstrn [OF Suc.prems]
        by (simp del: fun_upd_apply)
    qed
    moreover have "length ?r = n" using length_cstrn [of m "t + 1" n] by simp
    ultimately show ?thesis
      using step False bnd by (simp add: cstrn_Suc mem_write_Cons del: fun_upd_apply)
  qed
qed

lemma safestrcpy_copy_eq:
  assumes "regions_apart s t (Suc k)"
  shows "(case safestrcpy_copy (int (Suc k)) s t m of (s', m') \<Rightarrow> m'(s' := 0)) =
    mem_write m s (cstrn m t k @ (if length (cstrn m t k) < k then [0, 0] else [0]))"
  using assms
proof (induction k arbitrary: s t m)
  case 0
  then show ?case
    by (simp add: safestrcpy_copy.simps mem_write_Cons del: fun_upd_apply)
next
  case (Suc k)
  have bnd: "Suc k < 2 ^ 64" using Suc.prems by (simp add: regions_apart_def)
  have apart: "regions_apart (s + 1) (t + 1) (Suc k)"
    using regions_apart_Suc [OF Suc.prems] by simp
  have frame: "cstrn (m(s := b)) (t + 1) k = cstrn m (t + 1) k" for b
    using Suc.prems by (intro regions_apart_cstrn) (auto simp: regions_apart_def)
  show ?case
  proof (cases "m t = 0")
    case True
    then show ?thesis
      by (simp add: safestrcpy_copy.simps [of "2 + int k"] cstrn_Suc mem_write_Cons
          del: fun_upd_apply)
  next
    case False
    let ?w = "cstrn m (t + 1) k @ (if length (cstrn m (t + 1) k) < k then [0, 0] else [0])"
    have "safestrcpy_copy (int (Suc (Suc k))) s t m =
        safestrcpy_copy (int (Suc k)) (s + 1) (t + 1) (m(s := m t))"
      using False
      by (simp add: safestrcpy_copy.simps [of "2 + int k"] del: fun_upd_apply)
    moreover have "length ?w < 2 ^ 64"
      using bnd length_cstrn [of m "t + 1" k] by auto
    ultimately show ?thesis
      using Suc.IH [OF apart, of "m(s := m t)"] False
      by (simp add: frame cstrn_Suc mem_write_Cons del: fun_upd_apply)
  qed
qed

lemma strlen_loop_Some:
  assumes "\<And>i. i < k \<Longrightarrow> m (s + of_nat (n + i)) \<noteq> 0" "m (s + of_nat (n + k)) = 0"
  shows "strlen_loop m s n = Some (n + k)"
  using assms
proof (induction k arbitrary: n)
  case 0
  then show ?case by (subst strlen_loop.simps) simp
next
  case (Suc k)
  have "strlen_loop m s (Suc n) = Some (Suc n + k)"
    using Suc.prems(1) [of "Suc i" for i] Suc.prems(2) by (intro Suc.IH) force+
  with Suc.prems(1) [of 0] show ?case by (subst strlen_loop.simps) simp
qed

text \<open>The decimal value of a run of ASCII digits.\<close>

definition dec_value :: "int \<Rightarrow> u8 list \<Rightarrow> int" where
  "dec_value n ds = foldl (\<lambda>a d. a * 10 + uint d - 48) n ds"

lemma dec_value_simps [simp]:
  "dec_value n [] = n" "dec_value n (d # ds) = dec_value (n * 10 + uint d - 48) ds"
  "dec_value n (ds @ [d]) = dec_value n ds * 10 + uint d - 48"
  by (simp_all add: dec_value_def)

lemma is_digit_uint: "is_digit d \<Longrightarrow> 48 \<le> uint d \<and> uint d \<le> 57"
  by (auto simp: is_digit_def word_le_def)

lemma dec_value_mono: "0 \<le> n \<Longrightarrow> \<forall>d\<in>set ds. is_digit d \<Longrightarrow> n \<le> dec_value n ds"
proof (induction ds arbitrary: n)
  case (Cons d ds)
  have "n \<le> n * 10 + uint d - 48" using Cons.prems is_digit_uint [of d] by auto
  also have "\<dots> \<le> dec_value (n * 10 + uint d - 48) ds"
    using Cons.prems is_digit_uint [of d] by (intro Cons.IH) auto
  finally show ?case by simp
qed simp

lemma atoi_loop_digits:
  assumes "mem_read m s (length ds) = ds" "\<forall>d\<in>set ds. is_digit d"
    "\<not> is_digit (m (s + of_nat (length ds)))" "0 \<le> n" "dec_value n ds \<le> 2147483647"
  shows "atoi_loop m s n = Some (Inr (dec_value n ds))"
  using assms
proof (induction ds arbitrary: s n)
  case Nil
  then show ?case by (subst atoi_loop.simps) simp
next
  case (Cons d ds)
  let ?n = "n * 10 + uint d - 48"
  have d: "m s = d" "is_digit d" "0 \<le> ?n"
    using Cons.prems is_digit_uint [of d] by (auto simp: mem_read_Suc)
  have "?n \<le> 2147483647"
    using dec_value_mono [of ?n ds] Cons.prems d by auto
  moreover have "atoi_loop m (s + 1) ?n = Some (Inr (dec_value ?n ds))"
    using Cons.prems d by (intro Cons.IH) (auto simp: mem_read_Suc algebra_simps)
  ultimately show ?case using d by (subst atoi_loop.simps) simp
qed
end
