(* ===== verification/Printf.thy ===== *)
theory Printf
  imports Kstring
begin

text \<open>
  Formatted output: \<^verbatim>\<open>kernel/printk.c\<close> with \<^verbatim>\<open>consputc\<close> of \<^verbatim>\<open>kernel/console.c\<close>, and \<^verbatim>\<open>user/printf.c\<close>. The
  result is the list of bytes sent to the serial port or to the file. A format is the list of its
  bytes before the NUL; an argument is a 64-bit slot of the \<^verbatim>\<open>va_list\<close>, or a string that may be null.
\<close>

unbundle bit_operations_syntax

section \<open>Operations\<close>

definition ascii :: "string \<Rightarrow> u8 list" where
  "ascii s = map of_char s"

definition digits_k :: "u8 list" where
  "digits_k = ascii ''0123456789abcdef''"

definition digits_u :: "u8 list" where
  "digits_u = ascii ''0123456789ABCDEF''"

text \<open>
  The digit loop fills \<^verbatim>\<open>buf[20]\<close> from the low end. Every caller passes base 10 or 16; base 0 divides
  by zero and base 1 never ends.
\<close>

function printint_loop :: "u8 list \<Rightarrow> u64 \<Rightarrow> u64 \<Rightarrow> u8 list \<Rightarrow> u8 list kres" where
  "printint_loop digits x base buf =
     (if base \<le> 1 then Inl (Undef ''printint: base'')
      else if length buf \<ge> 20 then Inl (Undef ''printint: buf overflow'')
      else let buf = buf @ [digits ! unat (x mod base)]; x = x div base in
        if x \<noteq> 0 then printint_loop digits x base buf else Inr buf)"
  by pat_completeness auto
termination
  by (relation "measure (\<lambda>(digits, x, base, buf). 20 - length buf)") auto

declare printint_loop.simps [simp del]

definition printint :: "u8 list \<Rightarrow> u64 \<Rightarrow> u64 \<Rightarrow> bool \<Rightarrow> u8 list kres" where
  "printint digits xx base sign =
     (let neg = (sign \<and> xx <s 0) in
      if neg \<and> xx = 0x8000000000000000 then Inl (Undef ''printint: signed overflow'')
      else bnd (printint_loop digits (if neg then - xx else xx) base []) (\<lambda>buf.
        if neg \<and> length buf \<ge> 20 then Inl (Undef ''printint: buf overflow'')
        else Inr (rev (if neg then buf @ [45] else buf))))"

primrec printptr_loop :: "u8 list \<Rightarrow> nat \<Rightarrow> u64 \<Rightarrow> u8 list" where
  "printptr_loop digits 0 x = []"
| "printptr_loop digits (Suc i) x =
     (digits ! unat (drop_bit 60 x)) # printptr_loop digits i (push_bit 4 x)"

definition printptr :: "u8 list \<Rightarrow> u64 \<Rightarrow> u8 list" where
  "printptr digits x = [48, 120] @ printptr_loop digits 16 x"

text \<open>
  The chain of conditions on the bytes after a percent sign: the conversion and how many further
  bytes it takes. Both printers have the same chain.
\<close>

datatype conv = CInt bool u64 bool | CPtr | CChar | CStr | CPercent | CUnknown

definition conv_of :: "u8 \<Rightarrow> u8 \<Rightarrow> u8 \<Rightarrow> conv \<times> nat" where
  "conv_of c0 c1 c2 =
     (if c0 = 100 then (CInt False 10 True, 0)
      else if c0 = 108 \<and> c1 = 100 then (CInt True 10 True, 1)
      else if c0 = 108 \<and> c1 = 108 \<and> c2 = 100 then (CInt True 10 True, 2)
      else if c0 = 117 then (CInt False 10 False, 0)
      else if c0 = 108 \<and> c1 = 117 then (CInt True 10 False, 1)
      else if c0 = 108 \<and> c1 = 108 \<and> c2 = 117 then (CInt True 10 False, 2)
      else if c0 = 120 then (CInt False 16 False, 0)
      else if c0 = 108 \<and> c1 = 120 then (CInt True 16 False, 1)
      else if c0 = 108 \<and> c1 = 108 \<and> c2 = 120 then (CInt True 16 False, 2)
      else if c0 = 112 then (CPtr, 0)
      else if c0 = 99 then (CChar, 0)
      else if c0 = 115 then (CStr, 0)
      else if c0 = 37 then (CPercent, 0)
      else (CUnknown, 0))"

datatype arg = Num u64 | Str "u8 list option"

text \<open>
  The value \<^verbatim>\<open>printint\<close> gets: the whole slot for the long conversions, otherwise its low half,
  extended by sign for \<^verbatim>\<open>int\<close> and by zeroes for \<^verbatim>\<open>uint32\<close>.
\<close>

definition int_arg :: "bool \<Rightarrow> bool \<Rightarrow> u64 \<Rightarrow> u64" where
  "int_arg long sign v = (if long then v else if sign then scast (ucast v :: u32) else ucast (ucast v :: u32))"

text \<open>\<open>put\<close> is \<^verbatim>\<open>consputc\<close> or \<^verbatim>\<open>putc\<close>, which \<^verbatim>\<open>%c\<close> calls with the low half of the slot.\<close>

fun print_conv :: "u8 list \<Rightarrow> (u32 \<Rightarrow> u8 list) \<Rightarrow> u8 \<Rightarrow> conv \<Rightarrow> arg list \<Rightarrow> (u8 list \<times> arg list) kres" where
  "print_conv digits put c0 (CInt long base sign) (Num v # ap) =
     bnd (printint digits (int_arg long sign v) base sign) (\<lambda>out. Inr (out, ap))"
| "print_conv digits put c0 CPtr (Num v # ap) = Inr (printptr digits v, ap)"
| "print_conv digits put c0 CChar (Num v # ap) = Inr (put (ucast v), ap)"
| "print_conv digits put c0 CStr (Str s # ap) =
     Inr (case s of None \<Rightarrow> ascii ''(null)'' | Some cs \<Rightarrow> cs, ap)"
| "print_conv digits put c0 CPercent ap = Inr ([37], ap)"
| "print_conv digits put c0 CUnknown ap = Inr ([37, c0], ap)"
| "print_conv digits put c0 c ap = Inl (Undef ''va_arg'')"

definition BACKSPACE :: u32 where
  "BACKSPACE = 0x100"

definition consputc :: "u32 \<Rightarrow> u8 list" where
  "consputc c = (if c = BACKSPACE then [8, 32, 8] else [ucast c])"

definition byte_at :: "u8 list \<Rightarrow> nat \<Rightarrow> u8" where
  "byte_at fmt i = (if i < length fmt then fmt ! i else 0)"

text \<open>The loop of \<^verbatim>\<open>printk\<close> at \<^verbatim>\<open>fmt + i\<close>; a format that ends in a percent sign breaks out of it.\<close>

function printk_loop :: "u8 list \<Rightarrow> arg list \<Rightarrow> u8 list kres" where
  "printk_loop [] ap = Inr []"
| "printk_loop (cx # fmt) ap =
     (if cx \<noteq> 37 then bnd (printk_loop fmt ap) (\<lambda>out. Inr (consputc (ucast cx) @ out))
      else if byte_at fmt 0 = 0 then Inr []
      else let c0 = byte_at fmt 0; c1 = byte_at fmt 1; c2 = (if c1 \<noteq> 0 then byte_at fmt 2 else 0);
               (c, k) = conv_of c0 c1 c2 in
        bnd (print_conv digits_k consputc c0 c ap) (\<lambda>(out, ap').
        bnd (printk_loop (drop (1 + k) fmt) ap') (\<lambda>out'. Inr (out @ out'))))"
  by pat_completeness auto
termination by (relation "measure (\<lambda>(fmt, ap). length fmt)") auto

definition printk :: "u8 list \<Rightarrow> arg list \<Rightarrow> u8 list kres" where
  "printk fmt ap = printk_loop fmt ap"

definition putc :: "u32 \<Rightarrow> u8 list" where
  "putc c = [ucast c]"

text \<open>The state machine of \<^verbatim>\<open>vprintf\<close>; the flag says that a percent sign was the last byte.\<close>

function vprintf_loop :: "bool \<Rightarrow> u8 list \<Rightarrow> arg list \<Rightarrow> u8 list kres" where
  "vprintf_loop pct [] ap = Inr []"
| "vprintf_loop pct (c0 # fmt) ap =
     (if \<not> pct then
        (if c0 = 37 then vprintf_loop True fmt ap
         else bnd (vprintf_loop False fmt ap) (\<lambda>out. Inr (putc (ucast c0) @ out)))
      else let c1 = byte_at fmt 0; c2 = (if c1 \<noteq> 0 then byte_at fmt 1 else 0);
               (c, k) = conv_of c0 c1 c2 in
        bnd (print_conv digits_u putc c0 c ap) (\<lambda>(out, ap').
        bnd (vprintf_loop False (drop k fmt) ap') (\<lambda>out'. Inr (out @ out'))))"
  by pat_completeness auto
termination by (relation "measure (\<lambda>(pct, fmt, ap). length fmt)") auto

definition vprintf :: "u8 list \<Rightarrow> arg list \<Rightarrow> u8 list kres" where
  "vprintf fmt ap = vprintf_loop False fmt ap"

declare printk_loop.simps(2) [simp del] vprintf_loop.simps(2) [simp del]

text \<open>\<^verbatim>\<open>backtrace\<close>: the return addresses printed; a chain of frames that never leaves the page is \<open>None\<close>.\<close>

partial_function (option) backtrace_loop :: "memory \<Rightarrow> u64 \<Rightarrow> u64 \<Rightarrow> u64 list option" where
  "backtrace_loop m fp0 fp =
     (if fp < PGROUNDUP fp0 \<and> fp > PGROUNDDOWN fp0 then
        Option.bind (backtrace_loop m fp0 (ld64 m (fp - 16))) (\<lambda>as. Some (ld64 m (fp - 8) # as))
      else Some [])"

definition backtrace :: "memory \<Rightarrow> u64 \<Rightarrow> u64 list option" where
  "backtrace m fp = backtrace_loop m fp fp"


section \<open>Digits\<close>

text \<open>The digits of a number, lowest first.\<close>

function digs :: "nat \<Rightarrow> nat \<Rightarrow> nat list" where
  "digs b n = (if b < 2 then [] else n mod b # (if n div b = 0 then [] else digs b (n div b)))"
  by pat_completeness auto
termination
proof (relation "measure snd")
  fix b n :: nat assume "\<not> b < 2" "n div b \<noteq> 0"
  then show "((b, n div b), (b, n)) \<in> measure snd" by (cases "n = 0") auto
qed simp

declare digs.simps [simp del]

lemma digs_less: "d \<in> set (digs b n) \<Longrightarrow> d < b"
  by (induction b n rule: digs.induct) (subst (asm) (2) digs.simps, auto split: if_splits)

lemma digs_length: "2 \<le> b \<Longrightarrow> n < b ^ Suc k \<Longrightarrow> length (digs b n) \<le> Suc k"
proof (induction k arbitrary: n)
  case 0
  then show ?case by (subst digs.simps) (simp add: div_eq_0_iff)
next
  case (Suc k)
  have "n div b < b ^ Suc k" using Suc.prems by (intro less_mult_imp_div_less) (simp add: mult.commute)
  then have "length (digs b (n div b)) \<le> Suc k" using Suc by blast
  then show ?case using Suc.prems(1) by (subst digs.simps) simp
qed

lemma printint_loop_digs:
  "2 \<le> unat base \<Longrightarrow> length buf + length (digs (unat base) (unat x)) \<le> 20 \<Longrightarrow>
   printint_loop digits x base buf = Inr (buf @ map ((!) digits) (digs (unat base) (unat x)))"
proof (induction digits x base buf rule: printint_loop.induct)
  case (1 digits x base buf)
  have b: "\<not> base \<le> 1" using "1.prems"(1) by (simp add: word_le_nat_alt)
  have d: "digs (unat base) (unat x) =
      unat (x mod base) # (if x div base = 0 then [] else digs (unat base) (unat (x div base)))"
    using "1.prems"(1) by (subst digs.simps) (simp add: unat_mod_distrib unat_div_distrib unat_eq_0 [symmetric])
  then have l: "\<not> length buf \<ge> 20" using "1.prems"(2) by simp
  show ?case
  proof (cases "x div base = 0")
    case True
    then show ?thesis using b l d by (subst printint_loop.simps) (simp add: Let_def)
  next
    case False
    have "printint_loop digits (x div base) base (buf @ [digits ! unat (x mod base)]) =
        Inr ((buf @ [digits ! unat (x mod base)]) @ map ((!) digits) (digs (unat base) (unat (x div base))))"
      by (rule "1.IH" [OF b l refl refl False]) (use "1.prems" d False in auto)
    then show ?thesis using b l d False by (subst printint_loop.simps) (simp add: Let_def)
  qed
qed

definition magnitude :: "bool \<Rightarrow> u64 \<Rightarrow> u64" where
  "magnitude sign xx = (if sign \<and> xx <s 0 then - xx else xx)"

lemma neg_ge: "xx <s (0 :: u64) \<Longrightarrow> 2 ^ 63 \<le> unat xx"
proof -
  assume "xx <s 0"
  then have "bit (uint xx) 63" by (simp add: word_sless_alt sint_uint)
  moreover have "\<not> bit (uint xx) 63" if "uint xx < 2 ^ 63"
  proof -
    have "take_bit 63 (uint xx) = uint xx" using that by (intro take_bit_int_eq_self) auto
    then show ?thesis using bit_take_bit_iff [of 63 "uint xx" 63] by simp
  qed
  ultimately have "\<not> uint xx < 2 ^ 63" by blast
  moreover have "int (unat xx) = uint xx" by simp
  ultimately have "\<not> int (unat xx) < int (2 ^ 63)" by simp
  then show ?thesis by (simp only: of_nat_less_iff not_less)
qed

lemma magnitude_neg:
  fixes xx :: u64
  assumes "xx <s 0" "xx \<noteq> 0x8000000000000000"
  shows "unat (- xx) < 2 ^ 63"
proof -
  have "unat xx \<noteq> 0x8000000000000000" using assms(2) by (auto dest: unat_eqD [of xx "0x8000000000000000", simplified])
  then show ?thesis using neg_ge [OF assms(1)] unat_sub_if' [of 0 xx] by simp
qed


lemma magnitude_digs:
  fixes base :: u64
  assumes "base = 10 \<or> base = 16" "\<not> (sign \<and> xx = 0x8000000000000000)"
  shows "length (digs (unat base) (unat (magnitude sign xx))) \<le> (if sign \<and> xx <s 0 then 19 else 20)"
proof -
  let ?n = "unat (magnitude sign xx)"
  have u: "?n < 2 ^ 64" by (rule u64_bound)
  have m: "?n < 2 ^ 63" if "sign" "xx <s 0"
    using magnitude_neg [OF that(2)] that assms(2) by (auto simp: magnitude_def)
  from assms(1) show ?thesis
  proof
    assume b: "base = 10"
    have "?n < 10 ^ Suc 19" using u by simp
    moreover have "?n < 10 ^ Suc 18" if "sign" "xx <s 0" using m [OF that] by simp
    ultimately show ?thesis using digs_length [of 10 ?n 19] digs_length [of 10 ?n 18] b by auto
  next
    assume b: "base = 16"
    have "?n < 16 ^ Suc 15" using u by simp
    then show ?thesis using digs_length [of 16 ?n 15] b by auto
  qed
qed

lemma printint_eq:
  assumes "base = 10 \<or> base = 16" "\<not> (sign \<and> xx = 0x8000000000000000)"
  shows "printint digits xx base sign =
    Inr ((if sign \<and> xx <s 0 then [45] else []) @
         rev (map ((!) digits) (digs (unat base) (unat (magnitude sign xx)))))"
proof -
  note d = magnitude_digs [OF assms]
  have "2 \<le> unat base" using assms(1) by auto
  moreover have "length ([] :: u8 list) + length (digs (unat base) (unat (magnitude sign xx))) \<le> 20"
    using d by (auto split: if_splits)
  ultimately have "printint_loop digits (magnitude sign xx) base [] =
      Inr (map ((!) digits) (digs (unat base) (unat (magnitude sign xx))))"
    using printint_loop_digs [of base "[]" "magnitude sign xx" digits] by simp
  then show ?thesis
    using assms(2) d by (auto simp: printint_def magnitude_def Let_def)
qed


lemma printint_overflow:
  "printint digits 0x8000000000000000 base True = Inl (Undef ''printint: signed overflow'')"
  by (simp add: printint_def word_sless_alt)

section \<open>Reading back\<close>

lemma dec_value_append: "dec_value n (xs @ ys) = dec_value (dec_value n xs) ys"
  by (simp add: dec_value_def)

lemma digits_k_nth: "d < 10 \<Longrightarrow> uint (digits_k ! d) = 48 + int d"
proof -
  assume "d < 10"
  then have "d \<in> {0, 1, 2, 3, 4, 5, 6, 7, 8, 9}" by auto
  then show ?thesis by (auto simp: digits_k_def ascii_def)
qed

lemma digits_k_digit: "d < 10 \<Longrightarrow> is_digit (digits_k ! d)"
  using digits_k_nth [of d] by (simp add: is_digit_def word_le_def)

lemma dec_value_digs: "dec_value 0 (rev (map ((!) digits_k) (digs 10 n))) = int n"
proof (induction "10 :: nat" n rule: digs.induct)
  case (1 n)
  have m: "uint (digits_k ! (n mod 10)) = 48 + int (n mod 10)" by (rule digits_k_nth) simp
  show ?case
  proof (cases "n div 10 = 0")
    case True
    then show ?thesis using m by (subst digs.simps) (simp add: dec_value_def)
  next
    case False
    then have "dec_value 0 (rev (map ((!) digits_k) (digs 10 (n div 10)))) = int (n div 10)" using 1 by simp
    then show ?thesis using m False by (subst digs.simps) (simp add: of_nat_mod of_nat_div)
  qed
qed

section \<open>The two printers\<close>

definition lower :: "u8 \<Rightarrow> u8" where
  "lower c = (if 65 \<le> c \<and> c \<le> 90 then c + 32 else c)"

lemma lower_digits: "d < 16 \<Longrightarrow> lower (digits_u ! d) = lower (digits_k ! d)"
proof -
  assume d: "d < 16"
  have "map lower digits_u = map lower digits_k" "length digits_u = 16" "length digits_k = 16"
    by (simp_all add: digits_u_def digits_k_def ascii_def lower_def)
  then show ?thesis using d by (metis nth_map)
qed

definition same_text :: "u8 list kres \<Rightarrow> u8 list kres \<Rightarrow> bool" where
  "same_text r r' \<longleftrightarrow> map_sum id (map lower) r = map_sum id (map lower) r'"

lemma printint_same: "same_text (printint digits_u xx 10 sign) (printint digits_k xx 10 sign)"
  "same_text (printint digits_u xx 16 sign) (printint digits_k xx 16 sign)"
proof -
  have l: "map lower (map ((!) digits_u) ds) = map lower (map ((!) digits_k) ds)" if "\<forall>d\<in>set ds. d < 16" for ds
    using that lower_digits by simp
  show "same_text (printint digits_u xx 10 sign) (printint digits_k xx 10 sign)"
  proof (cases "sign \<and> xx = 0x8000000000000000")
    case True
    then show ?thesis using printint_overflow by (simp add: same_text_def)
  next
    case False
    have "\<forall>d\<in>set (digs 10 n). d < 16" for n using digs_less [of _ 10 n] by fastforce
    then show ?thesis using l printint_eq [OF _ False, of 10] by (simp add: same_text_def rev_map [symmetric] del: map_map)
  qed
  show "same_text (printint digits_u xx 16 sign) (printint digits_k xx 16 sign)"
  proof (cases "sign \<and> xx = 0x8000000000000000")
    case True
    then show ?thesis using printint_overflow by (simp add: same_text_def)
  next
    case False
    have "\<forall>d\<in>set (digs 16 n). d < 16" for n using digs_less [of _ 16 n] by fastforce
    then show ?thesis using l printint_eq [OF _ False, of 16] by (simp add: same_text_def rev_map [symmetric] del: map_map)
  qed
qed

lemma printptr_same: "map lower (printptr digits_u x) = map lower (printptr digits_k x)"
proof -
  have "unat (drop_bit 60 y) < 16" for y :: u64
  proof -
    have "unat (drop_bit 60 y) = unat y div 2 ^ 60" by (simp add: drop_bit_eq_div unat_div_distrib)
    then show ?thesis using u64_bound [of y] by (simp add: less_mult_imp_div_less)
  qed
  then have "map lower (printptr_loop digits_u n x) = map lower (printptr_loop digits_k n x)" for n
    by (induction n arbitrary: x) (simp_all add: lower_digits)
  then show ?thesis by (simp add: printptr_def)
qed


lemma same_text_bnd:
  assumes "same_text r r'" "\<And>x x'. map lower x = map lower x' \<Longrightarrow> same_text (f x) (f' x')"
  shows "same_text (bnd r f) (bnd r' f')"
  using assms by (cases r; cases r') (auto simp: same_text_def)

text \<open>What is left of the arguments is a suffix of them.\<close>

lemma print_conv_args: "print_conv ds put c0 c ap = Inr (out, ap') \<Longrightarrow> set ap' \<subseteq> set ap"
  by (induction ds put c0 c ap rule: print_conv.induct) (auto simp: kres_simps)

lemma conv_of_base: "fst (conv_of c0 c1 c2) = CInt l b sg \<Longrightarrow> b = 10 \<or> b = 16"
  by (auto simp: conv_of_def split: if_splits)

definition no_backspace :: "arg list \<Rightarrow> bool" where
  "no_backspace ap \<longleftrightarrow> (\<forall>v. Num v \<in> set ap \<longrightarrow> ucast v \<noteq> BACKSPACE)"

lemma print_conv_same:
  assumes "no_backspace ap" "\<And>l b sg. c = CInt l b sg \<Longrightarrow> b = 10 \<or> b = 16"
  shows "map_sum id (apfst (map lower)) (print_conv digits_u putc c0 c ap) =
    map_sum id (apfst (map lower)) (print_conv digits_k consputc c0 c ap)"
proof (cases c)
  case (CInt l b sg)
  show ?thesis
  proof (cases ap)
    case (Cons a ap')
    show ?thesis
    proof (cases a)
      case (Num v)
      have "same_text (printint digits_u (int_arg l sg v) b sg) (printint digits_k (int_arg l sg v) b sg)"
        using assms(2) [OF CInt] printint_same by auto
      then show ?thesis using Cons Num CInt
        by (cases "printint digits_u (int_arg l sg v) b sg"; cases "printint digits_k (int_arg l sg v) b sg")
           (auto simp: same_text_def)
    qed (simp add: Cons CInt)
  qed (simp add: CInt)
next
  case CPtr
  then show ?thesis using printptr_same by (cases "(digits_u, putc, c0, c, ap)" rule: print_conv.cases) auto
next
  case CChar
  then show ?thesis
    using assms(1)
    by (cases "(digits_u, putc, c0, c, ap)" rule: print_conv.cases) (auto simp: no_backspace_def consputc_def putc_def)
next
  case CStr
  then show ?thesis by (cases "(digits_u, putc, c0, c, ap)" rule: print_conv.cases) auto
qed simp_all

lemma printers_same:
  "0 \<notin> set fmt \<Longrightarrow> no_backspace ap \<Longrightarrow> same_text (vprintf_loop False fmt ap) (printk_loop fmt ap)"
proof (induction fmt ap rule: printk_loop.induct)
  case (1 ap)
  then show ?case by (simp add: same_text_def)
next
  case (2 cx fmt ap)
  have plain: "consputc (ucast cx) = putc (ucast cx)"
  proof -
    have "unat (ucast cx :: u32) < 256" using u8_bound [of cx] by (simp add: unsigned_ucast_eq take_bit_nat_eq_self)
    then have "ucast cx \<noteq> BACKSPACE" by (auto simp: BACKSPACE_def)
    then show ?thesis by (simp add: consputc_def putc_def)
  qed
  show ?case
  proof (cases "cx = 37")
    case False
    then have "same_text (vprintf_loop False fmt ap) (printk_loop fmt ap)" using 2 by simp
    then show ?thesis using False plain
      by (simp add: printk_loop.simps(2) vprintf_loop.simps(2)) (rule same_text_bnd, auto simp: same_text_def)
  next
    case True
    show ?thesis
    proof (cases fmt)
      case Nil
      then show ?thesis using True by (simp add: printk_loop.simps(2) vprintf_loop.simps(2) byte_at_def same_text_def)
    next
      case (Cons c0 fmt')
      then have c0: "c0 \<noteq> 0" "byte_at fmt 0 = c0" "byte_at fmt 1 = byte_at fmt' 0" "byte_at fmt 2 = byte_at fmt' 1"
        using 2(3) by (auto simp: byte_at_def)
      define c1 where c1: "c1 = byte_at fmt' 0"
      define c2 where c2: "c2 = (if c1 \<noteq> 0 then byte_at fmt' 1 else 0)"
      obtain c k where ck: "conv_of c0 c1 c2 = (c, k)" by force
      let ?u = "print_conv digits_u putc c0 c ap" and ?k = "print_conv digits_k consputc c0 c ap"
      have L: "vprintf_loop False (cx # fmt) ap =
          bnd ?u (\<lambda>(out, ap'). bnd (vprintf_loop False (drop k fmt') ap') (\<lambda>out'. Inr (out @ out')))"
        using True Cons ck c1 c2 by (simp add: vprintf_loop.simps(2) Let_def)
      have e: "byte_at fmt 1 = c1" "(if c1 \<noteq> 0 then byte_at fmt 2 else 0) = c2" "drop (1 + k) fmt = drop k fmt'"
        using c0 c1 c2 Cons by simp_all
      have R: "printk_loop (cx # fmt) ap =
          bnd ?k (\<lambda>(out, ap'). bnd (printk_loop (drop k fmt') ap') (\<lambda>out'. Inr (out @ out')))"
        using True c0(1) unfolding printk_loop.simps(2) Let_def c0(2) e(1,2) ck prod.case e(3) by simp
      have cv: "map_sum id (apfst (map lower)) ?u = map_sum id (apfst (map lower)) ?k"
        using print_conv_same [OF 2(4)] conv_of_base [of c0 c1 c2] ck by (metis fst_conv)
      show ?thesis
      proof (cases ?k)
        case (Inl e)
        then show ?thesis using cv L R by (cases ?u) (auto simp: same_text_def)
      next
        case (Inr r)
        then obtain out ap' out_u where r: "?k = Inr (out, ap')" "?u = Inr (out_u, ap')" "map lower out_u = map lower out"
          using cv by (cases r; cases ?u) auto
        have "same_text (vprintf_loop False (drop k fmt') ap') (printk_loop (drop k fmt') ap')"
        proof -
          have "same_text (vprintf_loop False (drop (1 + k) fmt) ap') (printk_loop (drop (1 + k) fmt) ap')"
          proof (rule 2(2) [OF _ _ c0(2) [symmetric] e(1) [symmetric] e(2) [symmetric] ck [symmetric] refl r(1) refl])
            show "0 \<notin> set (drop (1 + k) fmt)" using 2(3) by (auto dest: in_set_dropD)
            show "no_backspace ap'" using 2(4) print_conv_args [OF r(1)] by (auto simp: no_backspace_def)
          qed (use True c0 in simp_all)
          then show ?thesis using e(3) by simp
        qed
        then show ?thesis unfolding L R r bnd_Inr prod.case
          by (rule same_text_bnd) (simp add: same_text_def r(3))
      qed
    qed
  qed
qed


section \<open>Properties\<close>



text \<open>
  C28. Reading back a printed number: the bytes that \<^verbatim>\<open>%d\<close> prints for a non-negative \<^verbatim>\<open>int\<close>, stored with
  a NUL after them, are read by \<^verbatim>\<open>atoi\<close> as the same number.
\<close>

theorem atoi_printint:
  assumes "unat x \<le> 2147483647"
  shows "\<exists>out. printint digits_k x 10 True = Inr out \<and>
    (\<forall>m s. mem_read m s (length out) = out \<longrightarrow> m (s + of_nat (length out)) = 0 \<longrightarrow>
       atoi m s = Some (Inr (uint x)))"
proof -
  let ?ds = "digs 10 (unat x)"
  have "\<not> x <s 0" "x \<noteq> 0x8000000000000000" using neg_ge [of x] assms by auto
  then have p: "printint digits_k x 10 True = Inr (rev (map ((!) digits_k) ?ds))"
    using printint_eq [of 10 True x digits_k] by (simp add: magnitude_def)
  let ?out = "rev (map ((!) digits_k) ?ds)"
  have "is_digit d" if "d \<in> set ?out" for d
    using that digs_less [of _ 10] digits_k_digit by auto
  moreover have "dec_value 0 ?out = uint x" using dec_value_digs [of "unat x"] by simp
  moreover have "int (unat x) \<le> int 2147483647" using assms by (simp only: of_nat_le_iff)
  then have "uint x \<le> 2147483647" by simp
  ultimately have "atoi m s = Some (Inr (uint x))"
    if "mem_read m s (length ?out) = ?out" "m (s + of_nat (length ?out)) = 0" for m s
    unfolding atoi_def
    using atoi_loop_digits [of m s ?out 0] that by (simp add: is_digit_def)
  then show ?thesis using p by blast
qed

theorem atoi_printint_witness:
  "\<exists>out. printint digits_k 407 10 True = Inr out \<and>
    (\<forall>m s. mem_read m s (length out) = out \<longrightarrow> m (s + of_nat (length out)) = 0 \<longrightarrow> atoi m s = Some (Inr 407))"
  using atoi_printint [of 407] by simp

text \<open>
  C27. The kernel's \<^verbatim>\<open>printk\<close> and the user library's \<^verbatim>\<open>printf\<close> agree: on every format and argument list
  they write the same bytes up to the case of letters, or fail in the same way; the state machine
  of one and the look-ahead loop of the other read a format alike. (A \<^verbatim>\<open>%c\<close> of 0x100 is excluded: the
  console takes it as the erase code.)
\<close>

theorem printf_printk_agree:
  assumes "0 \<notin> set fmt" "no_backspace ap"
  shows "map_sum id (map lower) (vprintf fmt ap) = map_sum id (map lower) (printk fmt ap)"
  using printers_same [OF assms] by (simp add: same_text_def vprintf_def printk_def)

theorem printf_printk_agree_witness:
  "map_sum id (map lower) (vprintf (ascii ''%x %s%%'') [Num 0xBEEF, Str (Some [65])]) =
   map_sum id (map lower) (printk (ascii ''%x %s%%'') [Num 0xBEEF, Str (Some [65])])"
  by (rule printf_printk_agree) (auto simp: ascii_def no_backspace_def BACKSPACE_def)



end
