(* ===== verification/Sh.thy ===== *)
theory Sh
  imports Printf
begin

text \<open>
  The shell (\<^verbatim>\<open>user/sh.c\<close>). The line is a list of bytes without NUL, and a pointer into it an index; a
  word is a pair of indices until \<^verbatim>\<open>nulterminate\<close> ends it in the buffer. The recursion of the parser is
  bounded by \<open>fuel\<close>, the frames that fit on the stack. Running a command is the tree of the system calls
  it makes, by what they return.
\<close>

section \<open>Operations\<close>

subsection \<open>Tokens\<close>

definition whitespace :: "u8 list" where
  "whitespace = [32, 9, 13, 10, 11]"

definition symbols :: "u8 list" where
  "symbols = ascii ''<|>&;()''"

definition char_at :: "u8 list \<Rightarrow> nat \<Rightarrow> u8" where
  "char_at b s = (if s < length b then b ! s else 0)"

definition skip_ws :: "u8 list \<Rightarrow> nat \<Rightarrow> nat" where
  "skip_ws b s = s + length (takeWhile (\<lambda>c. c \<in> set whitespace) (drop s b))"

definition word_char :: "u8 \<Rightarrow> bool" where
  "word_char c \<longleftrightarrow> c \<notin> set whitespace \<and> c \<notin> set symbols"

text \<open>The kind of the token, where it starts and ends, and the place after it.\<close>

definition gettoken :: "u8 list \<Rightarrow> nat \<Rightarrow> u8 \<times> nat \<times> nat \<times> nat" where
  "gettoken b s =
     (let q = skip_ws b s; c = char_at b q;
          (ret, eq) =
            (if c = 0 then (0, q)
             else if c \<in> set (ascii ''|();&<'') then (c, q + 1)
             else if c = 62 then (if char_at b (q + 1) = 62 then (43, q + 2) else (62, q + 1))
             else (97, q + length (takeWhile word_char (drop q b)))) in
      (ret, q, eq, skip_ws b eq))"

definition peek :: "u8 list \<Rightarrow> nat \<Rightarrow> string \<Rightarrow> bool \<times> nat" where
  "peek b s toks = (let s = skip_ws b s in (char_at b s \<noteq> 0 \<and> char_at b s \<in> set (ascii toks), s))"

subsection \<open>The parser\<close>

type_synonym span = "nat \<times> nat"

text \<open>A word is a span while parsing and a string afterwards. The nodes come from \<^verbatim>\<open>malloc\<close>, taken to succeed.\<close>

datatype 'w cmd = EXEC "'w list" | REDIR "'w cmd" 'w u32 int | PIPE "'w cmd" "'w cmd" | LIST "'w cmd" "'w cmd" | BACK "'w cmd"

type_synonym 'w redir = "'w \<times> u32 \<times> int"

definition redircmd :: "'w cmd \<Rightarrow> 'w redir \<Rightarrow> 'w cmd" where
  "redircmd c r = (case r of (f, mode, fd) \<Rightarrow> REDIR c f mode fd)"

definition MAXARGS :: nat where
  "MAXARGS = 10"

lemma skip_ws_le: "s \<le> skip_ws b s"
  by (simp add: skip_ws_def)

lemma gettoken_le: "gettoken b s = (t, q, e, s') \<Longrightarrow> s \<le> q \<and> q \<le> e \<and> e \<le> s'"
  using skip_ws_le [of s b] skip_ws_le [of e b]
  by (auto simp: gettoken_def Let_def split: if_splits)

lemma skip_ws_stop: "skip_ws b s < length b \<Longrightarrow> b ! skip_ws b s \<notin> set whitespace"
proof -
  assume a: "skip_ws b s < length b"
  let ?w = "\<lambda>c. c \<in> set whitespace"
  have n: "length (takeWhile ?w (drop s b)) < length (drop s b)" using a by (simp add: skip_ws_def)
  then have "\<not> ?w (drop s b ! length (takeWhile ?w (drop s b)))" by (rule nth_length_takeWhile)
  then show ?thesis using a by (simp add: skip_ws_def)
qed

lemma gettoken_less: "gettoken b s = (t, q, e, s') \<Longrightarrow> t \<noteq> 0 \<Longrightarrow> q < e \<and> q < length b"
proof -
  assume g: "gettoken b s = (t, q, e, s')" "t \<noteq> 0"
  then have q: "q = skip_ws b s" "char_at b q \<noteq> 0" by (auto simp: gettoken_def Let_def split: if_splits)
  then have l: "q < length b" by (auto simp: char_at_def split: if_splits)
  then have w: "b ! q \<notin> set whitespace" using skip_ws_stop q(1) by simp
  have "0 < length (takeWhile word_char (drop q b))" if "b ! q \<notin> set symbols"
    using that w l by (simp add: word_char_def takeWhile_eq_Nil_iff Cons_nth_drop_Suc [OF l, symmetric])
  then show ?thesis using g q l
    by (auto simp: gettoken_def Let_def char_at_def symbols_def ascii_def split: if_splits)
qed

lemma redir_step:
  assumes "(t, x, y, s1) = gettoken b (snd (peek b s ''<>''))" "(97, q, e, s2) = gettoken b s1"
  shows "length b - s2 < length b - s"
  using gettoken_le [OF assms(1) [symmetric]] gettoken_le [OF assms(2) [symmetric]] gettoken_less [OF assms(2) [symmetric]]
    skip_ws_le [of s b] by (simp add: peek_def Let_def) linarith

text \<open>
  The redirections wrap the command, innermost first. They are collected as a list, since the command of
  \<^verbatim>\<open>parseexec\<close> still gets arguments after it has been wrapped.
\<close>

function parseredirs :: "u8 list \<Rightarrow> span redir list \<Rightarrow> nat \<Rightarrow> (span redir list \<times> nat) kres" where
  "parseredirs b rs s =
     (if fst (peek b s ''<>'') then
        case gettoken b (snd (peek b s ''<>'')) of (tok, _, _, s1) \<Rightarrow>
        case gettoken b s1 of (tok2, q, eq, s2) \<Rightarrow>
        if tok2 \<noteq> 97 then Inl (Panic ''missing file for redirection'')
        else parseredirs b (rs @
          (if tok = 60 then [((q, eq), 0, 0)]
           else if tok = 62 then [((q, eq), 1 OR 0x200 OR 0x400, 1)]
           else if tok = 43 then [((q, eq), 1 OR 0x200, 1)]
           else [])) s2
      else Inr (rs, snd (peek b s ''<>'')))"
  by pat_completeness auto
termination
  by (relation "measure (\<lambda>(b, rs, s). length b - s)") (auto simp: redir_step)

function parseargs :: "u8 list \<Rightarrow> span list \<Rightarrow> span redir list \<Rightarrow> nat \<Rightarrow> (span list \<times> span redir list \<times> nat) kres" where
  "parseargs b ws rs s =
     (if fst (peek b s ''|)&;'') then Inr (ws, rs, snd (peek b s ''|)&;''))
      else case gettoken b (snd (peek b s ''|)&;'')) of (tok, q, eq, s1) \<Rightarrow>
        if tok = 0 then Inr (ws, rs, s1)
        else if tok \<noteq> 97 then Inl (Panic ''syntax'')
        else if MAXARGS \<le> length ws + 1 then Inl (Panic ''too many args'')
        else bnd (parseredirs b rs s1) (\<lambda>(rs, s). parseargs b (ws @ [(q, eq)]) rs s))"
  by pat_completeness auto
termination
  by (relation "measure (\<lambda>(b, ws, rs, s). MAXARGS - length ws)") auto

definition eat :: "u8 list \<Rightarrow> nat \<Rightarrow> nat" where
  "eat b s = snd (snd (snd (gettoken b s)))"

lemma skip_ws_idem: "skip_ws b (skip_ws b s) = skip_ws b s"
proof (cases "skip_ws b s < length b")
  case True
  then show ?thesis using skip_ws_stop [OF True] Cons_nth_drop_Suc [OF True, symmetric]
    by (simp add: skip_ws_def [of b "skip_ws b s"])
next
  case False
  then show ?thesis by (simp add: skip_ws_def [of b "skip_ws b s"])
qed

lemma peek_eat:
  assumes "fst (peek b s toks)"
  shows "length b - eat b (snd (peek b s toks)) < length b - s"
proof -
  let ?s = "snd (peek b s toks)"
  obtain t q e s1 where g: "gettoken b ?s = (t, q, e, s1)" by (cases "gettoken b ?s") auto
  have "skip_ws b ?s = ?s" by (simp add: peek_def Let_def skip_ws_idem)
  then have "t \<noteq> 0" using g assms by (auto simp: gettoken_def peek_def Let_def split: if_splits)
  then show ?thesis
    using gettoken_le [OF g] gettoken_less [OF g] skip_ws_le [of s b] g by (simp add: eat_def peek_def Let_def) linarith
qed

function parseback :: "u8 list \<Rightarrow> span cmd \<Rightarrow> nat \<Rightarrow> span cmd \<times> nat" where
  "parseback b c s =
     (if fst (peek b s ''&'') then parseback b (BACK c) (eat b (snd (peek b s ''&'')))
      else (c, snd (peek b s ''&'')))"
  by pat_completeness auto
termination
  by (relation "measure (\<lambda>(b, c, s). length b - s)") (auto simp: peek_eat)

text \<open>Each call takes a frame of the stack.\<close>

fun parseline :: "nat \<Rightarrow> u8 list \<Rightarrow> nat \<Rightarrow> (span cmd \<times> nat) kres"
  and parsepipe :: "nat \<Rightarrow> u8 list \<Rightarrow> nat \<Rightarrow> (span cmd \<times> nat) kres"
  and parseblock :: "nat \<Rightarrow> u8 list \<Rightarrow> nat \<Rightarrow> (span cmd \<times> nat) kres"
  and parseexec :: "nat \<Rightarrow> u8 list \<Rightarrow> nat \<Rightarrow> (span cmd \<times> nat) kres" where
  "parseline 0 b s = Inl (Undef ''stack'')"
| "parseline (Suc n) b s =
     bnd (parsepipe n b s) (\<lambda>(c, s).
     let (c, s) = parseback b c s; (more, s) = peek b s '';'' in
     if more then bnd (parseline n b (eat b s)) (\<lambda>(c', s). Inr (LIST c c', s)) else Inr (c, s))"
| "parsepipe 0 b s = Inl (Undef ''stack'')"
| "parsepipe (Suc n) b s =
     bnd (parseexec n b s) (\<lambda>(c, s).
     let (more, s) = peek b s ''|'' in
     if more then bnd (parsepipe n b (eat b s)) (\<lambda>(c', s). Inr (PIPE c c', s)) else Inr (c, s))"
| "parseblock 0 b s = Inl (Undef ''stack'')"
| "parseblock (Suc n) b s =
     (let (opens, s) = peek b s ''('' in
      if \<not> opens then Inl (Panic ''parseblock'')
      else bnd (parseline n b (eat b s)) (\<lambda>(c, s).
        let (closes, s) = peek b s '')'' in
        if \<not> closes then Inl (Panic ''syntax - missing )'')
        else bnd (parseredirs b [] (eat b s)) (\<lambda>(rs, s). Inr (foldl redircmd c rs, s))))"
| "parseexec 0 b s = Inl (Undef ''stack'')"
| "parseexec (Suc n) b s =
     (let (block, s) = peek b s ''('' in
      if block then parseblock n b s
      else bnd (parseredirs b [] s) (\<lambda>(rs, s).
        bnd (parseargs b [] rs s) (\<lambda>(ws, rs, s). Inr (foldl redircmd (EXEC ws) rs, s))))"

text \<open>The byte after each word becomes NUL; the one after the line is NUL already.\<close>

primrec nulterminate :: "span cmd \<Rightarrow> u8 list \<Rightarrow> u8 list" where
  "nulterminate (EXEC ws) b = fold (\<lambda>w b. b[snd w := 0]) ws b"
| "nulterminate (REDIR c f mode fd) b = (nulterminate c b)[snd f := 0]"
| "nulterminate (PIPE l r) b = nulterminate r (nulterminate l b)"
| "nulterminate (LIST l r) b = nulterminate r (nulterminate l b)"
| "nulterminate (BACK c) b = nulterminate c b"

definition str_from :: "u8 list \<Rightarrow> span \<Rightarrow> u8 list" where
  "str_from b w = takeWhile (\<lambda>c. c \<noteq> 0) (drop (fst w) b)"

definition parsecmd :: "nat \<Rightarrow> u8 list \<Rightarrow> u8 list cmd kres" where
  "parsecmd fuel b =
     bnd (parseline fuel b 0) (\<lambda>(c, s).
     if snd (peek b s '''') \<noteq> length b then Inl (Panic ''syntax'')
     else Inr (map_cmd (str_from (nulterminate c b)) c))"

subsection \<open>Running commands\<close>

text \<open>
  The system calls of a process up to its exit. After a call that may fail or that returns twice the tree
  branches. \<open>PRead\<close> and \<open>PWrite\<close> are the ends of the pipe that the process has made last.
\<close>

datatype fdref = Fd nat | PRead | PWrite

datatype prog =
    XExit int
  | XExec "u8 list" "u8 list list" prog
  | XOpen "u8 list" u32 prog prog
  | XClose fdref prog
  | XDup fdref prog
  | XPipe prog prog
  | XFork prog prog prog
  | XWait prog
  | XChdir "u8 list" prog prog
  | XPrint "u8 list" prog

definition sh_panic :: "u8 list \<Rightarrow> prog" where
  "sh_panic msg = XPrint (msg @ [10]) (XExit 1)"

definition fork1 :: "prog \<Rightarrow> prog \<Rightarrow> prog" where
  "fork1 child parent = XFork child parent (sh_panic (ascii ''fork''))"

primrec runcmd :: "u8 list cmd \<Rightarrow> prog" where
  "runcmd (EXEC argv) =
     (case argv of [] \<Rightarrow> XExit 1
      | a # _ \<Rightarrow> XExec a argv (XPrint (ascii ''exec '' @ a @ ascii '' failed'' @ [10]) (XExit 0)))"
| "runcmd (REDIR c f mode fd) =
     XClose (Fd (nat fd)) (XOpen f mode (runcmd c) (XPrint (ascii ''open '' @ f @ ascii '' failed'' @ [10]) (XExit 1)))"
| "runcmd (LIST l r) = fork1 (runcmd l) (XWait (runcmd r))"
| "runcmd (PIPE l r) =
     XPipe
       (fork1 (XClose (Fd 1) (XDup PWrite (XClose PRead (XClose PWrite (runcmd l)))))
         (fork1 (XClose (Fd 0) (XDup PRead (XClose PRead (XClose PWrite (runcmd r)))))
           (XClose PRead (XClose PWrite (XWait (XWait (XExit 0)))))))
       (sh_panic (ascii ''pipe''))"
| "runcmd (BACK c) = fork1 (runcmd c) (XExit 0)"

text \<open>
  The main loop on the bytes of standard input: what \<^verbatim>\<open>gets\<close> leaves in a buffer, up to a NUL, and the rest
  of the input. A child that runs out of stack is killed.
\<close>

primrec gets :: "nat \<Rightarrow> u8 list \<Rightarrow> u8 list \<times> u8 list" where
  "gets 0 inp = ([], inp)"
| "gets (Suc n) inp =
     (case inp of [] \<Rightarrow> ([], [])
      | c # cs \<Rightarrow> if c = 10 \<or> c = 13 then ([c], cs) else let (l, r) = gets n cs in (c # l, r))"

definition getcmd :: "nat \<Rightarrow> u8 list \<Rightarrow> u8 list \<times> u8 list" where
  "getcmd nbuf inp = (let (l, r) = gets (nbuf - 1) inp in (takeWhile (\<lambda>c. c \<noteq> 0) l, r))"

lemma gets_append: "gets n inp = (l, r) \<Longrightarrow> inp = l @ r"
  by (induction n arbitrary: inp l r) (auto split: list.splits prod.splits if_splits)

lemma getcmd_shorter: "fst (getcmd n inp) \<noteq> [] \<Longrightarrow> length (snd (getcmd n inp)) < length inp"
  by (cases "gets (n - 1) inp"; cases "fst (gets (n - 1) inp)") (auto simp: getcmd_def dest: gets_append)

definition run_child :: "nat \<Rightarrow> u8 list \<Rightarrow> prog" where
  "run_child fuel l = (case parsecmd fuel l of Inr c \<Rightarrow> runcmd c | Inl (Panic m) \<Rightarrow> sh_panic (ascii m) | Inl _ \<Rightarrow> XExit (-1))"

function sh_loop :: "nat \<Rightarrow> u8 list \<Rightarrow> prog" where
  "sh_loop fuel inp =
     XPrint (ascii ''$ '')
      (let l = fst (getcmd 100 inp); r = snd (getcmd 100 inp); c = dropWhile (\<lambda>c. c = 32 \<or> c = 9) l in
       if l = [] then XExit 0
       else if c \<noteq> [] \<and> hd c = 10 then sh_loop fuel r
       else if take 3 c = ascii ''cd '' then
         XChdir (drop 3 (butlast c)) (sh_loop fuel r)
           (XPrint (ascii ''cannot cd '' @ drop 3 (butlast c) @ [10]) (sh_loop fuel r))
       else fork1 (run_child fuel c) (XWait (sh_loop fuel r)))"
  by pat_completeness auto
termination
  by (relation "measure (\<lambda>(fuel, inp). length inp)") (auto simp: getcmd_shorter)

section \<open>What a command runs\<close>

text \<open>
  The programs that a process tree executes, with their descriptors, when the system calls succeed: \<open>t\<close> is
  the descriptor table, \<open>ps\<close> the ends of the last pipe, \<open>k\<close> the number of pipes made so far.
\<close>

datatype fobj = FFile "u8 list" u32 | FRead nat | FWrite nat | FInherited nat

type_synonym fdtab = "fobj option list"

definition lowest :: "fdtab \<Rightarrow> nat" where
  "lowest t = length (takeWhile (\<lambda>x. x \<noteq> None) t)"

definition fd_of :: "nat \<times> nat \<Rightarrow> fdref \<Rightarrow> nat" where
  "fd_of ps r = (case r of Fd n \<Rightarrow> n | PRead \<Rightarrow> fst ps | PWrite \<Rightarrow> snd ps)"

type_synonym run = "u8 list \<times> u8 list list \<times> fdtab"

primrec runs :: "prog \<Rightarrow> fdtab \<Rightarrow> nat \<times> nat \<Rightarrow> nat \<Rightarrow> run list \<times> nat" where
  "runs (XExit n) t ps k = ([], k)"
| "runs (XExec path argv p) t ps k = ([(path, argv, t)], k)"
| "runs (XOpen f mode p bad) t ps k = runs p (t[lowest t := Some (FFile f mode)]) ps k"
| "runs (XClose r p) t ps k = runs p (t[fd_of ps r := None]) ps k"
| "runs (XDup r p) t ps k = runs p (t[lowest t := t ! fd_of ps r]) ps k"
| "runs (XPipe p bad) t ps k =
     (let a = lowest t; t = t[a := Some (FRead k)]; b = lowest t; t = t[b := Some (FWrite k)] in runs p t (a, b) (k + 1))"
| "runs (XFork c p bad) t ps k = (let (e, k) = runs c t ps k; (e', k) = runs p t ps k in (e @ e', k))"
| "runs (XWait p) t ps k = runs p t ps k"
| "runs (XChdir d p bad) t ps k = runs p t ps k"
| "runs (XPrint msg p) t ps k = runs p t ps k"

text \<open>What the command means: a redirection replaces a descriptor, a pipe joins two.\<close>

primrec cmd_runs :: "u8 list cmd \<Rightarrow> fdtab \<Rightarrow> nat \<Rightarrow> run list \<times> nat" where
  "cmd_runs (EXEC argv) t k = (case argv of [] \<Rightarrow> ([], k) | a # _ \<Rightarrow> ([(a, argv, t)], k))"
| "cmd_runs (REDIR c f mode fd) t k = cmd_runs c (t[nat fd := Some (FFile f mode)]) k"
| "cmd_runs (PIPE l r) t k =
     (let (e, k') = cmd_runs l (t[1 := Some (FWrite k)]) (k + 1); (e', k'') = cmd_runs r (t[0 := Some (FRead k)]) k' in (e @ e', k''))"
| "cmd_runs (LIST l r) t k = (let (e, k) = cmd_runs l t k; (e', k) = cmd_runs r t k in (e @ e', k))"
| "cmd_runs (BACK c) t k = cmd_runs c t k"

primrec redir_fds :: "'w cmd \<Rightarrow> int set" where
  "redir_fds (EXEC ws) = {}"
| "redir_fds (REDIR c f mode fd) = insert fd (redir_fds c)"
| "redir_fds (PIPE l r) = redir_fds l \<union> redir_fds r"
| "redir_fds (LIST l r) = redir_fds l \<union> redir_fds r"
| "redir_fds (BACK c) = redir_fds c"

definition std_fds :: "fdtab \<Rightarrow> bool" where
  "std_fds t \<longleftrightarrow> (\<exists>a b c. t = [Some a, Some b, Some c] @ replicate 13 None)"

lemma std_update: "std_fds t \<Longrightarrow> n \<le> 2 \<Longrightarrow> std_fds (t[n := Some x])"
  unfolding std_fds_def by (auto simp: numeral_eq_Suc le_Suc_eq split: nat.split)

lemma std_redir: "std_fds t \<Longrightarrow> n \<le> 2 \<Longrightarrow> (t[n := None])[lowest (t[n := None]) := Some x] = t[n := Some x]"
  unfolding std_fds_def by (auto simp: lowest_def numeral_eq_Suc le_Suc_eq split: nat.split)

lemma std_pipe:
  assumes "std_fds t"
  shows "runs (XPipe p bad) t ps k = runs p (t[3 := Some (FRead k), 4 := Some (FWrite k)]) (3, 4) (k + 1)"
    and "runs (XClose (Fd 1) (XDup PWrite (XClose PRead (XClose PWrite q)))) (t[3 := Some (FRead k), 4 := Some (FWrite k)]) (3, 4) k' =
      runs q (t[1 := Some (FWrite k)]) (3, 4) k'"
    and "runs (XClose (Fd 0) (XDup PRead (XClose PRead (XClose PWrite q)))) (t[3 := Some (FRead k), 4 := Some (FWrite k)]) (3, 4) k' =
      runs q (t[0 := Some (FRead k)]) (3, 4) k'"
  using assms unfolding std_fds_def by (auto simp: lowest_def fd_of_def numeral_eq_Suc)

lemma runs_runcmd:
  "std_fds t \<Longrightarrow> redir_fds c \<subseteq> {0..2} \<Longrightarrow> runs (runcmd c) t ps k = cmd_runs c t k"
proof (induction c arbitrary: t ps k)
  case (REDIR c f mode fd)
  then have "nat fd \<le> 2" by auto
  then show ?case using REDIR by (simp add: fd_of_def std_redir std_update)
next
  case (PIPE l r)
  then show ?case
    by (simp add: std_pipe(1) fork1_def std_pipe(2,3) std_update split: prod.split del: runs.simps(4,5,6) One_nat_def) (simp add: fd_of_def)
qed (auto simp: fork1_def sh_panic_def split: list.split prod.split)



end
