(* ===== verification/ShParse.thy ===== *)
theory ShParse
  imports Sh
begin

text \<open>
  The parser of the shell reads back what a printer writes: tokens first, then the four levels of the
  grammar, then the words that \<^verbatim>\<open>nulterminate\<close> cuts out of the buffer.
\<close>

section \<open>Printing commands\<close>

definition good_word :: "u8 list \<Rightarrow> bool" where
  "good_word w \<longleftrightarrow> w \<noteq> [] \<and> (\<forall>c\<in>set w. word_char c \<and> c \<noteq> 0)"

definition good_token :: "u8 list \<Rightarrow> bool" where
  "good_token t \<longleftrightarrow> good_word t \<or> t \<in> set (map ascii [''<'', ''>'', ''>>'', ''|'', ''&'', '';'', ''('', '')''])"

definition kind :: "u8 list \<Rightarrow> u8" where
  "kind t = (if good_word t then 97 else if t = ascii ''>>'' then 43 else hd t)"

definition spaced :: "u8 list list \<Rightarrow> u8 list" where
  "spaced ts = concat (map (\<lambda>t. t @ [32]) ts)"

definition good_redir :: "u8 list redir \<Rightarrow> bool" where
  "good_redir r \<longleftrightarrow> good_word (fst r) \<and> snd r \<in> {(0, 0), (0x601, 1), (0x201, 1)}"

definition redir_tokens :: "u8 list redir \<Rightarrow> u8 list list" where
  "redir_tokens r = [if snd r = (0, 0) then ascii ''<'' else if snd r = (0x601, 1) then ascii ''>'' else ascii ''>>'', fst r]"

text \<open>Levels: 0 for what may stand before \<^verbatim>\<open>|\<close>, 1 before \<^verbatim>\<open>&\<close>, 2 before \<^verbatim>\<open>;\<close>, 3 for a line.\<close>

definition paren :: "bool \<Rightarrow> u8 list list \<Rightarrow> u8 list list" where
  "paren b ts = (if b then ascii ''('' # ts @ [ascii '')''] else ts)"

primrec tokens :: "nat \<Rightarrow> u8 list cmd \<Rightarrow> u8 list list" where
  "tokens n (EXEC ws) = ws"
| "tokens n (REDIR c f mode fd) = tokens 0 c @ redir_tokens (f, mode, fd)"
| "tokens n (PIPE l r) = paren (n < 1) (tokens 0 l @ [ascii ''|''] @ tokens 1 r)"
| "tokens n (BACK c) = paren (n < 2) (tokens 2 c @ [ascii ''&''])"
| "tokens n (LIST l r) = paren (n < 3) (tokens 2 l @ [ascii '';''] @ tokens 3 r)"

primrec wf_cmd :: "u8 list cmd \<Rightarrow> bool" where
  "wf_cmd (EXEC ws) \<longleftrightarrow> length ws < MAXARGS \<and> (\<forall>w\<in>set ws. good_word w)"
| "wf_cmd (REDIR c f mode fd) \<longleftrightarrow> wf_cmd c \<and> good_redir (f, mode, fd)"
| "wf_cmd (PIPE l r) \<longleftrightarrow> wf_cmd l \<and> wf_cmd r"
| "wf_cmd (LIST l r) \<longleftrightarrow> wf_cmd l \<and> wf_cmd r"
| "wf_cmd (BACK c) \<longleftrightarrow> wf_cmd c"

primrec nodes :: "'w cmd \<Rightarrow> nat" where
  "nodes (EXEC ws) = 1"
| "nodes (REDIR c f mode fd) = nodes c + 1"
| "nodes (PIPE l r) = nodes l + nodes r + 1"
| "nodes (LIST l r) = nodes l + nodes r + 1"
| "nodes (BACK c) = nodes c + 1"

section \<open>Reading tokens back\<close>

declare parseredirs.simps [simp del] parseargs.simps [simp del] parseback.simps [simp del]

text \<open>The parser stands at \<open>s\<close> before the tokens \<open>ts\<close>.\<close>

definition before :: "u8 list \<Rightarrow> nat \<Rightarrow> u8 list list \<Rightarrow> bool" where
  "before b s ts \<longleftrightarrow> s \<le> length b \<and> drop s b = spaced ts \<and> (\<forall>t\<in>set ts. good_token t)"

definition slice :: "u8 list \<Rightarrow> span \<Rightarrow> u8 list" where
  "slice b w = take (snd w - fst w) (drop (fst w) b)"

definition span_ok :: "u8 list \<Rightarrow> span \<Rightarrow> bool" where
  "span_ok b w \<longleftrightarrow> fst w < snd w \<and> snd w \<le> length b \<and> good_word (slice b w) \<and> \<not> word_char (char_at (b @ [32]) (snd w))"

lemma word_chars: "good_word w \<Longrightarrow> hd w \<notin> set whitespace \<and> hd w \<notin> set symbols \<and> hd w \<noteq> 0"
  by (cases w) (auto simp: good_word_def word_char_def)

lemma token_hd: "good_token t \<Longrightarrow> t \<noteq> [] \<and> hd t \<notin> set whitespace \<and> hd t \<noteq> 0"
  unfolding good_token_def using word_chars [of t] by (auto simp: good_word_def ascii_def whitespace_def)

lemma spaced_simps [simp]: "spaced [] = []" "spaced (t # ts) = t @ 32 # spaced ts"
  by (simp_all add: spaced_def)

lemma skip_spaced: "\<forall>t\<in>set ts. good_token t \<Longrightarrow> takeWhile (\<lambda>c. c \<in> set whitespace) (spaced ts) = []"
proof (cases ts)
  case (Cons t ts')
  moreover assume "\<forall>t\<in>set ts. good_token t"
  ultimately show ?thesis using token_hd [of t] by (cases t) auto
qed simp

lemma before_skip: "before b s ts \<Longrightarrow> skip_ws b s = s"
  by (simp add: before_def skip_ws_def skip_spaced)

lemma before_char: "before b s (t # ts) \<Longrightarrow> s < length b \<and> char_at b s = hd t"
proof -
  assume a: "before b s (t # ts)"
  then have d: "drop s b = t @ 32 # spaced ts" by (simp add: before_def)
  have "s < length b" using arg_cong [OF d, of length] by simp
  moreover have "t \<noteq> []" using a token_hd by (simp add: before_def)
  ultimately show ?thesis using d by (metis char_at_def hd_append2 hd_drop_conv_nth)
qed

lemma before_next: "before b s (t # ts) \<Longrightarrow> before b (Suc (s + length t)) ts \<and> drop (s + length t) b = 32 # spaced ts"
proof -
  assume a: "before b s (t # ts)"
  then have d: "drop s b = t @ 32 # spaced ts" by (simp add: before_def)
  have "drop (length t) (drop s b) = 32 # spaced ts" "drop (Suc (length t)) (drop s b) = spaced ts" unfolding d by simp_all
  then have "drop (s + length t) b = 32 # spaced ts" "drop (Suc (s + length t)) b = spaced ts" by (simp_all add: add.commute)
  moreover have "Suc (s + length t) \<le> length b" using arg_cong [OF d, of length] a by (simp add: before_def)
  ultimately show ?thesis using a by (simp add: before_def)
qed

lemma gettoken_before:
  assumes a: "before b s (t # ts)"
  shows "gettoken b s = (kind t, s, s + length t, Suc (s + length t))"
proof -
  have c: "char_at b s = hd t" "s < length b" using before_char [OF a] by auto
  have g: "good_token t" using a by (simp add: before_def)
  have d: "drop s b = t @ 32 # spaced ts" using a by (simp add: before_def)
  have n: "drop (s + length t) b = 32 # spaced ts" using before_next [OF a] by simp
  have k: "skip_ws b (s + length t) = Suc (s + length t)"
    using n before_next [OF a] skip_spaced [of ts] by (simp add: skip_ws_def before_def whitespace_def)
  show ?thesis
  proof (cases "good_word t")
    case True
    then have "takeWhile word_char (drop s b) = t"
      unfolding d by (subst takeWhile_append2) (auto simp: good_word_def word_char_def whitespace_def)
    moreover have "hd t \<notin> set (ascii ''|();&<'')" "hd t \<noteq> 62" "hd t \<noteq> 0"
      using word_chars [OF True] by (auto simp: symbols_def ascii_def)
    ultimately show ?thesis using c True k before_skip [OF a] by (simp add: gettoken_def Let_def kind_def)
  next
    case False
    then have "t \<in> set (map ascii [''<'', ''>'', ''>>'', ''|'', ''&'', '';'', ''('', '')''])" using g by (simp add: good_token_def)
    moreover have "s + 1 < length b" if "1 \<le> length t" using that arg_cong [OF d, of length] by simp
    then have "char_at b (s + 1) = (t @ 32 # spaced ts) ! 1" if "1 \<le> length t" using that by (simp add: char_at_def flip: d)
    ultimately show ?thesis using False c k before_skip [OF a]
      by (auto simp: gettoken_def Let_def kind_def ascii_def)
  qed
qed

lemma gettoken_end: "before b s [] \<Longrightarrow> gettoken b s = (0, s, s, s)"
  using before_skip [of b s "[]"] by (simp add: gettoken_def before_def char_at_def Let_def)

lemma peek_before:
  assumes "before b s ts"
  shows "peek b s ks = (ts \<noteq> [] \<and> hd (hd ts) \<in> set (ascii ks), s)"
  using assms before_skip [OF assms] before_char [of b s "hd ts" "tl ts"] token_hd [of "hd ts"]
  by (cases ts) (auto simp: peek_def Let_def before_def char_at_def)

lemma span_before:
  assumes a: "before b s (t # ts)" and g: "good_word t"
  shows "slice b (s, s + length t) = t" "span_ok b (s, s + length t)"
proof -
  have d: "drop s b = t @ 32 # spaced ts" using a by (simp add: before_def)
  then show s: "slice b (s, s + length t) = t" by (simp add: slice_def)
  have "s + length t < length b" using arg_cong [OF d, of length] a by (simp add: before_def)
  moreover from this have "b ! (s + length t) = 32" using before_next [OF a] by (metis hd_drop_conv_nth list.sel(1))
  ultimately show "span_ok b (s, s + length t)" using g s
    by (auto simp: span_ok_def char_at_def nth_append good_word_def word_char_def whitespace_def)
qed

section \<open>Reading commands back\<close>

definition stops :: "string \<Rightarrow> u8 list list \<Rightarrow> bool" where
  "stops ks ts \<longleftrightarrow> ts = [] \<or> hd (hd ts) \<in> set (ascii ks)"

definition redirs_mean :: "u8 list \<Rightarrow> span redir list \<Rightarrow> u8 list redir list \<Rightarrow> bool" where
  "redirs_mean b rs' rs \<longleftrightarrow> map (\<lambda>(w, x). (slice b w, x)) rs' = rs \<and> (\<forall>r\<in>set rs'. span_ok b (fst r))"

definition words_mean :: "u8 list \<Rightarrow> span list \<Rightarrow> u8 list list \<Rightarrow> bool" where
  "words_mean b ws' ws \<longleftrightarrow> map (slice b) ws' = ws \<and> (\<forall>w\<in>set ws'. span_ok b w)"

definition means :: "u8 list \<Rightarrow> span cmd \<Rightarrow> u8 list cmd \<Rightarrow> bool" where
  "means b c' c \<longleftrightarrow> map_cmd (slice b) c' = c \<and> (\<forall>w\<in>set_cmd c'. span_ok b w)"

lemma before_mono: "before b s (ts @ ts') \<Longrightarrow> \<forall>t\<in>set ts'. good_token t"
  by (simp add: before_def)

lemma redir_kind:
  assumes "good_redir r"
  shows "good_word (fst r)" "kind (fst r) = 97" "hd (redir_tokens r) \<in> set (map ascii [''<'', ''>'', ''>>''])"
    "hd (hd (redir_tokens r)) \<in> set (ascii ''<>'')" "kind (hd (redir_tokens r)) \<in> {60, 62, 43}"
    "snd r = (if kind (hd (redir_tokens r)) = 60 then (0, 0) else if kind (hd (redir_tokens r)) = 62 then (1 OR 0x200 OR 0x400, 1) else (1 OR 0x200, 1))"
proof -
  have [simp]: "\<not> good_word [60]" "\<not> good_word [62]" "\<not> good_word [62, 62]"
    by (simp_all add: good_word_def word_char_def symbols_def ascii_def)
  show "good_word (fst r)" "kind (fst r) = 97" using assms by (simp_all add: good_redir_def kind_def)
  show "hd (redir_tokens r) \<in> set (map ascii [''<'', ''>'', ''>>''])" "hd (hd (redir_tokens r)) \<in> set (ascii ''<>'')"
    "kind (hd (redir_tokens r)) \<in> {60, 62, 43}"
    "snd r = (if kind (hd (redir_tokens r)) = 60 then (0, 0) else if kind (hd (redir_tokens r)) = 62 then (1 OR 0x200 OR 0x400, 1) else (1 OR 0x200, 1))"
    using assms by (auto simp: good_redir_def redir_tokens_def kind_def ascii_def)
qed

lemma parseredirs_tokens:
  assumes "before b s (concat (map redir_tokens rs) @ rest)" "\<forall>r\<in>set rs. good_redir r" "rest = [] \<or> hd (hd rest) \<notin> set (ascii ''<>'')"
  shows "\<exists>rs' s'. parseredirs b acc s = Inr (acc @ rs', s') \<and> redirs_mean b rs' rs \<and> before b s' rest"
  using assms
proof (induction rs arbitrary: acc s)
  case Nil
  then have "parseredirs b acc s = Inr (acc @ [], s)" "before b s rest" by (subst parseredirs.simps, auto simp: peek_before)
  moreover have "redirs_mean b [] []" by (simp add: redirs_mean_def)
  ultimately show ?case by - (intro exI conjI)
next
  case (Cons r rs)
  let ?k = "hd (redir_tokens r)" and ?w = "fst r" and ?ts = "concat (map redir_tokens rs) @ rest"
  note k = redir_kind [of r]
  have g: "good_redir r" using Cons.prems(2) by simp
  have "concat (map redir_tokens (r # rs)) @ rest = ?k # ?w # ?ts" by (simp add: redir_tokens_def [of r])
  then have a: "before b s (?k # ?w # ?ts)" using Cons.prems(1) by (simp only:)
  let ?s1 = "Suc (s + length ?k)" let ?s2 = "Suc (?s1 + length ?w)"
  have b1: "before b ?s1 (?w # ?ts)" and b2: "before b ?s2 ?ts" using before_next [OF a] before_next by blast+
  let ?r' = "((?s1, ?s1 + length ?w), snd r)"
  have "parseredirs b acc s = parseredirs b (acc @ [?r']) ?s2"
    by (subst parseredirs.simps)
      (use k(4) [OF g] k(5) [OF g] k(2) [OF g] k(6) [OF g] in \<open>auto simp: peek_before [OF a] gettoken_before [OF a] gettoken_before [OF b1]\<close>)
  moreover obtain rs' s' where "parseredirs b (acc @ [?r']) ?s2 = Inr ((acc @ [?r']) @ rs', s')" and m: "redirs_mean b rs' rs" and "before b s' rest"
    using Cons.IH [OF b2, of "acc @ [?r']"] Cons.prems(2,3) by auto
  moreover have "redirs_mean b (?r' # rs') (r # rs)"
    using m span_before [OF b1 k(1) [OF g]] by (auto simp: redirs_mean_def prod_eq_iff)
  ultimately show ?case by (intro exI [of _ "?r' # rs'"] exI [of _ s']) simp
qed

lemma word_stop: "good_word w \<Longrightarrow> hd w \<notin> set (ascii ''<|>&;()'')"
  using word_chars [of w] by (simp add: symbols_def)

lemma stop_sets:
  "set (ascii ''<>'') \<subseteq> set (ascii ''<|>&;()'')" "set (ascii ''|)&;'') \<subseteq> set (ascii ''<|>&;()'')"
  "set (ascii ''|)&;'') \<inter> set (ascii ''<>'') = {}"
  by (auto simp: ascii_def)

lemma stops_no_redir: "stops ''|)&;'' rest \<Longrightarrow> rest = [] \<or> hd (hd rest) \<notin> set (ascii ''<>'')"
  using stop_sets(3) by (auto simp: stops_def)

lemma parseargs_tokens:
  assumes "before b s (ws @ concat (map redir_tokens rs) @ rest)" "\<forall>w\<in>set ws. good_word w" "\<forall>r\<in>set rs. good_redir r"
    "stops ''|)&;'' rest" "ws = [] \<longrightarrow> rs = []" "length acc + length ws < MAXARGS"
  shows "\<exists>ws' rs' s'. parseargs b acc racc s = Inr (acc @ ws', racc @ rs', s') \<and> words_mean b ws' ws \<and> redirs_mean b rs' rs \<and> before b s' rest"
  using assms
proof (induction ws arbitrary: acc racc rs s)
  case Nil
  then have a: "before b s rest" by simp
  have "parseargs b acc racc s = Inr (acc @ [], racc @ [], s)"
    using Nil.prems(4) gettoken_end [of b s] a
    by (subst parseargs.simps) (cases "rest = []"; simp add: peek_before [OF a] stops_def)
  moreover have "words_mean b [] []" "redirs_mean b [] rs" using Nil.prems(5) by (simp_all add: words_mean_def redirs_mean_def)
  ultimately show ?case using a by - (intro exI conjI)
next
  case (Cons w ws)
  let ?ts = "ws @ concat (map redir_tokens rs) @ rest" and ?s1 = "Suc (s + length w)" and ?w' = "(s, s + length w)"
  have a: "before b s (w # ?ts)" using Cons.prems(1) by simp
  have g: "good_word w" "kind w = 97" using Cons.prems(2) by (simp_all add: kind_def)
  have b1: "before b ?s1 ?ts" using before_next [OF a] by simp
  have u: "parseargs b acc racc s = bnd (parseredirs b racc ?s1) (\<lambda>(rs, s). parseargs b (acc @ [?w']) rs s)"
    using Cons.prems(6) word_stop [OF g(1)] stop_sets(2) g(2)
    by (subst parseargs.simps) (auto simp: peek_before [OF a] gettoken_before [OF a])
  obtain rs1 rs2 where r: "rs = rs1 @ rs2" "ws = [] \<longrightarrow> rs2 = []" "ws \<noteq> [] \<longrightarrow> rs1 = []" by (cases "ws = []") auto
  let ?rest = "ws @ concat (map redir_tokens rs2) @ rest"
  have b2: "before b ?s1 (concat (map redir_tokens rs1) @ ?rest)" using b1 r by (cases "ws = []") auto
  have st: "?rest = [] \<or> hd (hd ?rest) \<notin> set (ascii ''<>'')"
    using stops_no_redir [OF Cons.prems(4)] r(2) word_stop Cons.prems(2) stop_sets(1) by (cases ws) auto
  have "\<forall>r\<in>set rs1. good_redir r" using Cons.prems(3) r(1) by simp
  from parseredirs_tokens [OF b2 this st, of racc] obtain rs1' s2 where
    p1: "parseredirs b racc ?s1 = Inr (racc @ rs1', s2)" and m1: "redirs_mean b rs1' rs1" and b3: "before b s2 ?rest" by blast
  have "\<exists>ws' rs' s'. parseargs b (acc @ [?w']) (racc @ rs1') s2 = Inr ((acc @ [?w']) @ ws', (racc @ rs1') @ rs', s') \<and>
      words_mean b ws' ws \<and> redirs_mean b rs' rs2 \<and> before b s' rest"
    by (rule Cons.IH [OF b3]) (use Cons.prems r in auto)
  then obtain ws' rs' s' where p2: "parseargs b (acc @ [?w']) (racc @ rs1') s2 = Inr ((acc @ [?w']) @ ws', (racc @ rs1') @ rs', s')"
    and m2: "words_mean b ws' ws" "redirs_mean b rs' rs2" and b4: "before b s' rest" by blast
  have "parseargs b acc racc s = Inr (acc @ (?w' # ws'), racc @ (rs1' @ rs'), s')" using u p1 p2 by simp
  moreover have "words_mean b (?w' # ws') (w # ws)" using m2(1) span_before [OF a g(1)] by (simp add: words_mean_def)
  moreover have "redirs_mean b (rs1' @ rs') rs" using m1 m2(2) r(1) by (auto simp: redirs_mean_def)
  ultimately show ?case using b4 by blast
qed

lemma means_redirs:
  assumes "means b c' c" "redirs_mean b rs' rs"
  shows "means b (foldl redircmd c' rs') (foldl redircmd c rs)"
  using assms
proof (induction rs' arbitrary: c' c rs)
  case Nil
  then show ?case by (simp add: redirs_mean_def)
next
  case (Cons r' rs')
  obtain w x where r': "r' = (w, x)" by (cases r')
  then obtain rs0 where rs: "rs = (slice b w, x) # rs0" and m: "redirs_mean b rs' rs0" and o: "span_ok b w"
    using Cons.prems(2) by (auto simp: redirs_mean_def)
  have "means b (redircmd c' r') (redircmd c (slice b w, x))"
    using Cons.prems(1) o r' by (cases x) (auto simp: means_def redircmd_def)
  then show ?case using Cons.IH [OF _ m] rs by simp
qed

lemma not_block:
  assumes "\<forall>w\<in>set ws. good_word w" "\<forall>r\<in>set rs. good_redir r" "stops ''|)&;'' rest"
  shows "ws @ concat (map redir_tokens rs) @ rest = [] \<or> hd (hd (ws @ concat (map redir_tokens rs) @ rest)) \<notin> set (ascii ''('')"
proof (cases ws)
  case (Cons w ws')
  then show ?thesis using word_stop [of w] assms(1) by (auto simp: ascii_def)
next
  case Nil
  show ?thesis
  proof (cases rs)
    case (Cons r rs')
    then show ?thesis using redir_kind(4) [of r] assms(2) Nil by (auto simp: ascii_def redir_tokens_def)
  qed (use assms(3) Nil in \<open>auto simp: stops_def ascii_def\<close>)
qed

text \<open>The four levels, for a stack of at least \<open>F\<close> frames.\<close>

definition PE :: "u8 list cmd \<Rightarrow> nat \<Rightarrow> bool" where
  "PE c F \<longleftrightarrow> (\<forall>b s rs rest n. before b s (tokens 0 c @ concat (map redir_tokens rs) @ rest) \<longrightarrow> (\<forall>r\<in>set rs. good_redir r) \<longrightarrow>
     stops ''|)&;'' rest \<longrightarrow> F \<le> n \<longrightarrow>
     (\<exists>c' s'. parseexec n b s = Inr (c', s') \<and> means b c' (foldl redircmd c rs) \<and> before b s' rest))"

definition PP :: "u8 list cmd \<Rightarrow> nat \<Rightarrow> bool" where
  "PP c F \<longleftrightarrow> (\<forall>b s rest n. before b s (tokens 1 c @ rest) \<longrightarrow> stops '')&;'' rest \<longrightarrow> F \<le> n \<longrightarrow>
     (\<exists>c' s'. parsepipe n b s = Inr (c', s') \<and> means b c' c \<and> before b s' rest))"

definition PB :: "u8 list cmd \<Rightarrow> nat \<Rightarrow> bool" where
  "PB c F \<longleftrightarrow> (\<forall>b s k rest n. before b s (tokens 2 c @ replicate k (ascii ''&'') @ rest) \<longrightarrow> stops '');'' rest \<longrightarrow> F \<le> n \<longrightarrow>
     (\<exists>c' s' c'' s''. parsepipe n b s = Inr (c', s') \<and> parseback b c' s' = (c'', s'') \<and> means b c'' ((BACK ^^ k) c) \<and> before b s'' rest))"

definition PL :: "u8 list cmd \<Rightarrow> nat \<Rightarrow> bool" where
  "PL c F \<longleftrightarrow> (\<forall>b s rest n. before b s (tokens 3 c @ rest) \<longrightarrow> stops '')'' rest \<longrightarrow> F \<le> n \<longrightarrow>
     (\<exists>c' s'. parseline n b s = Inr (c', s') \<and> means b c' c \<and> before b s' rest))"

lemma PE_exec: "wf_cmd (EXEC ws) \<Longrightarrow> PE (EXEC ws) 1"
  unfolding PE_def
proof (intro allI impI)
  fix b s rs rest and n :: nat
  assume wf: "wf_cmd (EXEC ws)" and a: "before b s (tokens 0 (EXEC ws) @ concat (map redir_tokens rs) @ rest)"
    and g: "\<forall>r\<in>set rs. good_redir r" and st: "stops ''|)&;'' rest" and n: "1 \<le> n"
  let ?r1 = "if ws = [] then rs else []" and ?r2 = "if ws = [] then [] else rs"
  let ?rest = "ws @ concat (map redir_tokens ?r2) @ rest"
  have no: "?rest = [] \<or> hd (hd ?rest) \<notin> set (ascii ''<>'')"
    using stops_no_redir [OF st] word_stop wf stop_sets(1) by (cases ws) auto
  have b1: "before b s (concat (map redir_tokens ?r1) @ ?rest)" using a by (cases ws) auto
  have nb: "peek b s ''('' = (False, s)"
    using not_block [OF _ g st, of ws] wf a by (auto simp: peek_before [OF a])
  from parseredirs_tokens [OF b1 _ no, of "[]"] g obtain rs1 s1 where
    p1: "parseredirs b [] s = Inr (rs1, s1)" and m1: "redirs_mean b rs1 ?r1" and b2: "before b s1 ?rest" by auto
  have "\<exists>ws' rs' s'. parseargs b [] rs1 s1 = Inr ([] @ ws', rs1 @ rs', s') \<and> words_mean b ws' ws \<and> redirs_mean b rs' ?r2 \<and> before b s' rest"
    by (rule parseargs_tokens [OF b2]) (use wf g st in auto)
  then obtain ws' rs' s' where p2: "parseargs b [] rs1 s1 = Inr (ws', rs1 @ rs', s')" and m2: "words_mean b ws' ws" "redirs_mean b rs' ?r2"
    and b3: "before b s' rest" by auto
  obtain m where "n = Suc m" using n by (cases n) auto
  then have "parseexec n b s = Inr (foldl redircmd (EXEC ws') (rs1 @ rs'), s')"
    using p1 p2 by (simp add: nb)
  moreover have "redirs_mean b (rs1 @ rs') rs" using m1 m2(2) by (auto simp: redirs_mean_def split: if_splits)
  moreover have "means b (EXEC ws') (EXEC ws)" using m2(1) by (simp add: means_def words_mean_def)
  ultimately show "\<exists>c' s'. parseexec n b s = Inr (c', s') \<and> means b c' (foldl redircmd (EXEC ws) rs) \<and> before b s' rest"
    using means_redirs b3 by blast
qed

lemma stops_sub: "stops ks rest \<Longrightarrow> set (ascii ks) \<subseteq> set (ascii ks') \<Longrightarrow> stops ks' rest"
  by (auto simp: stops_def)

lemma stops_sets:
  "set (ascii '')&;'') \<subseteq> set (ascii ''|)&;'')" "set (ascii '');'') \<subseteq> set (ascii '')&;'')" "set (ascii '')'') \<subseteq> set (ascii '');'')"
  "set (ascii '')'') \<subseteq> set (ascii ''|)&;'')"
  by (auto simp: ascii_def)

lemma PE_PP:
  assumes "PE c F" "tokens 1 c = tokens 0 c"
  shows "PP c (Suc F)"
  unfolding PP_def
proof (intro allI impI)
  fix b s rest and n :: nat
  assume a: "before b s (tokens 1 c @ rest)" and st: "stops '')&;'' rest" and n: "Suc F \<le> n"
  obtain m where m: "n = Suc m" "F \<le> m" using n by (cases n) auto
  have "before b s (tokens 0 c @ concat (map redir_tokens []) @ rest)" using a assms(2) by simp
  then obtain c' s' where p: "parseexec m b s = Inr (c', s')" and mn: "means b c' c" and b1: "before b s' rest"
    using assms(1) m(2) stops_sub [OF st stops_sets(1)] unfolding PE_def by fastforce
  have "peek b s' ''|'' = (False, s')" using st by (auto simp: peek_before [OF b1] stops_def ascii_def)
  then have "parsepipe n b s = Inr (c', s')" using p m by simp
  then show "\<exists>c' s'. parsepipe n b s = Inr (c', s') \<and> means b c' c \<and> before b s' rest" using mn b1 by blast
qed

lemma parseback_tokens:
  assumes "before b s (replicate k (ascii ''&'') @ rest)" "stops '');'' rest"
  shows "\<exists>s'. parseback b c s = ((BACK ^^ k) c, s') \<and> before b s' rest"
  using assms
proof (induction k arbitrary: c s)
  case 0
  then have "before b s rest" by simp
  moreover have "parseback b c s = (c, s)"
    using 0(2) by (subst parseback.simps) (auto simp: peek_before [OF \<open>before b s rest\<close>] stops_def ascii_def)
  ultimately show ?case by simp
next
  case (Suc k)
  then have a: "before b s (ascii ''&'' # replicate k (ascii ''&'') @ rest)" by simp
  have "parseback b c s = parseback b (BACK c) (Suc (s + length (ascii ''&'')))"
    by (subst parseback.simps) (simp add: peek_before [OF a] eat_def gettoken_before [OF a], simp add: ascii_def)
  then show ?case using Suc.IH [of "Suc (s + length (ascii ''&''))" "BACK c"] Suc.prems(2) before_next [OF a]
    by (simp add: funpow_swap1)
qed

lemma PP_PB:
  assumes "PP c F" "tokens 2 c = tokens 1 c"
  shows "PB c F"
  unfolding PB_def
proof (intro allI impI)
  fix b s k rest and n :: nat
  assume a: "before b s (tokens 2 c @ replicate k (ascii ''&'') @ rest)" and st: "stops '');'' rest" and n: "F \<le> n"
  have "stops '')&;'' (replicate k (ascii ''&'') @ rest)"
    using stops_sub [OF st stops_sets(2)] by (cases k) (auto simp: stops_def ascii_def)
  then obtain c' s' where p: "parsepipe n b s = Inr (c', s')" and mn: "means b c' c" and b1: "before b s' (replicate k (ascii ''&'') @ rest)"
    using assms a n unfolding PP_def by fastforce
  have "means b ((BACK ^^ k) c') ((BACK ^^ k) c)" using mn by (induction k) (auto simp: means_def)
  then show "\<exists>c' s' c'' s''. parsepipe n b s = Inr (c', s') \<and> parseback b c' s' = (c'', s'') \<and> means b c'' ((BACK ^^ k) c) \<and> before b s'' rest"
    using p parseback_tokens [OF b1 st, of c'] by blast
qed

lemma PB_back: "PB c F \<Longrightarrow> PB (BACK c) F"
  unfolding PB_def
proof (intro allI impI)
  fix b s k rest and n :: nat
  assume p: "\<forall>b s k rest n. before b s (tokens 2 c @ replicate k (ascii ''&'') @ rest) \<longrightarrow> stops '');'' rest \<longrightarrow> F \<le> n \<longrightarrow>
     (\<exists>c' s' c'' s''. parsepipe n b s = Inr (c', s') \<and> parseback b c' s' = (c'', s'') \<and> means b c'' ((BACK ^^ k) c) \<and> before b s'' rest)"
  assume "before b s (tokens 2 (BACK c) @ replicate k (ascii ''&'') @ rest)" and st: "stops '');'' rest" and n: "F \<le> n"
  then have "before b s (tokens 2 c @ replicate (Suc k) (ascii ''&'') @ rest)" by (simp add: paren_def replicate_append_same)
  from p [rule_format, OF this st n]
  show "\<exists>c' s' c'' s''. parsepipe n b s = Inr (c', s') \<and> parseback b c' s' = (c'', s'') \<and> means b c'' ((BACK ^^ k) (BACK c)) \<and> before b s'' rest"
    by (simp add: funpow_swap1)
qed

lemma PB_PL:
  assumes "PB c F" "tokens 3 c = tokens 2 c"
  shows "PL c (Suc F)"
  unfolding PL_def
proof (intro allI impI)
  fix b s rest and n :: nat
  assume a: "before b s (tokens 3 c @ rest)" and st: "stops '')'' rest" and n: "Suc F \<le> n"
  obtain m where m: "n = Suc m" "F \<le> m" using n by (cases n) auto
  have "before b s (tokens 2 c @ replicate 0 (ascii ''&'') @ rest)" using a assms(2) by simp
  from assms(1) [unfolded PB_def, rule_format, OF this stops_sub [OF st stops_sets(3)] m(2)]
  obtain c' s' c'' s'' where p: "parsepipe m b s = Inr (c', s')" "parseback b c' s' = (c'', s'')" and mn: "means b c'' c" and b1: "before b s'' rest"
    by auto
  have "peek b s'' '';'' = (False, s'')" using st by (auto simp: peek_before [OF b1] stops_def ascii_def)
  then have "parseline n b s = Inr (c'', s'')" using p m by simp
  then show "\<exists>c' s'. parseline n b s = Inr (c', s') \<and> means b c' c \<and> before b s' rest" using mn b1 by blast
qed

lemma eat_before: "before b s (t # ts) \<Longrightarrow> before b (eat b s) ts"
  using before_next by (simp add: eat_def gettoken_before)

lemma PL_PE:
  assumes "PL c F" "tokens 0 c = ascii ''('' # tokens 3 c @ [ascii '')'']"
  shows "PE c (Suc (Suc F))"
  unfolding PE_def
proof (intro allI impI)
  fix b s rs rest and n :: nat
  assume "before b s (tokens 0 c @ concat (map redir_tokens rs) @ rest)" and g: "\<forall>r\<in>set rs. good_redir r"
    and st: "stops ''|)&;'' rest" and n: "Suc (Suc F) \<le> n"
  then have a: "before b s (ascii ''('' # tokens 3 c @ ascii '')'' # concat (map redir_tokens rs) @ rest)" using assms(2) by simp
  obtain m where m: "n = Suc (Suc m)" "F \<le> m" using n by (cases n; cases "n - 1") auto
  have "stops '')'' (ascii '')'' # concat (map redir_tokens rs) @ rest)" by (simp add: stops_def ascii_def)
  from assms(1) [unfolded PL_def, rule_format, OF eat_before [OF a] this m(2)]
  obtain c' s' where p: "parseline m b (eat b s) = Inr (c', s')" and mn: "means b c' c"
    and b1: "before b s' (ascii '')'' # concat (map redir_tokens rs) @ rest)" by auto
  from parseredirs_tokens [OF eat_before [OF b1] g stops_no_redir [OF st], of "[]"]
  obtain rs' s'' where q: "parseredirs b [] (eat b s') = Inr (rs', s'')" and mr: "redirs_mean b rs' rs" and b2: "before b s'' rest" by auto
  have "peek b s ''('' = (True, s)" "peek b s' '')'' = (True, s')" by (simp_all add: peek_before [OF a] peek_before [OF b1] ascii_def)
  then have "parseexec n b s = Inr (foldl redircmd c' rs', s'')" using p q m by simp
  then show "\<exists>c' s'. parseexec n b s = Inr (c', s') \<and> means b c' (foldl redircmd c rs) \<and> before b s' rest"
    using means_redirs [OF mn mr] b2 by blast
qed

lemma PP_pipe:
  assumes "PE l F" "PP r F"
  shows "PP (PIPE l r) (Suc F)"
  unfolding PP_def
proof (intro allI impI)
  fix b s rest and n :: nat
  assume "before b s (tokens 1 (PIPE l r) @ rest)" and st: "stops '')&;'' rest" and n: "Suc F \<le> n"
  then have a: "before b s (tokens 0 l @ concat (map redir_tokens []) @ ascii ''|'' # tokens 1 r @ rest)" by (simp add: paren_def)
  obtain m where m: "n = Suc m" "F \<le> m" using n by (cases n) auto
  have "stops ''|)&;'' (ascii ''|'' # tokens 1 r @ rest)" by (simp add: stops_def ascii_def)
  then obtain c' s' where p: "parseexec m b s = Inr (c', s')" and m1: "means b c' l" and b1: "before b s' (ascii ''|'' # tokens 1 r @ rest)"
    using assms(1) [unfolded PE_def, rule_format, OF a _ _ m(2)] by auto
  from assms(2) [unfolded PP_def, rule_format, OF eat_before [OF b1] st m(2)]
  obtain c'' s'' where q: "parsepipe m b (eat b s') = Inr (c'', s'')" and m2: "means b c'' r" and b2: "before b s'' rest" by blast
  have "peek b s' ''|'' = (True, s')" by (simp add: peek_before [OF b1] ascii_def)
  then have "parsepipe n b s = Inr (PIPE c' c'', s'')" using p q m by simp
  moreover have "means b (PIPE c' c'') (PIPE l r)" using m1 m2 by (auto simp: means_def)
  ultimately show "\<exists>c' s'. parsepipe n b s = Inr (c', s') \<and> means b c' (PIPE l r) \<and> before b s' rest" using b2 by blast
qed

lemma PL_list:
  assumes "PB l F" "PL r F"
  shows "PL (LIST l r) (Suc F)"
  unfolding PL_def
proof (intro allI impI)
  fix b s rest and n :: nat
  assume "before b s (tokens 3 (LIST l r) @ rest)" and st: "stops '')'' rest" and n: "Suc F \<le> n"
  then have a: "before b s (tokens 2 l @ replicate 0 (ascii ''&'') @ ascii '';'' # tokens 3 r @ rest)" by (simp add: paren_def)
  obtain m where m: "n = Suc m" "F \<le> m" using n by (cases n) auto
  have "stops '');'' (ascii '';'' # tokens 3 r @ rest)" by (simp add: stops_def ascii_def)
  from assms(1) [unfolded PB_def, rule_format, OF a this m(2)]
  obtain c0 s0 c' s' where p: "parsepipe m b s = Inr (c0, s0)" "parseback b c0 s0 = (c', s')" and m1: "means b c' l"
    and b1: "before b s' (ascii '';'' # tokens 3 r @ rest)" by auto
  from assms(2) [unfolded PL_def, rule_format, OF eat_before [OF b1] st m(2)]
  obtain c'' s'' where q: "parseline m b (eat b s') = Inr (c'', s'')" and m2: "means b c'' r" and b2: "before b s'' rest" by blast
  have "peek b s' '';'' = (True, s')" by (simp add: peek_before [OF b1] ascii_def)
  then have "parseline n b s = Inr (LIST c' c'', s'')" using p q m by simp
  moreover have "means b (LIST c' c'') (LIST l r)" using m1 m2 by (auto simp: means_def)
  ultimately show "\<exists>c' s'. parseline n b s = Inr (c', s') \<and> means b c' (LIST l r) \<and> before b s' rest" using b2 by blast
qed

lemma PE_redir:
  assumes "PE c F" "good_redir (f, mode, fd)"
  shows "PE (REDIR c f mode fd) F"
  unfolding PE_def
proof (intro allI impI)
  fix b s rs rest and n :: nat
  assume "before b s (tokens 0 (REDIR c f mode fd) @ concat (map redir_tokens rs) @ rest)" and g: "\<forall>r\<in>set rs. good_redir r"
    and st: "stops ''|)&;'' rest" and n: "F \<le> n"
  then have a: "before b s (tokens 0 c @ concat (map redir_tokens ((f, mode, fd) # rs)) @ rest)" by simp
  have "\<forall>r\<in>set ((f, mode, fd) # rs). good_redir r" using g assms(2) by simp
  from assms(1) [unfolded PE_def, rule_format, OF a this [rule_format] st n]
  show "\<exists>c' s'. parseexec n b s = Inr (c', s') \<and> means b c' (foldl redircmd (REDIR c f mode fd) rs) \<and> before b s' rest"
    by (simp add: redircmd_def)
qed

lemma P_mono:
  "PE c F \<Longrightarrow> F \<le> G \<Longrightarrow> PE c G" "PP c F \<Longrightarrow> F \<le> G \<Longrightarrow> PP c G" "PB c F \<Longrightarrow> F \<le> G \<Longrightarrow> PB c G" "PL c F \<Longrightarrow> F \<le> G \<Longrightarrow> PL c G"
  unfolding PE_def PP_def PB_def PL_def by (meson order_trans)+

lemma levels:
  "wf_cmd c \<Longrightarrow> PE c (5 * nodes c) \<and> PP c (5 * nodes c + 1) \<and> PB c (5 * nodes c + 1) \<and> PL c (5 * nodes c + 2)"
proof (induction c)
  case (EXEC ws)
  have "PE (EXEC ws) 5" using PE_exec [OF EXEC] by (rule P_mono) simp
  then show ?case using PE_PP PP_PB PB_PL by (simp add: numeral_eq_Suc)
next
  case (REDIR c f mode fd)
  then have "PE (REDIR c f mode fd) (5 * nodes (REDIR c f mode fd))" by (intro P_mono(1) [OF PE_redir]) auto
  then show ?case using PE_PP PP_PB PB_PL by (metis Suc_eq_plus1 add_2_eq_Suc' tokens.simps(2))
next
  case (PIPE l r)
  let ?n = "5 * (nodes l + nodes r)"
  have "PE l (?n + 1)" "PP r (?n + 1)" using PIPE by (auto intro: P_mono)
  then have "PP (PIPE l r) (?n + 2)" using PP_pipe by fastforce
  moreover from this have "PB (PIPE l r) (?n + 2)" by (rule PP_PB) (simp add: paren_def)
  moreover from this have "PL (PIPE l r) (?n + 3)" using PB_PL [of "PIPE l r" "?n + 2"] by (simp add: paren_def numeral_eq_Suc)
  moreover from this have "PE (PIPE l r) (?n + 5)" using PL_PE [of "PIPE l r" "?n + 3"] by (simp add: paren_def numeral_eq_Suc)
  ultimately show ?case by (auto intro: P_mono)
next
  case (LIST l r)
  let ?n = "5 * (nodes l + nodes r)"
  have "PB l (?n + 2)" "PL r (?n + 2)" using LIST by (auto intro: P_mono)
  then have p: "PL (LIST l r) (?n + 3)" using PL_list [of l "?n + 2" r] by (simp add: numeral_eq_Suc)
  then have e: "PE (LIST l r) (?n + 5)" using PL_PE [of "LIST l r" "?n + 3"] by (simp add: paren_def numeral_eq_Suc)
  then have q: "PP (LIST l r) (?n + 6)" using PE_PP [of "LIST l r" "?n + 5"] by (simp add: paren_def numeral_eq_Suc)
  then have "PB (LIST l r) (?n + 6)" by (rule PP_PB) (simp add: paren_def)
  then show ?case using p e q by (auto intro: P_mono)
next
  case (BACK c)
  let ?n = "5 * nodes c"
  have b: "PB (BACK c) (?n + 1)" using BACK PB_back by simp
  then have p: "PL (BACK c) (?n + 2)" using PB_PL [of "BACK c" "?n + 1"] by (simp add: paren_def numeral_eq_Suc)
  then have e: "PE (BACK c) (?n + 4)" using PL_PE [of "BACK c" "?n + 2"] by (simp add: paren_def numeral_eq_Suc)
  then have "PP (BACK c) (?n + 5)" using PE_PP [of "BACK c" "?n + 4"] by (simp add: paren_def numeral_eq_Suc)
  then show ?case using b p e by (auto intro: P_mono)
qed

section \<open>The words in the buffer\<close>

lemma nulterminate_fold:
  "length (fold (\<lambda>w b. b[snd w := 0]) ws b) = length b"
  "i < length b \<Longrightarrow> fold (\<lambda>w b. b[snd w := 0]) ws b ! i = (if i \<in> snd ` set ws then 0 else b ! i)"
  by (induction ws arbitrary: b) (auto simp: nth_list_update)

lemma length_nulterminate [simp]: "length (nulterminate c b) = length b"
  by (induction c arbitrary: b) (auto simp: nulterminate_fold)

lemma nth_nulterminate: "i < length b \<Longrightarrow> nulterminate c b ! i = (if i \<in> snd ` set_cmd c then 0 else b ! i)"
proof (induction c arbitrary: b)
  case (REDIR c f mode fd)
  then show ?case by (cases "i = snd f") (auto simp: nth_list_update)
qed (auto simp: nulterminate_fold)

lemma slice_nth: "snd w \<le> length b \<Longrightarrow> fst w \<le> i \<Longrightarrow> i < snd w \<Longrightarrow> b ! i \<in> set (slice b w)"
  by (auto simp: slice_def in_set_conv_nth intro!: exI [of _ "i - fst w"])

lemma str_from_nulterminate:
  assumes ok: "\<forall>w\<in>set_cmd c. span_ok b w" and w: "w \<in> set_cmd c"
  shows "str_from (nulterminate c b) w = slice b w"
proof -
  let ?b = "nulterminate c b" and ?q = "fst w" and ?e = "snd w"
  have o: "?q < ?e" "?e \<le> length b" "good_word (slice b w)" using ok w by (auto simp: span_ok_def)
  have keep: "?b ! i = b ! i" and nz: "b ! i \<noteq> 0" if "?q \<le> i" "i < ?e" for i
  proof -
    have i: "i < length b" "b ! i \<in> set (slice b w)" using that o slice_nth [of w b i] by auto
    then show "b ! i \<noteq> 0" using o(3) by (auto simp: good_word_def)
    have "i \<noteq> snd v" if "v \<in> set_cmd c" for v
      using i o(3) ok that by (auto simp: span_ok_def good_word_def char_at_def nth_append split: if_splits)
    then show "?b ! i = b ! i" using i by (auto simp: nth_nulterminate)
  qed
  have d: "drop ?q ?b = take (?e - ?q) (drop ?q ?b) @ drop ?e ?b"
    using o by (metis append_take_drop_id drop_drop le_add_diff_inverse2 less_imp_le_nat)
  have t: "take (?e - ?q) (drop ?q ?b) = slice b w"
    by (rule nth_equalityI) (use o keep in \<open>auto simp: slice_def\<close>)
  have "takeWhile (\<lambda>c. c \<noteq> 0) (drop ?e ?b) = []"
  proof (cases "?e < length b")
    case True
    then have "?b ! ?e = 0" using w by (simp add: nth_nulterminate)
    then show ?thesis using True Cons_nth_drop_Suc [of ?e ?b, symmetric] by simp
  qed simp
  moreover have "\<forall>c\<in>set (slice b w). c \<noteq> 0" using o(3) by (simp add: good_word_def)
  ultimately have "takeWhile (\<lambda>c. c \<noteq> 0) (slice b w @ drop ?e ?b) = slice b w" by (simp add: takeWhile_append2)
  then show ?thesis using arg_cong [OF d, of "takeWhile (\<lambda>c. c \<noteq> 0)"] t by (simp add: str_from_def)
qed

section \<open>Properties\<close>

text \<open>
  C6. \<^verbatim>\<open>parsecmd\<close> reads back every command that can be written down: print a command tree, with parentheses only
  where the grammar needs them, and the parser returns the same tree, each word a string of its own
  after \<^verbatim>\<open>nulterminate\<close>, on a stack with a number of frames linear in the size of the command.
\<close>

theorem parse_print:
  assumes "wf_cmd c" "5 * nodes c + 2 \<le> fuel"
  shows "parsecmd fuel (spaced (tokens 3 c)) = Inr c"
proof -
  let ?b = "spaced (tokens 3 c)"
  have "\<forall>t\<in>set (tokens n c). good_token t" for n
    using assms(1) by (induction c arbitrary: n) (auto simp: paren_def good_token_def good_redir_def redir_tokens_def)
  then have "before ?b 0 (tokens 3 c @ [])" by (simp add: before_def)
  then obtain c' s where p: "parseline fuel ?b 0 = Inr (c', s)" and m: "means ?b c' c" and e: "before ?b s []"
    using levels [OF assms(1)] assms(2) unfolding PL_def by (metis stops_def)
  have "s = length ?b" using e by (simp add: before_def)
  moreover have "map_cmd (str_from (nulterminate c' ?b)) c' = map_cmd (slice ?b) c'"
    using m str_from_nulterminate by (intro cmd.map_cong refl) (auto simp: means_def)
  ultimately show ?thesis using p m peek_before [OF e] by (simp add: parsecmd_def means_def)
qed

theorem parse_print_witness:
  "spaced (tokens 3 (LIST (BACK (PIPE (EXEC [[108, 115]]) (REDIR (EXEC [[119, 99]]) [102] 0x601 1))) (EXEC [[112]]))) = ascii ''ls | wc > f & ; p '' \<and>
   parsecmd 100 (ascii ''ls | wc > f & ; p '') = Inr (LIST (BACK (PIPE (EXEC [[108, 115]]) (REDIR (EXEC [[119, 99]]) [102] 0x601 1))) (EXEC [[112]]))"
proof -
  let ?c = "LIST (BACK (PIPE (EXEC [[108, 115]]) (REDIR (EXEC [[119, 99]]) [102] 0x601 1))) (EXEC [[112]])"
  have t: "spaced (tokens 3 ?c) = ascii ''ls | wc > f & ; p ''" by (simp add: paren_def redir_tokens_def ascii_def)
  have "wf_cmd ?c" by (simp add: MAXARGS_def good_word_def good_redir_def word_char_def whitespace_def symbols_def ascii_def)
  from parse_print [OF this, of 100] t show ?thesis by simp
qed

end
