(* ===== verification/Spinlock.thy ===== *)
theory Spinlock
  imports Kprelude
begin

text \<open>
  Spin locks with nested interrupt disabling (\<^verbatim>\<open>kernel/spinlock.c\<close>), one step per atomic action, run by
  any number of harts in any interleaving; and sleep locks (\<^verbatim>\<open>kernel/sleeplock.c\<close>), whose bodies run
  under their spin lock. Locks and harts are numbered; the holder of a lock is the hart whose
  \<^verbatim>\<open>struct cpu\<close> is stored in it.
\<close>

section \<open>Operations\<close>

record cpu =
  noff :: int
  intena :: bool
  sie :: bool

record spinlock =
  locked :: bool
  holder :: "nat option"

definition initlock :: spinlock where
  "initlock = \<lparr>locked = False, holder = None\<rparr>"

definition holding :: "spinlock \<Rightarrow> nat \<Rightarrow> bool" where
  "holding lk h \<longleftrightarrow> locked lk \<and> holder lk = Some h"

definition push_off :: "cpu \<Rightarrow> cpu" where
  "push_off c = (let old = sie c; c = c\<lparr>sie := False\<rparr> in
     (if noff c = 0 then c\<lparr>intena := old\<rparr> else c)\<lparr>noff := noff c + 1\<rparr>)"

definition pop_off :: "cpu \<Rightarrow> cpu kres" where
  "pop_off c =
     panic_if (sie c) ''pop_off - interruptible'' (
     panic_if (noff c < 1) ''pop_off'' (
     let c = c\<lparr>noff := noff c - 1\<rparr> in
     Inr (if noff c = 0 \<and> intena c then c\<lparr>sie := True\<rparr> else c)))"

text \<open>The parts of \<^verbatim>\<open>acquire\<close>: before the loop, one exchange, after the loop.\<close>

definition acquire_begin :: "nat \<Rightarrow> spinlock \<Rightarrow> cpu \<Rightarrow> cpu kres" where
  "acquire_begin h lk c = (let c = push_off c in panic_if (holding lk h) ''acquire'' (Inr c))"

definition acquire_try :: "spinlock \<Rightarrow> bool \<times> spinlock" where
  "acquire_try lk = (\<not> locked lk, lk\<lparr>locked := True\<rparr>)"

definition acquire_end :: "nat \<Rightarrow> spinlock \<Rightarrow> spinlock" where
  "acquire_end h lk = lk\<lparr>holder := Some h\<rparr>"

text \<open>The parts of \<^verbatim>\<open>release\<close>: up to clearing the holder, the atomic store, and \<^verbatim>\<open>pop_off\<close>.\<close>

definition release_begin :: "nat \<Rightarrow> spinlock \<Rightarrow> spinlock kres" where
  "release_begin h lk = panic_if (\<not> holding lk h) ''release'' (Inr (lk\<lparr>holder := None\<rparr>))"

definition release_store :: "spinlock \<Rightarrow> spinlock" where
  "release_store lk = lk\<lparr>locked := False\<rparr>"

text \<open>Where a hart is.\<close>

datatype hpc = Run | Spin nat | Got nat | Rel nat | Pop

record lsys =
  cpus :: "nat \<Rightarrow> cpu"
  locks :: "nat \<Rightarrow> spinlock"
  pc :: "nat \<Rightarrow> hpc"

definition boot :: "(nat \<Rightarrow> bool) \<Rightarrow> lsys" where
  "boot ie = \<lparr>cpus = (\<lambda>h. \<lparr>noff = 0, intena = False, sie = ie h\<rparr>), locks = (\<lambda>_. initlock), pc = (\<lambda>_. Run)\<rparr>"

inductive lstep :: "lsys \<Rightarrow> lsys \<Rightarrow> bool" where
  irq: "pc s h = Run \<Longrightarrow> noff (cpus s h) = 0 \<Longrightarrow>
    lstep s (s\<lparr>cpus := (cpus s)(h := (cpus s h)\<lparr>sie := b\<rparr>)\<rparr>)"
| acq: "pc s h = Run \<Longrightarrow> acquire_begin h (locks s l) (cpus s h) = Inr c \<Longrightarrow>
    lstep s (s\<lparr>cpus := (cpus s)(h := c), pc := (pc s)(h := Spin l)\<rparr>)"
| spin: "pc s h = Spin l \<Longrightarrow> acquire_try (locks s l) = (got, lk) \<Longrightarrow>
    lstep s (s\<lparr>locks := (locks s)(l := lk), pc := (pc s)(h := if got then Got l else Spin l)\<rparr>)"
| got: "pc s h = Got l \<Longrightarrow>
    lstep s (s\<lparr>locks := (locks s)(l := acquire_end h (locks s l)), pc := (pc s)(h := Run)\<rparr>)"
| rel: "pc s h = Run \<Longrightarrow> release_begin h (locks s l) = Inr lk \<Longrightarrow>
    lstep s (s\<lparr>locks := (locks s)(l := lk), pc := (pc s)(h := Rel l)\<rparr>)"
| store: "pc s h = Rel l \<Longrightarrow>
    lstep s (s\<lparr>locks := (locks s)(l := release_store (locks s l)), pc := (pc s)(h := Pop)\<rparr>)"
| pop: "pc s h = Pop \<Longrightarrow> pop_off (cpus s h) = Inr c \<Longrightarrow>
    lstep s (s\<lparr>cpus := (cpus s)(h := c), pc := (pc s)(h := Run)\<rparr>)"

definition reachable :: "lsys \<Rightarrow> bool" where
  "reachable s \<longleftrightarrow> (\<exists>ie. lstep\<^sup>*\<^sup>* (boot ie) s)"

record sleeplock =
  sl_locked :: bool
  sl_pid :: int

definition initsleeplock :: sleeplock where
  "initsleeplock = \<lparr>sl_locked = False, sl_pid = 0\<rparr>"

text \<open>\<open>None\<close>: the caller sleeps on the lock and tries again when woken.\<close>

definition acquiresleep :: "int \<Rightarrow> sleeplock \<Rightarrow> sleeplock option" where
  "acquiresleep pid lk = (if sl_locked lk then None else Some (lk\<lparr>sl_locked := True, sl_pid := pid\<rparr>))"

definition releasesleep :: "sleeplock \<Rightarrow> sleeplock" where
  "releasesleep lk = lk\<lparr>sl_locked := False, sl_pid := 0\<rparr>"

definition holdingsleep :: "int \<Rightarrow> sleeplock \<Rightarrow> bool" where
  "holdingsleep pid lk \<longleftrightarrow> sl_locked lk \<and> sl_pid lk = pid"


section \<open>Mutual exclusion and interrupts\<close>

text \<open>The hart has the lock: it has taken it and not yet stored 0.\<close>

definition has_lock :: "lsys \<Rightarrow> nat \<Rightarrow> nat \<Rightarrow> bool" where
  "has_lock s h l \<longleftrightarrow> pc s h = Got l \<or> pc s h = Rel l \<or> holder (locks s l) = Some h"

definition depth :: "lsys \<Rightarrow> nat \<Rightarrow> nat" where
  "depth s h = card {l. holder (locks s l) = Some h} + of_bool (pc s h \<noteq> Run)"

definition lock_inv :: "lsys \<Rightarrow> bool" where
  "lock_inv s \<longleftrightarrow>
     (\<forall>h l. has_lock s h l \<longrightarrow> locked (locks s l)) \<and>
     (\<forall>h h' l. has_lock s h l \<longrightarrow> has_lock s h' l \<longrightarrow> h = h') \<and>
     (\<forall>h l. pc s h = Got l \<or> pc s h = Rel l \<longrightarrow> holder (locks s l) = None)"

definition off_inv :: "lsys \<Rightarrow> bool" where
  "off_inv s \<longleftrightarrow> (\<forall>h. finite {l. holder (locks s l) = Some h} \<and> noff (cpus s h) = int (depth s h) \<and>
     (noff (cpus s h) > 0 \<longrightarrow> \<not> sie (cpus s h)))"

lemma lock_inv_step: "lstep s s' \<Longrightarrow> lock_inv s \<Longrightarrow> lock_inv s'"
proof (induction rule: lstep.induct)
  case (irq s h b)
  then show ?case by (simp add: lock_inv_def has_lock_def)
next
  case (acq s h l c)
  then show ?case by (auto simp: lock_inv_def has_lock_def)
next
  case (spin s h l got lk)
  show ?case
  proof (cases got)
    case True
    then have "\<not> locked (locks s l)" using spin by (simp add: acquire_try_def)
    then have "\<not> has_lock s h' l" for h' using spin by (auto simp: lock_inv_def)
    moreover from this have "holder (locks s l) = None" by (cases "holder (locks s l)") (auto simp: has_lock_def)
    ultimately show ?thesis
      using spin True by (auto simp: lock_inv_def has_lock_def acquire_try_def split: if_splits)
  next
    case False
    then show ?thesis using spin by (auto simp: lock_inv_def has_lock_def acquire_try_def split: if_splits)
  qed
next
  case (got s h l)
  then show ?case by (auto simp: lock_inv_def has_lock_def acquire_end_def split: if_splits)
next
  case (rel s h l lk)
  then show ?case by (auto simp: lock_inv_def has_lock_def release_begin_def holding_def kres_simps split: if_splits)
next
  case (store s h l)
  then show ?case by (auto simp: lock_inv_def has_lock_def release_store_def split: if_splits)
next
  case (pop s h c)
  then show ?case by (auto simp: lock_inv_def has_lock_def)
qed


lemma depth_other:
  assumes "locks s' = locks s" "pc s' h = pc s h"
  shows "depth s' h = depth s h"
  using assms by (simp add: depth_def)

lemma off_inv_cpu:
  assumes "off_inv s" "locks s' = locks s" "\<And>x. x \<noteq> h \<Longrightarrow> cpus s' x = cpus s x \<and> pc s' x = pc s x"
    "noff (cpus s' h) = int (depth s' h)" "noff (cpus s' h) > 0 \<Longrightarrow> \<not> sie (cpus s' h)"
  shows "off_inv s'"
  unfolding off_inv_def
proof (intro allI)
  fix x
  show "finite {l. holder (locks s' l) = Some x} \<and> noff (cpus s' x) = int (depth s' x) \<and>
      (noff (cpus s' x) > 0 \<longrightarrow> \<not> sie (cpus s' x))"
  proof (cases "x = h")
    case True
    then show ?thesis using assms by (simp add: off_inv_def)
  next
    case False
    then show ?thesis using assms(1,2) assms(3) [OF False] by (simp add: off_inv_def depth_def)
  qed
qed

lemma off_inv_depth:
  assumes "off_inv s" "cpus s' = cpus s"
    "\<And>y. finite {l. holder (locks s' l) = Some y}" "\<And>y. depth s' y = depth s y"
  shows "off_inv s'"
  using assms by (simp add: off_inv_def)

lemma held_finite: "off_inv s \<Longrightarrow> finite {l. holder (locks s l) = Some y}"
  by (simp add: off_inv_def)

lemma off_noff: "off_inv s \<Longrightarrow> noff (cpus s h) = int (depth s h)"
  by (simp add: off_inv_def)

lemma off_sie: "off_inv s \<Longrightarrow> 0 < noff (cpus s h) \<Longrightarrow> \<not> sie (cpus s h)"
  by (simp add: off_inv_def)

lemma off_inv_step: "lstep s s' \<Longrightarrow> lock_inv s \<Longrightarrow> off_inv s \<Longrightarrow> off_inv s'"
proof (induction rule: lstep.induct)
  case (irq s h b)
  let ?s = "s\<lparr>cpus := (cpus s)(h := (cpus s h)\<lparr>sie := b\<rparr>)\<rparr>"
  have d: "depth ?s h = depth s h" by (simp add: depth_def)
  show ?case
    by (rule off_inv_cpu [OF irq(4), where h = h]) (use irq(2) off_noff [OF irq(4), of h] d in simp_all)
next
  case (acq s h l c)
  then have "c = push_off (cpus s h)" by (simp add: acquire_begin_def Let_def kres_simps)
  then have c: "noff c = noff (cpus s h) + 1" "\<not> sie c" by (simp_all add: push_off_def Let_def)
  let ?s = "s\<lparr>cpus := (cpus s)(h := c), pc := (pc s)(h := Spin l)\<rparr>"
  have d: "depth ?s h = depth s h + 1" using acq(1) by (simp add: depth_def)
  show ?case
    by (rule off_inv_cpu [OF acq(4), where h = h]) (use c off_noff [OF acq(4), of h] d in simp_all)
next
  case (spin s h l got lk)
  let ?s = "s\<lparr>locks := (locks s)(l := lk), pc := (pc s)(h := if got then Got l else Spin l)\<rparr>"
  have h: "holder (locks ?s x) = holder (locks s x)" for x using spin(2) by (auto simp: acquire_try_def)
  have p: "pc ?s y \<noteq> Run \<longleftrightarrow> pc s y \<noteq> Run" for y using spin(1) by simp
  have "depth ?s y = depth s y" for y unfolding depth_def h p ..
  moreover have "finite {x. holder (locks ?s x) = Some y}" for y unfolding h by (rule held_finite [OF spin(4)])
  ultimately show ?case by (intro off_inv_depth [OF spin(4)]) simp_all
next
  case (got s h l)
  let ?s = "s\<lparr>locks := (locks s)(l := acquire_end h (locks s l)), pc := (pc s)(h := Run)\<rparr>"
  have n: "holder (locks s l) = None" using got by (auto simp: lock_inv_def)
  then have set: "{x. holder (locks ?s x) = Some y} =
      (if y = h then insert l {x. holder (locks s x) = Some y} else {x. holder (locks s x) = Some y})" for y
    by (auto simp: acquire_end_def)
  have fin: "finite {x. holder (locks s x) = Some y}" for y by (rule held_finite [OF got(3)])
  have "depth ?s y = depth s y" for y
    unfolding depth_def set using got(1) n fin [of y] by (cases "y = h") simp_all
  moreover have "finite {x. holder (locks ?s x) = Some y}" for y unfolding set using fin [of y] by (cases "y = h") simp_all
  ultimately show ?case by (intro off_inv_depth [OF got(3)]) simp_all
next
  case (rel s h l lk)
  let ?s = "s\<lparr>locks := (locks s)(l := lk), pc := (pc s)(h := Rel l)\<rparr>"
  have n: "holder (locks s l) = Some h" and lk: "lk = (locks s l)\<lparr>holder := None\<rparr>"
    using rel(2) by (auto simp: release_begin_def holding_def kres_simps)
  have set: "{x. holder (locks ?s x) = Some y} =
      (if y = h then {x. holder (locks s x) = Some y} - {l} else {x. holder (locks s x) = Some y})" for y
    using n lk by auto
  have fin: "finite {x. holder (locks s x) = Some y}" for y by (rule held_finite [OF rel(4)])
  have "Suc (card ({x. holder (locks s x) = Some h} - {l})) = card {x. holder (locks s x) = Some h}"
    using n by (intro card_Suc_Diff1 fin) simp
  then have "depth ?s y = depth s y" for y
    unfolding depth_def set using rel(1) by (cases "y = h") simp_all
  moreover have "finite {x. holder (locks ?s x) = Some y}" for y unfolding set using fin [of y] by (cases "y = h") simp_all
  ultimately show ?case by (intro off_inv_depth [OF rel(4)]) simp_all
next
  case (store s h l)
  let ?s = "s\<lparr>locks := (locks s)(l := release_store (locks s l)), pc := (pc s)(h := Pop)\<rparr>"
  have h: "holder (locks ?s x) = holder (locks s x)" for x by (simp add: release_store_def)
  have p: "pc ?s y \<noteq> Run \<longleftrightarrow> pc s y \<noteq> Run" for y using store(1) by simp
  have "depth ?s y = depth s y" for y unfolding depth_def h p ..
  moreover have "finite {x. holder (locks ?s x) = Some y}" for y unfolding h by (rule held_finite [OF store(3)])
  ultimately show ?case by (intro off_inv_depth [OF store(3)]) simp_all
next
  case (pop s h c)
  have c: "noff c = noff (cpus s h) - 1" "0 < noff c \<Longrightarrow> \<not> sie c"
    using pop(2) by (auto simp: pop_off_def Let_def kres_simps split: if_splits)
  let ?s = "s\<lparr>cpus := (cpus s)(h := c), pc := (pc s)(h := Run)\<rparr>"
  have d: "depth s h = depth ?s h + 1" using pop(1) by (simp add: depth_def)
  show ?case
    by (rule off_inv_cpu [OF pop(4), where h = h]) (use c off_noff [OF pop(4), of h] d in simp_all)
qed

lemma boot_inv: "lock_inv (boot ie) \<and> off_inv (boot ie)"
  by (simp add: boot_def lock_inv_def has_lock_def off_inv_def depth_def initlock_def)

lemma reachable_inv:
  assumes "reachable s"
  shows "lock_inv s \<and> off_inv s"
proof -
  obtain ie where "lstep\<^sup>*\<^sup>* (boot ie) s" using assms by (auto simp: reachable_def)
  then show ?thesis
    by (induction rule: rtranclp_induct) (use boot_inv lock_inv_step off_inv_step in blast)+
qed


section \<open>Properties\<close>

text \<open>
  C3. Mutual exclusion: however any number of harts interleave the atomic actions of \<^verbatim>\<open>acquire\<close> and
  \<^verbatim>\<open>release\<close>, no lock is ever had by two harts, and a lock that some hart has is marked locked.
\<close>

theorem spinlock_mutual_exclusion:
  assumes "reachable s" "has_lock s h l"
  shows "locked (locks s l) \<and> (\<forall>h'. has_lock s h' l \<longrightarrow> h' = h)"
  using reachable_inv [OF assms(1)] assms(2) unfolding lock_inv_def by blast

text \<open>Hart 0 takes lock 7.\<close>

lemma reachable_take:
  fixes ie :: "nat \<Rightarrow> bool"
  defines "s1 \<equiv> (boot ie)\<lparr>cpus := (cpus (boot ie))(0 := push_off (cpus (boot ie) 0)), pc := (pc (boot ie))(0 := Spin 7)\<rparr>"
  defines "s2 \<equiv> s1\<lparr>locks := (locks s1)(7 := (locks s1 7)\<lparr>locked := True\<rparr>), pc := (pc s1)(0 := Got 7)\<rparr>"
  defines "s3 \<equiv> s2\<lparr>locks := (locks s2)(7 := acquire_end 0 (locks s2 7)), pc := (pc s2)(0 := Run)\<rparr>"
  shows "reachable s3" "has_lock s3 0 7" "pc s3 0 = Run"
proof -
  have a1: "lstep (boot ie) s1"
    unfolding s1_def by (rule acq) (simp_all add: boot_def acquire_begin_def holding_def initlock_def Let_def)
  have "lstep s1 (s1\<lparr>locks := (locks s1)(7 := (locks s1 7)\<lparr>locked := True\<rparr>), pc := (pc s1)(0 := if True then Got 7 else Spin 7)\<rparr>)"
    by (rule spin) (simp_all add: s1_def boot_def acquire_try_def initlock_def)
  then have a2: "lstep s1 s2" by (simp add: s2_def)
  have a3: "lstep s2 s3" unfolding s3_def by (rule got) (simp add: s2_def)
  have "lstep\<^sup>*\<^sup>* (boot ie) s1" using a1 by (rule r_into_rtranclp)
  then have "lstep\<^sup>*\<^sup>* (boot ie) s2" using a2 by (rule rtranclp.rtrancl_into_rtrancl)
  then have "lstep\<^sup>*\<^sup>* (boot ie) s3" using a3 by (rule rtranclp.rtrancl_into_rtrancl)
  then show "reachable s3" unfolding reachable_def by blast
  show "has_lock s3 0 7" by (simp add: has_lock_def s3_def acquire_end_def)
  show "pc s3 0 = Run" by (simp add: s3_def)
qed

theorem spinlock_mutual_exclusion_witness:
  "\<exists>s. reachable s \<and> has_lock s 0 7 \<and> (\<forall>h'. has_lock s h' 7 \<longrightarrow> h' = 0)"
  using reachable_take(1,2) [of "\<lambda>_. True"] spinlock_mutual_exclusion by blast

text \<open>
  C19. Interrupts stay off while a hart holds a lock: in every reachable state the nesting depth
  \<^verbatim>\<open>noff\<close> of a hart is the number of locks it holds plus one while it is inside \<^verbatim>\<open>acquire\<close> or \<^verbatim>\<open>release\<close>,
  interrupts are off whenever it is positive, and \<^verbatim>\<open>release\<close> of a held lock never panics, neither
  itself nor in \<^verbatim>\<open>pop_off\<close>.
\<close>

theorem locks_keep_interrupts_off:
  assumes "reachable s"
  shows "noff (cpus s h) = int (card {l. holder (locks s l) = Some h}) + of_bool (pc s h \<noteq> Run) \<and>
    (0 < noff (cpus s h) \<longrightarrow> \<not> sie (cpus s h)) \<and>
    (holder (locks s l) = Some h \<longrightarrow> release_begin h (locks s l) \<noteq> Inl (Panic ''release'')) \<and>
    (pc s h = Pop \<longrightarrow> (\<exists>c. pop_off (cpus s h) = Inr c))"
proof -
  have inv: "lock_inv s" "off_inv s" using reachable_inv [OF assms] by auto
  have d: "noff (cpus s h) = int (depth s h)" "0 < noff (cpus s h) \<longrightarrow> \<not> sie (cpus s h)"
    using inv(2) by (auto simp: off_inv_def)
  moreover have "release_begin h (locks s l) \<noteq> Inl (Panic ''release'')" if "holder (locks s l) = Some h"
    using that inv(1) by (auto simp: release_begin_def holding_def lock_inv_def has_lock_def)
  moreover have "\<exists>c. pop_off (cpus s h) = Inr c" if "pc s h = Pop"
    using d that by (auto simp: pop_off_def depth_def Let_def)
  ultimately show ?thesis by (auto simp: depth_def)
qed

theorem locks_keep_interrupts_off_witness:
  "\<exists>s. reachable s \<and> has_lock s 0 7 \<and> pc s 0 = Run \<and> \<not> sie (cpus s 0)"
proof -
  obtain s where s: "reachable s" "has_lock s 0 7" "pc s 0 = Run" using reachable_take [of "\<lambda>_. True"] by blast
  have "holder (locks s 7) = Some 0" using s(2,3) by (simp add: has_lock_def)
  moreover have "finite {l. holder (locks s l) = Some 0}" using reachable_inv [OF s(1)] by (simp add: off_inv_def)
  ultimately have "0 < card {l. holder (locks s l) = Some 0}" by (auto simp: card_gt_0_iff)
  then show ?thesis using locks_keep_interrupts_off [OF s(1), of 0 7] s by auto
qed

end
