(* ===== verification/Bio.thy ===== *)
theory Bio
  imports Riscv Spinlock
begin

text \<open>
  The buffer cache (\<^verbatim>\<open>kernel/bio.c\<close>). Buffers are numbered; the list through \<^verbatim>\<open>prev\<close> and \<^verbatim>\<open>next\<close> is the
  list of their numbers, most recently used first. The disk is a map from block numbers to
  blocks, and \<open>hist\<close> the sequence of writes that reached it. A run belongs to one process; where
  it would wait for a buffer that another process has locked, it ends in \<open>Sleeps\<close>.
\<close>

section \<open>Operations\<close>

type_synonym block = "u8 list"

definition BSIZE :: nat where
  "BSIZE = 1024"

definition ROOTDEV :: u32 where
  "ROOTDEV = 1"

record buf =
  b_valid :: bool
  b_dev :: u32
  b_blockno :: u32
  b_lock :: sleeplock
  b_refcnt :: u32
  b_data :: block

record bsys =
  bufs :: "buf list"
  lru :: "nat list"
  disk :: "u32 \<Rightarrow> block"
  hist :: "(u32 \<times> block) list"
  curpid :: int

definition empty_buf :: buf where
  "empty_buf = \<lparr>b_valid = False, b_dev = 0, b_blockno = 0, b_lock = initsleeplock, b_refcnt = 0,
     b_data = replicate BSIZE 0\<rparr>"

text \<open>Each buffer is linked in at the head.\<close>

definition binit :: "'z bsys_scheme \<Rightarrow> 'z bsys_scheme" where
  "binit s = s\<lparr>bufs := replicate NBUF empty_buf, lru := fold (#) [0..<NBUF] []\<rparr>"

definition upd_buf :: "nat \<Rightarrow> (buf \<Rightarrow> buf) \<Rightarrow> 'z bsys_scheme \<Rightarrow> 'z bsys_scheme" where
  "upd_buf i f s = s\<lparr>bufs := (bufs s)[i := f (bufs s ! i)]\<rparr>"

definition block_is :: "u32 \<Rightarrow> u32 \<Rightarrow> buf \<Rightarrow> bool" where
  "block_is dev blockno b \<longleftrightarrow> b_dev b = dev \<and> b_blockno b = blockno"

definition lock_buf :: "nat \<Rightarrow> 'z bsys_scheme \<Rightarrow> (nat \<times> 'z bsys_scheme) kres" where
  "lock_buf i s = (case acquiresleep (curpid s) (b_lock (bufs s ! i)) of
     None \<Rightarrow> Inl (Sleeps ''buffer'')
   | Some lk \<Rightarrow> Inr (i, upd_buf i (\<lambda>b. b\<lparr>b_lock := lk\<rparr>) s))"

definition bget :: "u32 \<Rightarrow> u32 \<Rightarrow> 'z bsys_scheme \<Rightarrow> (nat \<times> 'z bsys_scheme) kres" where
  "bget dev blockno s =
     (case List.find (\<lambda>i. block_is dev blockno (bufs s ! i)) (lru s) of
        Some i \<Rightarrow> lock_buf i (upd_buf i (\<lambda>b. b\<lparr>b_refcnt := b_refcnt b + 1\<rparr>) s)
      | None \<Rightarrow>
         (case List.find (\<lambda>i. b_refcnt (bufs s ! i) = 0) (rev (lru s)) of
            Some i \<Rightarrow> lock_buf i (upd_buf i (\<lambda>b. b\<lparr>b_dev := dev, b_blockno := blockno, b_valid := False, b_refcnt := 1\<rparr>) s)
          | None \<Rightarrow> Inl (Panic ''bget: no buffers'')))"

text \<open>\<^verbatim>\<open>virtio_disk_rw\<close> as its callers see it: it returns when the transfer is complete.\<close>

definition disk_read :: "nat \<Rightarrow> 'z bsys_scheme \<Rightarrow> 'z bsys_scheme" where
  "disk_read i s = upd_buf i (\<lambda>b. b\<lparr>b_data := disk s (b_blockno b)\<rparr>) s"

definition disk_write :: "nat \<Rightarrow> 'z bsys_scheme \<Rightarrow> 'z bsys_scheme" where
  "disk_write i s = (let b = bufs s ! i in
     s\<lparr>disk := (disk s)(b_blockno b := b_data b), hist := hist s @ [(b_blockno b, b_data b)]\<rparr>)"

definition bread :: "u32 \<Rightarrow> u32 \<Rightarrow> 'z bsys_scheme \<Rightarrow> (nat \<times> 'z bsys_scheme) kres" where
  "bread dev blockno s = bnd (bget dev blockno s) (\<lambda>(i, s).
     if \<not> b_valid (bufs s ! i) then Inr (i, upd_buf i (\<lambda>b. b\<lparr>b_valid := True\<rparr>) (disk_read i s))
     else Inr (i, s))"

definition bwrite :: "nat \<Rightarrow> 'z bsys_scheme \<Rightarrow> 'z bsys_scheme kres" where
  "bwrite i s = panic_if (\<not> holdingsleep (curpid s) (b_lock (bufs s ! i))) ''bwrite'' (Inr (disk_write i s))"

definition brelse :: "nat \<Rightarrow> 'z bsys_scheme \<Rightarrow> 'z bsys_scheme kres" where
  "brelse i s =
     panic_if (\<not> holdingsleep (curpid s) (b_lock (bufs s ! i))) ''brelse'' (
     let s = upd_buf i (\<lambda>b. b\<lparr>b_lock := releasesleep (b_lock b)\<rparr>) s;
         s = upd_buf i (\<lambda>b. b\<lparr>b_refcnt := b_refcnt b - 1\<rparr>) s in
     Inr (if b_refcnt (bufs s ! i) = 0 then s\<lparr>lru := i # remove1 i (lru s)\<rparr> else s))"

definition bpin :: "nat \<Rightarrow> 'z bsys_scheme \<Rightarrow> 'z bsys_scheme" where
  "bpin i s = upd_buf i (\<lambda>b. b\<lparr>b_refcnt := b_refcnt b + 1\<rparr>) s"

definition bunpin :: "nat \<Rightarrow> 'z bsys_scheme \<Rightarrow> 'z bsys_scheme" where
  "bunpin i s = upd_buf i (\<lambda>b. b\<lparr>b_refcnt := b_refcnt b - 1\<rparr>) s"

text \<open>What the holder of a buffer does with its data.\<close>

definition set_data :: "nat \<Rightarrow> block \<Rightarrow> 'z bsys_scheme \<Rightarrow> 'z bsys_scheme" where
  "set_data i d s = upd_buf i (\<lambda>b. b\<lparr>b_data := d\<rparr>) s"

definition get_data :: "nat \<Rightarrow> 'z bsys_scheme \<Rightarrow> block" where
  "get_data i s = b_data (bufs s ! i)"


section \<open>What the cache shows\<close>

text \<open>The content of a block, from its buffer if it has a valid one.\<close>

definition view :: "'z bsys_scheme \<Rightarrow> u32 \<Rightarrow> block" where
  "view s b = (case List.find (\<lambda>i. block_is ROOTDEV b (bufs s ! i) \<and> b_valid (bufs s ! i)) [0..<NBUF] of
     None \<Rightarrow> disk s b | Some i \<Rightarrow> b_data (bufs s ! i))"

text \<open>
  The cache with the buffers \<open>H\<close> locked by the running process and the buffers \<open>P\<close> pinned: no block has
  two buffers, the reference counts are those of \<open>H\<close> and \<open>P\<close>, and all other valid buffers agree
  with the disk.
\<close>

definition bc :: "'z bsys_scheme \<Rightarrow> nat set \<Rightarrow> nat set \<Rightarrow> bool" where
  "bc s H P \<longleftrightarrow> length (bufs s) = NBUF \<and> distinct (lru s) \<and> set (lru s) = {..<NBUF} \<and>
     H \<subseteq> {..<NBUF} \<and> P \<subseteq> {..<NBUF} \<and>
     (\<forall>i<NBUF. \<forall>j<NBUF. \<forall>b. block_is ROOTDEV b (bufs s ! i) \<longrightarrow> block_is ROOTDEV b (bufs s ! j) \<longrightarrow> i = j) \<and>
     (\<forall>i<NBUF. b_refcnt (bufs s ! i) = of_bool (i \<in> H) + of_bool (i \<in> P)) \<and>
     (\<forall>i<NBUF. sl_locked (b_lock (bufs s ! i)) \<longleftrightarrow> i \<in> H) \<and>
     (\<forall>i\<in>H. sl_pid (b_lock (bufs s ! i)) = curpid s) \<and>
     (\<forall>i\<in>H \<union> P. b_valid (bufs s ! i) \<and> b_dev (bufs s ! i) = ROOTDEV) \<and>
     (\<forall>i<NBUF. i \<notin> H \<longrightarrow> i \<notin> P \<longrightarrow> b_valid (bufs s ! i) \<longrightarrow> b_dev (bufs s ! i) = ROOTDEV \<longrightarrow>
        b_data (bufs s ! i) = disk s (b_blockno (bufs s ! i)))"

lemma upd_buf_fields [simp]:
  "lru (upd_buf i f s) = lru s" "disk (upd_buf i f s) = disk s" "hist (upd_buf i f s) = hist s"
  "curpid (upd_buf i f s) = curpid s" "length (bufs (upd_buf i f s)) = length (bufs s)" "bsys.more (upd_buf i f s) = bsys.more s"
  by (simp_all add: upd_buf_def)

lemma upd_buf_nth:
  "i < length (bufs s) \<Longrightarrow> bufs (upd_buf i f s) ! j = (if j = i then f (bufs s ! i) else bufs s ! j)"
  by (auto simp: upd_buf_def)

lemma upd_buf_id: "s\<lparr>bufs := bufs (upd_buf i f s)\<rparr> = upd_buf i f s"
  by (simp add: upd_buf_def)

lemma bcD:
  assumes "bc s H P"
  shows "length (bufs s) = NBUF" "distinct (lru s)" "set (lru s) = {..<NBUF}" "H \<subseteq> {..<NBUF}" "P \<subseteq> {..<NBUF}"
    "\<And>i j b. i < NBUF \<Longrightarrow> j < NBUF \<Longrightarrow> block_is ROOTDEV b (bufs s ! i) \<Longrightarrow> block_is ROOTDEV b (bufs s ! j) \<Longrightarrow> i = j"
    "\<And>i. i < NBUF \<Longrightarrow> b_refcnt (bufs s ! i) = of_bool (i \<in> H) + of_bool (i \<in> P)"
    "\<And>i. i < NBUF \<Longrightarrow> sl_locked (b_lock (bufs s ! i)) \<longleftrightarrow> i \<in> H"
    "\<And>i. i \<in> H \<Longrightarrow> sl_pid (b_lock (bufs s ! i)) = curpid s"
    "\<And>i. i \<in> H \<union> P \<Longrightarrow> b_valid (bufs s ! i) \<and> b_dev (bufs s ! i) = ROOTDEV"
    "\<And>i. i < NBUF \<Longrightarrow> i \<notin> H \<Longrightarrow> i \<notin> P \<Longrightarrow> b_valid (bufs s ! i) \<Longrightarrow> b_dev (bufs s ! i) = ROOTDEV \<Longrightarrow>
        b_data (bufs s ! i) = disk s (b_blockno (bufs s ! i))"
  using assms unfolding bc_def by blast+

lemma find_unique:
  assumes "i \<in> set xs" "p i" "\<And>j. j \<in> set xs \<Longrightarrow> p j \<Longrightarrow> j = i"
  shows "List.find p xs = Some i"
proof (cases "List.find p xs")
  case None
  then show ?thesis using assms(1,2) by (simp add: find_None_iff)
next
  case (Some j)
  then have "j \<in> set xs" "p j" by (auto simp: find_Some_iff)
  then show ?thesis using assms(3) Some by simp
qed

lemma find_SomeD: "List.find p xs = Some x \<Longrightarrow> x \<in> set xs \<and> p x"
  by (auto simp: find_Some_iff)

lemma view_cached:
  assumes "bc s H P" "i < NBUF" "block_is ROOTDEV b (bufs s ! i)" "b_valid (bufs s ! i)"
  shows "view s b = b_data (bufs s ! i)"
proof -
  have "List.find (\<lambda>i. block_is ROOTDEV b (bufs s ! i) \<and> b_valid (bufs s ! i)) [0..<NBUF] = Some i"
    by (rule find_unique) (use assms bcD(6) [OF assms(1)] in auto)
  then show ?thesis by (simp add: view_def)
qed

lemma view_uncached:
  "(\<And>i. i < NBUF \<Longrightarrow> block_is ROOTDEV b (bufs s ! i) \<Longrightarrow> \<not> b_valid (bufs s ! i)) \<Longrightarrow> view s b = disk s b"
proof -
  assume "\<And>i. i < NBUF \<Longrightarrow> block_is ROOTDEV b (bufs s ! i) \<Longrightarrow> \<not> b_valid (bufs s ! i)"
  then have "List.find (\<lambda>i. block_is ROOTDEV b (bufs s ! i) \<and> b_valid (bufs s ! i)) [0..<NBUF] = None"
    by (auto simp: find_None_iff)
  then show ?thesis by (simp add: view_def)
qed

text \<open>Two states that agree on the valid buffers of a block and on its disk copy show the same.\<close>

lemma view_cong:
  assumes "\<And>i. i < NBUF \<Longrightarrow> bufs s' ! i = bufs s ! i \<or>
      (\<not> (block_is ROOTDEV b (bufs s' ! i) \<and> b_valid (bufs s' ! i)) \<and>
       \<not> (block_is ROOTDEV b (bufs s ! i) \<and> b_valid (bufs s ! i))) \<or>
      (block_is ROOTDEV b (bufs s' ! i) \<and> b_valid (bufs s' ! i) \<and> block_is ROOTDEV b (bufs s ! i) \<and> b_valid (bufs s ! i) \<and>
       b_data (bufs s' ! i) = b_data (bufs s ! i))"
    "disk s' b = disk s b"
  shows "view s' b = view s b"
proof -
  have "List.find (\<lambda>i. block_is ROOTDEV b (bufs s' ! i) \<and> b_valid (bufs s' ! i)) [0..<NBUF] =
      List.find (\<lambda>i. block_is ROOTDEV b (bufs s ! i) \<and> b_valid (bufs s ! i)) [0..<NBUF]"
    by (rule find_cong) (use assms(1) in \<open>auto, metis+\<close>)
  moreover have "b_data (bufs s' ! i) = b_data (bufs s ! i)"
    if "List.find (\<lambda>i. block_is ROOTDEV b (bufs s ! i) \<and> b_valid (bufs s ! i)) [0..<NBUF] = Some i" for i
  proof -
    have "i < NBUF" "block_is ROOTDEV b (bufs s ! i)" "b_valid (bufs s ! i)"
      using that by (auto simp: find_Some_iff)
    then show ?thesis using assms(1) [of i] by auto
  qed
  ultimately show ?thesis using assms(2) by (simp add: view_def split: option.split)
qed


section \<open>Reading a block\<close>

definition claimed :: "'z bsys_scheme \<Rightarrow> nat set \<Rightarrow> nat \<Rightarrow> u32 \<Rightarrow> block \<Rightarrow> buf" where
  "claimed s P i b d = \<lparr>b_valid = True, b_dev = ROOTDEV, b_blockno = b,
     b_lock = \<lparr>sl_locked = True, sl_pid = curpid s\<rparr>, b_refcnt = 1 + of_bool (i \<in> P), b_data = d\<rparr>"

lemma bc_claim:
  assumes inv: "bc s H P" and i: "i < NBUF" "i \<notin> H"
    and other: "\<And>j. j < NBUF \<Longrightarrow> j \<noteq> i \<Longrightarrow> \<not> block_is ROOTDEV b (bufs s ! j)"
    and pin: "i \<in> P \<Longrightarrow> block_is ROOTDEV b (bufs s ! i)"
  defines "s' \<equiv> upd_buf i (\<lambda>_. claimed s P i b (view s b)) s"
  shows "bc s' (insert i H) P" "view s' = view s"
proof -
  have len: "i < length (bufs s)" using i bcD(1) [OF inv] by simp
  have nth: "bufs s' ! j = (if j = i then claimed s P i b (view s b) else bufs s ! j)" for j
    using upd_buf_nth [OF len] by (simp add: s'_def)
  have f: "lru s' = lru s" "disk s' = disk s" "curpid s' = curpid s" "length (bufs s') = length (bufs s)"
    by (simp_all add: s'_def)
  have uniq: "j = k" if "j < NBUF" "k < NBUF" "block_is ROOTDEV c (bufs s' ! j)" "block_is ROOTDEV c (bufs s' ! k)" for j k c
    using that other bcD(6) [OF inv] by (auto simp: nth claimed_def block_is_def split: if_splits)
  show bc': "bc s' (insert i H) P"
    unfolding bc_def f
  proof (intro conjI allI impI ballI)
    show "i1 = j" if "i1 < NBUF" "j < NBUF" "block_is ROOTDEV c (bufs s' ! i1)" "block_is ROOTDEV c (bufs s' ! j)" for i1 j c
      using uniq that by blast
  qed (use bcD [OF inv] i in \<open>auto simp: nth claimed_def\<close>)
  show "view s' = view s"
  proof
    fix c
    show "view s' c = view s c"
    proof (cases "c = b")
      case True
      have "view s' b = b_data (bufs s' ! i)"
        using view_cached [OF bc' i(1)] by (simp add: nth claimed_def block_is_def)
      then show ?thesis using True by (simp add: nth claimed_def)
    next
      case False
      show ?thesis
      proof (cases "block_is ROOTDEV c (bufs s ! i) \<and> b_valid (bufs s ! i)")
        case True
        then have "i \<notin> P" using pin False by (auto simp: block_is_def)
        then have "view s c = disk s c"
          using True view_cached [OF inv i(1), of c] bcD(11) [OF inv i] by (auto simp: block_is_def)
        moreover have "view s' c = disk s' c"
        proof (rule view_uncached)
          fix j assume j: "j < NBUF" "block_is ROOTDEV c (bufs s' ! j)"
          then have "j \<noteq> i" using False by (auto simp: nth claimed_def block_is_def)
          then show "\<not> b_valid (bufs s' ! j)" using j True bcD(6) [OF inv j(1) i(1), of c] by (auto simp: nth)
        qed
        ultimately show ?thesis by (simp add: f)
      next
        case not: False
        show ?thesis
          by (rule view_cong) (use not False in \<open>auto simp: nth f claimed_def block_is_def\<close>)
      qed
    qed
  qed
qed

lemma lock_buf_free:
  "\<not> sl_locked (b_lock (bufs s ! i)) \<Longrightarrow>
   lock_buf i s = Inr (i, upd_buf i (\<lambda>b. b\<lparr>b_lock := (b_lock b)\<lparr>sl_locked := True, sl_pid := curpid s\<rparr>\<rparr>) s)"
  by (simp add: lock_buf_def acquiresleep_def upd_buf_def)

lemma upd_buf_twice: "upd_buf i f (upd_buf i g s) = upd_buf i (f \<circ> g) s"
  by (cases "i < length (bufs s)") (simp_all add: upd_buf_def list_update_beyond)

lemma upd_buf_cong: "f (bufs s ! i) = g (bufs s ! i) \<Longrightarrow> upd_buf i f s = upd_buf i g s"
  by (simp add: upd_buf_def)


text \<open>The buffer that \<^verbatim>\<open>bread\<close> picks, and what it makes of it.\<close>

lemma bread_claims:
  assumes inv: "bc s H P" and b: "\<And>i. i \<in> H \<Longrightarrow> b_blockno (bufs s ! i) \<noteq> b"
    and room: "card (H \<union> P) < NBUF \<or> (\<exists>i<NBUF. block_is ROOTDEV b (bufs s ! i))"
  obtains i where "i < NBUF" "i \<notin> H" "bread ROOTDEV b s = Inr (i, upd_buf i (\<lambda>_. claimed s P i b (view s b)) s)"
    "\<forall>j<NBUF. j \<noteq> i \<longrightarrow> \<not> block_is ROOTDEV b (bufs s ! j)" "i \<in> P \<longrightarrow> block_is ROOTDEV b (bufs s ! i)"
proof (cases "\<exists>i<NBUF. block_is ROOTDEV b (bufs s ! i)")
  case True
  then obtain i where i: "i < NBUF" "block_is ROOTDEV b (bufs s ! i)" by blast
  have iH: "i \<notin> H" using b i(2) by (auto simp: block_is_def)
  have len: "i < length (bufs s)" using i bcD(1) [OF inv] by simp
  have uniq: "j = i" if "j < NBUF" "block_is ROOTDEV b (bufs s ! j)" for j using bcD(6) [OF inv that(1) i(1) that(2) i(2)] .
  have find: "List.find (\<lambda>i. block_is ROOTDEV b (bufs s ! i)) (lru s) = Some i"
  proof (rule find_unique)
    show "i \<in> set (lru s)" using i(1) bcD(3) [OF inv] by simp
    show "block_is ROOTDEV b (bufs s ! i)" by (rule i(2))
    fix j assume "j \<in> set (lru s)" "block_is ROOTDEV b (bufs s ! j)"
    then show "j = i" using bcD(3) [OF inv] by (intro uniq) simp_all
  qed
  have view: "view s b = (if b_valid (bufs s ! i) then b_data (bufs s ! i) else disk s b)"
    using view_cached [OF inv i] view_uncached [of b s] uniq by auto
  let ?s = "upd_buf i (\<lambda>b. b\<lparr>b_refcnt := b_refcnt b + 1\<rparr>) s"
  have get: "bget ROOTDEV b s = Inr (i, upd_buf i (\<lambda>b. b\<lparr>b_lock := (b_lock b)\<lparr>sl_locked := True, sl_pid := curpid ?s\<rparr>\<rparr>) ?s)"
    using find lock_buf_free [of ?s i] bcD(8) [OF inv i(1)] iH by (simp add: bget_def upd_buf_nth [OF len])
  have "bread ROOTDEV b s = Inr (i, upd_buf i (\<lambda>_. claimed s P i b (view s b)) s)"
    using i iH bcD(7) [OF inv i(1)] len
    by (auto simp: bread_def get upd_buf_twice upd_buf_nth disk_read_def view claimed_def block_is_def o_def
        intro!: upd_buf_cong)
  then show ?thesis using that [of i] i iH uniq by blast
next
  case False
  then have "card (H \<union> P) < NBUF" using room by blast
  moreover have "H \<union> P \<subseteq> {..<NBUF}" using bcD(4,5) [OF inv] by blast
  ultimately have "H \<union> P \<noteq> {..<NBUF}" by auto
  then obtain k where k: "k < NBUF" "k \<notin> H \<union> P" using \<open>H \<union> P \<subseteq> {..<NBUF}\<close> by blast
  have "\<exists>i. List.find (\<lambda>i. b_refcnt (bufs s ! i) = 0) (rev (lru s)) = Some i"
  proof (rule ccontr)
    assume "\<not> ?thesis"
    then have "List.find (\<lambda>i. b_refcnt (bufs s ! i) = 0) (rev (lru s)) = None" by simp
    then show False using k bcD(3,7) [OF inv] by (auto simp: find_None_iff)
  qed
  then obtain i where f: "List.find (\<lambda>i. b_refcnt (bufs s ! i) = 0) (rev (lru s)) = Some i" by blast
  then have i: "i < NBUF" "b_refcnt (bufs s ! i) = 0" using find_SomeD [OF f] bcD(3) [OF inv] by auto
  have iH: "i \<notin> H" "i \<notin> P" using i bcD(7) [OF inv i(1)] by (auto simp: of_bool_def split: if_splits)
  have len: "i < length (bufs s)" using i bcD(1) [OF inv] by simp
  have nf: "List.find (\<lambda>i. block_is ROOTDEV b (bufs s ! i)) (lru s) = None"
    using False bcD(3) [OF inv] by (auto simp: find_None_iff)
  have view: "view s b = disk s b" using False by (intro view_uncached) blast
  let ?s = "upd_buf i (\<lambda>x. x\<lparr>b_dev := ROOTDEV, b_blockno := b, b_valid := False, b_refcnt := 1\<rparr>) s"
  have get: "bget ROOTDEV b s = Inr (i, upd_buf i (\<lambda>b. b\<lparr>b_lock := (b_lock b)\<lparr>sl_locked := True, sl_pid := curpid ?s\<rparr>\<rparr>) ?s)"
    using nf f lock_buf_free [of ?s i] bcD(8) [OF inv i(1)] iH by (simp add: bget_def upd_buf_nth [OF len])
  have "bread ROOTDEV b s = Inr (i, upd_buf i (\<lambda>_. claimed s P i b (view s b)) s)"
    using i iH len
    by (auto simp: bread_def get upd_buf_twice upd_buf_nth disk_read_def view claimed_def o_def intro!: upd_buf_cong)
  then show ?thesis using that [of i] i iH False by blast
qed

lemma bread_ok:
  assumes "bc s H P" "\<And>i. i \<in> H \<Longrightarrow> b_blockno (bufs s ! i) \<noteq> b"
    "card (H \<union> P) < NBUF \<or> (\<exists>i<NBUF. block_is ROOTDEV b (bufs s ! i))"
  obtains i s' where "bread ROOTDEV b s = Inr (i, s')" "bc s' (insert i H) P" "i < NBUF" "i \<notin> H"
    "view s' = view s" "get_data i s' = view s b" "b_blockno (bufs s' ! i) = b"
    "\<And>j. j \<noteq> i \<Longrightarrow> bufs s' ! j = bufs s ! j" "s' = s\<lparr>bufs := bufs s'\<rparr>"
    "i \<in> P \<Longrightarrow> b_blockno (bufs s ! i) = b" "\<And>j. j \<in> P \<Longrightarrow> j \<noteq> i \<Longrightarrow> b_blockno (bufs s ! j) \<noteq> b"
proof -
  obtain i where i: "i < NBUF" "i \<notin> H" "bread ROOTDEV b s = Inr (i, upd_buf i (\<lambda>_. claimed s P i b (view s b)) s)"
    "\<forall>j<NBUF. j \<noteq> i \<longrightarrow> \<not> block_is ROOTDEV b (bufs s ! j)" "i \<in> P \<longrightarrow> block_is ROOTDEV b (bufs s ! i)"
    by (rule bread_claims [OF assms]) blast
  let ?s = "upd_buf i (\<lambda>_. claimed s P i b (view s b)) s"
  have len: "i < length (bufs s)" using i bcD(1) [OF assms(1)] by simp
  note c = bc_claim [OF assms(1) i(1,2) i(4) [rule_format] i(5) [rule_format]]
  have "b_blockno (bufs s ! j) \<noteq> b" if "j \<in> P" "j \<noteq> i" for j
    using i(4) that bcD(5,10) [OF assms(1)] by (auto simp: block_is_def)
  then show ?thesis
    using that [of i ?s, OF i(3) c(1) i(1,2) c(2)] i(5) len
    by (auto simp: upd_buf_nth get_data_def claimed_def upd_buf_id block_is_def)
qed


section \<open>Changing, writing and releasing a buffer\<close>

lemma bc_held:
  assumes "bc s H P" "i \<in> H"
  shows "i < NBUF" "i < length (bufs s)" "b_valid (bufs s ! i)" "block_is ROOTDEV (b_blockno (bufs s ! i)) (bufs s ! i)"
    "holdingsleep (curpid s) (b_lock (bufs s ! i))" "view s (b_blockno (bufs s ! i)) = get_data i s"
proof -
  show i: "i < NBUF" using bcD(4) [OF assms(1)] assms(2) by blast
  show "i < length (bufs s)" using i bcD(1) [OF assms(1)] by simp
  have v: "b_valid (bufs s ! i)" "b_dev (bufs s ! i) = ROOTDEV" using bcD(10) [OF assms(1)] assms(2) by auto
  then show "b_valid (bufs s ! i)" "block_is ROOTDEV (b_blockno (bufs s ! i)) (bufs s ! i)" by (simp_all add: block_is_def)
  then show "view s (b_blockno (bufs s ! i)) = get_data i s" using view_cached [OF assms(1) i] by (simp add: get_data_def)
  show "holdingsleep (curpid s) (b_lock (bufs s ! i))"
    using bcD(8) [OF assms(1) i] bcD(9) [OF assms(1,2)] assms(2) by (simp add: holdingsleep_def)
qed

lemma set_data_ok:
  assumes inv: "bc s H P" and i: "i \<in> H"
  shows "bc (set_data i d s) H P" "view (set_data i d s) = (view s)(b_blockno (bufs s ! i) := d)"
    "get_data i (set_data i d s) = d"
proof -
  note h = bc_held [OF inv i]
  let ?s = "set_data i d s"
  have nth: "bufs ?s ! j = (if j = i then (bufs s ! i)\<lparr>b_data := d\<rparr> else bufs s ! j)" for j
    using upd_buf_nth [OF h(2)] by (simp add: set_data_def)
  have f: "lru ?s = lru s" "disk ?s = disk s" "curpid ?s = curpid s" "length (bufs ?s) = length (bufs s)"
    by (simp_all add: set_data_def)
  have blk: "block_is ROOTDEV c (bufs ?s ! j) = block_is ROOTDEV c (bufs s ! j)" for c j
    by (simp add: nth block_is_def)
  show bc': "bc ?s H P"
    unfolding bc_def f blk
  proof (intro conjI allI impI ballI)
    show "i1 = j" if "i1 < NBUF" "j < NBUF" "block_is ROOTDEV c (bufs s ! i1)" "block_is ROOTDEV c (bufs s ! j)" for i1 j c
      using bcD(6) [OF inv] that by blast
  qed (use bcD [OF inv] i in \<open>auto simp: nth\<close>)
  show "get_data i ?s = d" by (simp add: get_data_def nth)
  show "view ?s = (view s)(b_blockno (bufs s ! i) := d)"
  proof
    fix c
    show "view ?s c = ((view s)(b_blockno (bufs s ! i) := d)) c"
    proof (cases "c = b_blockno (bufs s ! i)")
      case True
      then have "view ?s c = b_data (bufs ?s ! i)" using view_cached [OF bc' h(1), of c] h(3,4) by (simp add: nth block_is_def)
      then show ?thesis using True by (simp add: nth)
    next
      case False
      have "view ?s c = view s c" by (rule view_cong) (use False in \<open>auto simp: nth f block_is_def\<close>)
      then show ?thesis using False by simp
    qed
  qed
qed

lemma bwrite_ok:
  assumes inv: "bc s H P" and i: "i \<in> H"
  obtains s' where "bwrite i s = Inr s'" "bc s' H P" "view s' = view s"
    "disk s' = (disk s)(b_blockno (bufs s ! i) := get_data i s)"
    "hist s' = hist s @ [(b_blockno (bufs s ! i), get_data i s)]" "bufs s' = bufs s" "lru s' = lru s"
    "curpid s' = curpid s" "bsys.more s' = bsys.more s"
proof -
  note h = bc_held [OF inv i]
  let ?b = "b_blockno (bufs s ! i)"
  define s' where s': "s' = disk_write i s"
  have f: "bufs s' = bufs s" "lru s' = lru s" "curpid s' = curpid s" "bsys.more s' = bsys.more s"
    "disk s' = (disk s)(?b := get_data i s)" "hist s' = hist s @ [(?b, get_data i s)]"
    by (simp_all add: s' disk_write_def Let_def get_data_def)
  have clean: "b_data (bufs s ! j) = disk s' (b_blockno (bufs s ! j))"
    if "j < NBUF" "j \<notin> H" "j \<notin> P" "b_valid (bufs s ! j)" "b_dev (bufs s ! j) = ROOTDEV" for j
  proof -
    have "b_blockno (bufs s ! j) \<noteq> ?b"
      using bcD(6) [OF inv that(1) h(1), of ?b] that i h(4) by (auto simp: block_is_def)
    then show ?thesis using bcD(11) [OF inv that] by (simp add: f)
  qed
  have bc': "bc s' H P"
    unfolding bc_def f(1-3)
  proof (intro conjI allI impI ballI)
    show "i1 = j" if "i1 < NBUF" "j < NBUF" "block_is ROOTDEV c (bufs s ! i1)" "block_is ROOTDEV c (bufs s ! j)" for i1 j c
      using bcD(6) [OF inv] that by blast
    show "b_data (bufs s ! j) = disk s' (b_blockno (bufs s ! j))"
      if "j < NBUF" "j \<notin> H" "j \<notin> P" "b_valid (bufs s ! j)" "b_dev (bufs s ! j) = ROOTDEV" for j
      using clean that by blast
  qed (use bcD [OF inv] in auto)
  have "view s' c = view s c" for c
  proof (cases "c = ?b")
    case True
    then show ?thesis using view_cached [OF bc' h(1), of c] view_cached [OF inv h(1), of c] h(3,4) by (simp add: f)
  next
    case False
    then show ?thesis by (intro view_cong) (auto simp: f)
  qed
  then have "view s' = view s" by blast
  moreover have "bwrite i s = Inr s'" using h(5) by (simp add: bwrite_def s')
  ultimately show ?thesis using that [of s'] bc' f by blast
qed

text \<open>Releasing: an unpinned buffer must agree with the disk.\<close>

lemma brelse_ok:
  assumes inv: "bc s H P" and i: "i \<in> H" and clean: "i \<notin> P \<Longrightarrow> get_data i s = disk s (b_blockno (bufs s ! i))"
  obtains s' where "brelse i s = Inr s'" "bc s' (H - {i}) P" "view s' = view s" "disk s' = disk s" "hist s' = hist s"
    "curpid s' = curpid s" "bsys.more s' = bsys.more s" "\<And>j. j \<noteq> i \<Longrightarrow> bufs s' ! j = bufs s ! j"
    "b_blockno (bufs s' ! i) = b_blockno (bufs s ! i)" "get_data i s' = get_data i s"
proof -
  note h = bc_held [OF inv i]
  define B where B: "B = (bufs s ! i)\<lparr>b_lock := releasesleep (b_lock (bufs s ! i)), b_refcnt := b_refcnt (bufs s ! i) - 1\<rparr>"
  define s1 where s1: "s1 = upd_buf i (\<lambda>_. B) s"
  define s' where s': "s' = (if i \<in> P then s1 else s1\<lparr>lru := i # remove1 i (lru s1)\<rparr>)"
  have nth: "bufs s' ! j = (if j = i then B else bufs s ! j)" for j
    using upd_buf_nth [OF h(2)] by (simp add: s' s1)
  have f: "disk s' = disk s" "hist s' = hist s" "curpid s' = curpid s" "bsys.more s' = bsys.more s"
    "length (bufs s') = length (bufs s)" by (simp_all add: s' s1)
  have rc: "b_refcnt (bufs s ! i) = 1 + of_bool (i \<in> P)" using bcD(7) [OF inv h(1)] i by simp
  have l: "distinct (lru s')" "set (lru s') = {..<NBUF}"
    using bcD(2,3) [OF inv] h(1) by (auto simp: s' s1 set_remove1_eq distinct_remove1)
  have eq: "brelse i s = Inr s'"
  proof -
    have "upd_buf i (\<lambda>b. b\<lparr>b_refcnt := b_refcnt b - 1\<rparr>) (upd_buf i (\<lambda>b. b\<lparr>b_lock := releasesleep (b_lock b)\<rparr>) s) = s1"
      unfolding s1 upd_buf_twice by (rule upd_buf_cong) (simp add: B)
    moreover have "b_refcnt (bufs s1 ! i) = 0 \<longleftrightarrow> i \<notin> P" using rc by (simp add: s1 upd_buf_nth [OF h(2)] B)
    ultimately show ?thesis using h(5) by (simp add: brelse_def Let_def s')
  qed
  have blk: "block_is ROOTDEV c (bufs s' ! j) = block_is ROOTDEV c (bufs s ! j)" for c j
    by (simp add: nth B block_is_def)
  have bc': "bc s' (H - {i}) P"
    unfolding bc_def f blk
  proof (intro conjI allI impI ballI)
    show "length (bufs s) = NBUF" "distinct (lru s')" "set (lru s') = {..<NBUF}" "H - {i} \<subseteq> {..<NBUF}" "P \<subseteq> {..<NBUF}"
      using bcD(1,4,5) [OF inv] l by auto
    show "i1 = j" if "i1 < NBUF" "j < NBUF" "block_is ROOTDEV c (bufs s ! i1)" "block_is ROOTDEV c (bufs s ! j)" for i1 j c
      using bcD(6) [OF inv] that by blast
    show "b_refcnt (bufs s' ! j) = of_bool (j \<in> H - {i}) + of_bool (j \<in> P)" if "j < NBUF" for j
      using rc bcD(7) [OF inv that] by (simp add: nth B)
    show "sl_locked (b_lock (bufs s' ! j)) = (j \<in> H - {i})" if "j < NBUF" for j
      using bcD(8) [OF inv that] by (simp add: nth B releasesleep_def)
    show "sl_pid (b_lock (bufs s' ! j)) = curpid s" if "j \<in> H - {i}" for j
      using bcD(9) [OF inv] that by (simp add: nth)
    fix j assume j: "j \<in> H - {i} \<union> P"
    then show "b_valid (bufs s' ! j)" "b_dev (bufs s' ! j) = ROOTDEV"
      using bcD(10) [OF inv, of j] by (auto simp: nth B)
  next
    fix j assume j: "j < NBUF" "j \<notin> H - {i}" "j \<notin> P" "b_valid (bufs s' ! j)" "b_dev (bufs s' ! j) = ROOTDEV"
    show "b_data (bufs s' ! j) = disk s (b_blockno (bufs s' ! j))"
    proof (cases "j = i")
      case True
      then show ?thesis using clean j(3) by (simp add: nth B get_data_def)
    next
      case False
      then show ?thesis using bcD(11) [OF inv, of j] j by (simp add: nth)
    qed
  qed
  have "view s' c = view s c" for c
    by (rule view_cong) (auto simp: nth B block_is_def f)
  then have "view s' = view s" by blast
  then show ?thesis using that [OF eq bc' _ f(1-4)] by (simp add: nth B get_data_def)
qed


lemma refcnt_ok:
  assumes inv: "bc s H P" and i: "i \<in> H" and P': "P' = (if d = 1 then insert i P else P - {i})" "d = 1 \<and> i \<notin> P \<or> d = -1 \<and> i \<in> P"
    and s': "s' = upd_buf i (\<lambda>b. b\<lparr>b_refcnt := b_refcnt b + d\<rparr>) s"
  shows "bc s' H P'" "view s' = view s"
proof -
  note h = bc_held [OF inv i]
  have nth: "bufs s' ! j = (if j = i then (bufs s ! i)\<lparr>b_refcnt := b_refcnt (bufs s ! i) + d\<rparr> else bufs s ! j)" for j
    using upd_buf_nth [OF h(2)] by (simp add: s')
  have f: "lru s' = lru s" "disk s' = disk s" "curpid s' = curpid s" "length (bufs s') = length (bufs s)" by (simp_all add: s')
  have blk: "block_is ROOTDEV c (bufs s' ! j) = block_is ROOTDEV c (bufs s ! j)" for c j by (simp add: nth block_is_def)
  have rest: "b_valid (bufs s' ! j) = b_valid (bufs s ! j)" "b_dev (bufs s' ! j) = b_dev (bufs s ! j)"
    "b_lock (bufs s' ! j) = b_lock (bufs s ! j)" "b_data (bufs s' ! j) = b_data (bufs s ! j)"
    "b_blockno (bufs s' ! j) = b_blockno (bufs s ! j)" for j by (simp_all add: nth)
  show "bc s' H P'"
    unfolding bc_def f blk rest
  proof (intro conjI allI impI ballI)
    show "length (bufs s) = NBUF" "distinct (lru s)" "set (lru s) = {..<NBUF}" "H \<subseteq> {..<NBUF}" "P' \<subseteq> {..<NBUF}"
      using bcD(1-5) [OF inv] h(1) P' by (auto split: if_splits)
    show "i1 = j" if "i1 < NBUF" "j < NBUF" "block_is ROOTDEV c (bufs s ! i1)" "block_is ROOTDEV c (bufs s ! j)" for i1 j c
      using bcD(6) [OF inv] that by blast
    show "b_refcnt (bufs s' ! j) = of_bool (j \<in> H) + of_bool (j \<in> P')" if "j < NBUF" for j
      using bcD(7) [OF inv that] P' i by (auto simp: nth split: if_splits)
    show "sl_locked (b_lock (bufs s ! j)) = (j \<in> H)" if "j < NBUF" for j using bcD(8) [OF inv that] .
    show "sl_pid (b_lock (bufs s ! j)) = curpid s" if "j \<in> H" for j using bcD(9) [OF inv that] .
    fix j assume "j \<in> H \<union> P'"
    then have "j \<in> H \<union> P" using P' i by (auto split: if_splits)
    then show "b_valid (bufs s ! j)" "b_dev (bufs s ! j) = ROOTDEV" using bcD(10) [OF inv] by blast+
  next
    fix j assume j: "j < NBUF" "j \<notin> H" "j \<notin> P'" "b_valid (bufs s ! j)" "b_dev (bufs s ! j) = ROOTDEV"
    then have "j \<notin> P" using P' i by (auto split: if_splits)
    then show "b_data (bufs s ! j) = disk s (b_blockno (bufs s ! j))" using bcD(11) [OF inv j(1,2) _ j(4,5)] by blast
  qed
  show "view s' = view s" by (rule ext, rule view_cong) (auto simp: rest blk f)
qed

lemma bpin_ok:
  assumes "bc s H P" "i \<in> H" "i \<notin> P"
  shows "bc (bpin i s) H (insert i P)" "view (bpin i s) = view s"
  using refcnt_ok [OF assms(1,2), of "insert i P" 1 "bpin i s"] assms(3) by (simp_all add: bpin_def)

lemma bunpin_ok:
  assumes "bc s H P" "i \<in> H" "i \<in> P"
  shows "bc (bunpin i s) H (P - {i})" "view (bunpin i s) = view s"
  using refcnt_ok [OF assms(1,2), of "P - {i}" "-1" "bunpin i s"] assms(3) by (simp_all add: bunpin_def)

lemma pin_bufs:
  assumes "i < length (bufs s)"
  shows "b_blockno (bufs (bpin i s) ! j) = b_blockno (bufs s ! j)" "b_blockno (bufs (bunpin i s) ! j) = b_blockno (bufs s ! j)"
    "get_data j (bpin i s) = get_data j s" "get_data j (bunpin i s) = get_data j s"
  by (simp_all add: bpin_def bunpin_def upd_buf_nth [OF assms] get_data_def)

lemma binit_ok: "bc (binit s) {} {}" "view (binit s) = disk s"
proof -
  have e: "bufs (binit s) ! i = empty_buf" if "i < NBUF" for i using that by (simp add: binit_def)
  have l: "lru (binit s) = rev [0..<NBUF]" by (simp add: binit_def fold_Cons_rev)
  show "bc (binit s) {} {}"
    by (auto simp: bc_def l e block_is_def empty_buf_def ROOTDEV_def initsleeplock_def) (simp add: binit_def)
  show "view (binit s) = disk s"
  proof
    fix b
    have "view (binit s) b = disk (binit s) b" by (rule view_uncached) (simp add: e empty_buf_def)
    then show "view (binit s) b = disk s b" by (simp add: binit_def)
  qed
qed

lemma bget_panics:
  assumes inv: "bc s H P" and full: "H \<union> P = {..<NBUF}" and b: "\<And>i. i < NBUF \<Longrightarrow> b_blockno (bufs s ! i) \<noteq> b"
  shows "bread ROOTDEV b s = Inl (Panic ''bget: no buffers'')"
proof -
  have "List.find (\<lambda>i. block_is ROOTDEV b (bufs s ! i)) (lru s) = None"
    using b bcD(3) [OF inv] by (auto simp: find_None_iff block_is_def)
  moreover have "b_refcnt (bufs s ! i) \<noteq> 0" if "i < NBUF" for i
    using bcD(7) [OF inv that] full that by (auto simp: of_bool_def split: if_splits)
  then have "List.find (\<lambda>i. b_refcnt (bufs s ! i) = 0) (rev (lru s)) = None"
    using bcD(3) [OF inv] by (auto simp: find_None_iff)
  ultimately show ?thesis by (simp add: bread_def bget_def)
qed

section \<open>Properties\<close>

text \<open>
  C9. The buffer cache is transparent: \<^verbatim>\<open>bread\<close> of a block that the process does not already hold, with a
  buffer to spare or the block cached, returns a buffer locked by the process that holds the
  current content of the block; recycling the least recently used buffer loses nothing, no block
  gets a second buffer, and no block reads differently afterwards.
\<close>

theorem bread_transparent:
  assumes "bc s H P" "\<And>i. i \<in> H \<Longrightarrow> b_blockno (bufs s ! i) \<noteq> b"
    "card (H \<union> P) < NBUF \<or> (\<exists>i<NBUF. block_is ROOTDEV b (bufs s ! i))"
  shows "\<exists>i s'. bread ROOTDEV b s = Inr (i, s') \<and> i \<notin> H \<and> bc s' (insert i H) P \<and> view s' = view s \<and>
    get_data i s' = view s b \<and> holdingsleep (curpid s') (b_lock (bufs s' ! i))"
proof -
  obtain i s' where "bread ROOTDEV b s = Inr (i, s')" "bc s' (insert i H) P" "i \<notin> H" "view s' = view s" "get_data i s' = view s b"
    by (rule bread_ok [OF assms]) blast
  moreover from this have "holdingsleep (curpid s') (b_lock (bufs s' ! i))" using bc_held(5) by blast
  ultimately show ?thesis by blast
qed

definition disk0 :: "u32 \<Rightarrow> block" where
  "disk0 b = replicate BSIZE (ucast b)"

definition cache0 :: bsys where
  "cache0 = binit \<lparr>bufs = [], lru = [], disk = disk0, hist = [], curpid = 5\<rparr>"

theorem bread_transparent_witness:
  "\<exists>i s'. bread ROOTDEV 7 cache0 = Inr (i, s') \<and> get_data i s' = replicate BSIZE 7"
proof -
  have "\<exists>i s'. bread ROOTDEV 7 cache0 = Inr (i, s') \<and> i \<notin> {} \<and> bc s' (insert i {}) {} \<and> view s' = view cache0 \<and>
    get_data i s' = view cache0 7 \<and> holdingsleep (curpid s') (b_lock (bufs s' ! i))"
    by (rule bread_transparent) (simp_all add: cache0_def binit_ok riscv_consts)
  then show ?thesis by (auto simp: cache0_def binit_ok disk0_def)
qed

end
