(* ===== verification/Bytes.thy ===== *)
theory Bytes
  imports Kprelude
begin

text \<open>
  Fields of byte blocks: reading and overwriting \<open>n\<close> bytes at an offset, and little-endian words of
  16 and 32 bits. The disk structures of the log, the file system and \<^verbatim>\<open>mkfs\<close> are such fields.
\<close>

definition get_at :: "nat \<Rightarrow> nat \<Rightarrow> u8 list \<Rightarrow> u8 list" where
  "get_at off n d = take n (drop off d)"

definition put_at :: "nat \<Rightarrow> u8 list \<Rightarrow> u8 list \<Rightarrow> u8 list" where
  "put_at off bs d = take off d @ bs @ drop (off + length bs) d"

definition get16 :: "nat \<Rightarrow> u8 list \<Rightarrow> u16" where
  "get16 off d = le_word (get_at off 2 d)"

definition put16 :: "nat \<Rightarrow> u16 \<Rightarrow> u8 list \<Rightarrow> u8 list" where
  "put16 off w d = put_at off (le_bytes 2 w) d"

definition get32 :: "nat \<Rightarrow> u8 list \<Rightarrow> u32" where
  "get32 off d = le_word (get_at off 4 d)"

definition put32 :: "nat \<Rightarrow> u32 \<Rightarrow> u8 list \<Rightarrow> u8 list" where
  "put32 off w d = put_at off (le_bytes 4 w) d"

lemma length_get_at [simp]: "off + n \<le> length d \<Longrightarrow> length (get_at off n d) = n"
  by (simp add: get_at_def)

lemma length_put_at [simp]: "off + length bs \<le> length d \<Longrightarrow> length (put_at off bs d) = length d"
  by (simp add: put_at_def)

lemma nth_get_at: "off + n \<le> length d \<Longrightarrow> i < n \<Longrightarrow> get_at off n d ! i = d ! (off + i)"
  by (simp add: get_at_def)

lemma nth_put_at:
  "off + length bs \<le> length d \<Longrightarrow> i < length d \<Longrightarrow>
    put_at off bs d ! i = (if off \<le> i \<and> i < off + length bs then bs ! (i - off) else d ! i)"
  by (auto simp: put_at_def nth_append min_def not_less)

lemma get_put_same: "off + length bs \<le> length d \<Longrightarrow> n = length bs \<Longrightarrow> get_at off n (put_at off bs d) = bs"
  by (simp add: get_at_def put_at_def)

lemma get_put_other:
  assumes "off + length bs \<le> length d" "off' + n \<le> length d" "off' + n \<le> off \<or> off + length bs \<le> off'"
  shows "get_at off' n (put_at off bs d) = get_at off' n d"
  using assms by (intro nth_equalityI) (auto simp: nth_get_at nth_put_at)

lemma get_get: "i + k \<le> n \<Longrightarrow> off + n \<le> length d \<Longrightarrow> get_at i k (get_at off n d) = get_at (off + i) k d"
  by (intro nth_equalityI) (auto simp: nth_get_at ac_simps)

lemma put_get_same: "off + n \<le> length d \<Longrightarrow> put_at off (get_at off n d) d = d"
  by (intro nth_equalityI) (auto simp: nth_put_at nth_get_at)

lemma put_put_same: "off + length bs \<le> length d \<Longrightarrow> length bs = length bs' \<Longrightarrow> put_at off bs (put_at off bs' d) = put_at off bs d"
  by (intro nth_equalityI) (auto simp: nth_put_at)

named_theorems field_simps_bytes \<open>lengths, and reads of written fields\<close>

lemma length_put16 [simp]: "off + 2 \<le> length d \<Longrightarrow> length (put16 off w d) = length d"
  by (simp add: put16_def)

lemma length_put32 [simp]: "off + 4 \<le> length d \<Longrightarrow> length (put32 off w d) = length d"
  by (simp add: put32_def)

lemma get16_put16 [field_simps_bytes]:
  assumes "off + 2 \<le> length d" "off' + 2 \<le> length d" "off' = off \<or> off' + 2 \<le> off \<or> off + 2 \<le> off'"
  shows "get16 off' (put16 off w d) = (if off' = off then w else get16 off' d)"
  using assms le_word_le_bytes [of 2 w] by (auto simp: get16_def put16_def get_put_same get_put_other)

lemma get32_put32 [field_simps_bytes]:
  assumes "off + 4 \<le> length d" "off' + 4 \<le> length d" "off' = off \<or> off' + 4 \<le> off \<or> off + 4 \<le> off'"
  shows "get32 off' (put32 off w d) = (if off' = off then w else get32 off' d)"
  using assms le_word_le_bytes [of 4 w] by (auto simp: get32_def put32_def get_put_same get_put_other)

lemma get16_put32 [field_simps_bytes]:
  "off + 4 \<le> length d \<Longrightarrow> off' + 2 \<le> length d \<Longrightarrow> off' + 2 \<le> off \<or> off + 4 \<le> off' \<Longrightarrow> get16 off' (put32 off w d) = get16 off' d"
  by (simp add: get16_def put32_def get_put_other)

lemma get32_put16 [field_simps_bytes]:
  "off + 2 \<le> length d \<Longrightarrow> off' + 4 \<le> length d \<Longrightarrow> off' + 4 \<le> off \<or> off + 2 \<le> off' \<Longrightarrow> get32 off' (put16 off w d) = get32 off' d"
  by (simp add: get32_def put16_def get_put_other)

text \<open>Consecutive 32-bit words.\<close>

primrec put_words :: "nat \<Rightarrow> u32 list \<Rightarrow> u8 list \<Rightarrow> u8 list" where
  "put_words off [] d = d"
| "put_words off (w # ws) d = put_words (off + 4) ws (put32 off w d)"

definition get_words :: "nat \<Rightarrow> nat \<Rightarrow> u8 list \<Rightarrow> u32 list" where
  "get_words off n d = map (\<lambda>k. get32 (off + 4 * k) d) [0..<n]"

lemma length_put_words [simp]: "off + 4 * length ws \<le> length d \<Longrightarrow> length (put_words off ws d) = length d"
  by (induction ws arbitrary: off d) simp_all

lemma get32_put_words_before:
  "off + 4 * length ws \<le> length d \<Longrightarrow> off' + 4 \<le> off \<Longrightarrow> get32 off' (put_words off ws d) = get32 off' d"
  by (induction ws arbitrary: off d) (simp_all add: get32_put32)

lemma get32_put_words:
  "off + 4 * length ws \<le> length d \<Longrightarrow> k < length ws \<Longrightarrow> get32 (off + 4 * k) (put_words off ws d) = ws ! k"
proof (induction ws arbitrary: off d k)
  case (Cons w ws)
  show ?case
  proof (cases k)
    case 0
    then show ?thesis using Cons.prems by (simp add: get32_put_words_before get32_put32)
  next
    case (Suc m)
    then show ?thesis using Cons.IH [of "off + 4" "put32 off w d" m] Cons.prems by (simp add: ac_simps)
  qed
qed simp

lemma get_words_put_words: "off + 4 * length ws \<le> length d \<Longrightarrow> get_words off (length ws) (put_words off ws d) = ws"
  by (rule nth_equalityI) (simp_all add: get_words_def get32_put_words)

end
