(* ===== verification/Log.thy ===== *)
theory Log
  imports Bio Bytes
begin

text \<open>
  The write-ahead log (\<^verbatim>\<open>kernel/log.c\<close>) over the buffer cache: transactions, commit and recovery. The
  in-memory header is the list of logged block numbers. A crash keeps a prefix of the writes that
  the disk received and loses everything in memory.
\<close>

section \<open>Operations\<close>

record logsys = bsys +
  start :: u32
  outstanding :: int
  committing :: bool
  ncommit :: int
  lh :: "u32 list"

definition log_block :: "u32 \<Rightarrow> nat \<Rightarrow> u32" where
  "log_block st tail = st + of_nat tail + 1"

primrec install_loop :: "bool \<Rightarrow> nat \<Rightarrow> u32 list \<Rightarrow> 'z logsys_scheme \<Rightarrow> 'z logsys_scheme kres" where
  "install_loop recovering tail [] s = Inr s"
| "install_loop recovering tail (b # bs) s =
     bnd (bread ROOTDEV (log_block (start s) tail) s) (\<lambda>(lbuf, s).
     bnd (bread ROOTDEV b s) (\<lambda>(dbuf, s).
     bnd (bwrite dbuf (set_data dbuf (get_data lbuf s) s)) (\<lambda>s.
     bnd (brelse lbuf (if recovering then s else bunpin dbuf s)) (\<lambda>s.
     bnd (brelse dbuf s) (\<lambda>s. install_loop recovering (Suc tail) bs s)))))"

definition install_trans :: "bool \<Rightarrow> 'z logsys_scheme \<Rightarrow> 'z logsys_scheme kres" where
  "install_trans recovering s = install_loop recovering 0 (lh s) s"

text \<open>A count beyond \<^verbatim>\<open>LOGBLOCKS\<close> would store outside the header; a negative one stores nothing.\<close>

definition read_head :: "'z logsys_scheme \<Rightarrow> 'z logsys_scheme kres" where
  "read_head s = bnd (bread ROOTDEV (start s) s) (\<lambda>(i, s).
     let d = get_data i s; n = sint (get32 0 d) in
     if n > int LOGBLOCKS then Inl (Undef ''read_head: log.lh.block'')
     else brelse i (s\<lparr>lh := get_words 4 (nat n) d\<rparr>))"

definition head_of :: "u32 list \<Rightarrow> block \<Rightarrow> block" where
  "head_of bs d = put_words 4 bs (put32 0 (of_nat (length bs)) d)"

definition write_head :: "'z logsys_scheme \<Rightarrow> 'z logsys_scheme kres" where
  "write_head s = bnd (bread ROOTDEV (start s) s) (\<lambda>(i, s).
     bnd (bwrite i (set_data i (head_of (lh s) (get_data i s)) s)) (\<lambda>s. brelse i s))"

definition recover_from_log :: "'z logsys_scheme \<Rightarrow> 'z logsys_scheme kres" where
  "recover_from_log s = bnd (read_head s) (\<lambda>s. bnd (install_trans True s) (\<lambda>s. write_head (s\<lparr>lh := []\<rparr>)))"

definition initlog :: "u32 \<Rightarrow> 'z logsys_scheme \<Rightarrow> 'z logsys_scheme kres" where
  "initlog logstart s = panic_if (4 + 4 * LOGBLOCKS \<ge> BSIZE) ''initlog: too big logheader'' (
     recover_from_log (s\<lparr>start := logstart\<rparr>))"

definition begin_op :: "'z logsys_scheme \<Rightarrow> 'z logsys_scheme kres" where
  "begin_op s =
     (if committing s then Inl (Sleeps ''log'')
      else if int (length (lh s)) + (outstanding s + 1) * int MAXOPBLOCKS > int LOGBLOCKS then Inl (Sleeps ''log'')
      else Inr (s\<lparr>outstanding := outstanding s + 1\<rparr>))"

primrec write_log_loop :: "nat \<Rightarrow> u32 list \<Rightarrow> 'z logsys_scheme \<Rightarrow> 'z logsys_scheme kres" where
  "write_log_loop tail [] s = Inr s"
| "write_log_loop tail (b # bs) s =
     bnd (bread ROOTDEV (log_block (start s) tail) s) (\<lambda>(to, s).
     bnd (bread ROOTDEV b s) (\<lambda>(from, s).
     bnd (bwrite to (set_data to (get_data from s) s)) (\<lambda>s.
     bnd (brelse from s) (\<lambda>s.
     bnd (brelse to s) (\<lambda>s. write_log_loop (Suc tail) bs s)))))"

definition write_log :: "'z logsys_scheme \<Rightarrow> 'z logsys_scheme kres" where
  "write_log s = write_log_loop 0 (lh s) s"

definition commit :: "'z logsys_scheme \<Rightarrow> 'z logsys_scheme kres" where
  "commit s =
     (if length (lh s) > 0 then
        bnd (write_log s) (\<lambda>s. bnd (write_head s) (\<lambda>s. bnd (install_trans False s) (\<lambda>s.
        write_head (s\<lparr>lh := []\<rparr>))))
      else Inr s)"

definition end_op :: "'z logsys_scheme \<Rightarrow> 'z logsys_scheme kres" where
  "end_op s =
     (let s = s\<lparr>outstanding := outstanding s - 1\<rparr> in
      panic_if (committing s) ''log.committing'' (
      if outstanding s = 0 then
        bnd (commit (s\<lparr>committing := True\<rparr>)) (\<lambda>s. Inr (s\<lparr>committing := False, ncommit := ncommit s + 1\<rparr>))
      else Inr s))"

definition log_write :: "nat \<Rightarrow> 'z logsys_scheme \<Rightarrow> 'z logsys_scheme kres" where
  "log_write i s =
     panic_if (length (lh s) \<ge> LOGBLOCKS) ''too big a transaction'' (
     panic_if (outstanding s < 1) ''log_write outside of trans'' (
     let b = b_blockno (bufs s ! i) in
     if b \<in> set (lh s) then Inr s
     else Inr ((bpin i s)\<lparr>lh := lh s @ [b]\<rparr>)))"

definition sync_wait :: "int \<Rightarrow> 'z logsys_scheme \<Rightarrow> 'z logsys_scheme kres" where
  "sync_wait n s = (if ncommit s < n then Inl (Sleeps ''log'') else Inr s)"

definition sys_sync :: "'z logsys_scheme \<Rightarrow> 'z logsys_scheme kres" where
  "sys_sync s = (if committing s \<or> outstanding s > 0 then sync_wait (ncommit s + 1) s else Inr s)"


section \<open>Copying through the cache\<close>

lemma more_log:
  assumes "bsys.more s' = bsys.more (s :: 'z logsys_scheme)"
  shows "start s' = start s" "lh s' = lh s" "outstanding s' = outstanding s" "committing s' = committing s"
    "ncommit s' = ncommit s"
  using assms by (cases s; cases s'; simp)+

lemma bufs_only:
  assumes "s' = s\<lparr>bufs := x\<rparr>"
  shows "disk s' = disk s" "hist s' = hist s" "curpid s' = curpid s" "bsys.more s' = bsys.more s"
  using assms by simp_all

lemma set_data_fields [simp]:
  "disk (set_data i d s) = disk s" "hist (set_data i d s) = hist s" "bsys.more (set_data i d s) = bsys.more s"
  "i < length (bufs s) \<Longrightarrow> b_blockno (bufs (set_data i d s) ! j) = b_blockno (bufs s ! j)"
  "i < length (bufs s) \<Longrightarrow> j \<noteq> i \<Longrightarrow> bufs (set_data i d s) ! j = bufs s ! j"
  by (simp_all add: set_data_def upd_buf_nth)

lemma clean_view:
  assumes "bc s H P" "\<And>i. i \<in> H \<union> P \<Longrightarrow> b_blockno (bufs s ! i) \<noteq> b"
  shows "view s b = disk s b"
proof (cases "\<exists>i<NBUF. block_is ROOTDEV b (bufs s ! i) \<and> b_valid (bufs s ! i)")
  case True
  then obtain i where i: "i < NBUF" "block_is ROOTDEV b (bufs s ! i)" "b_valid (bufs s ! i)" by blast
  then have "i \<notin> H" "i \<notin> P" using assms(2) by (auto simp: block_is_def)
  then show ?thesis using bcD(11) [OF assms(1) i(1)] i view_cached [OF assms(1) i] by (simp add: block_is_def)
next
  case False
  then show ?thesis by (intro view_uncached) blast
qed

text \<open>One round of \<^verbatim>\<open>write_log\<close>: the pinned block \<open>b\<close> is copied to the log block \<open>lb\<close>.\<close>

lemma write_log_round:
  assumes inv: "bc s {} P" and P: "card P < NBUF" "j \<in> P" "b_blockno (bufs s ! j) = b"
    and lb: "\<And>i. i \<in> P \<Longrightarrow> b_blockno (bufs s ! i) \<noteq> lb"
  obtains s' where "bnd (bread ROOTDEV lb s) (\<lambda>(to, s). bnd (bread ROOTDEV b s) (\<lambda>(from, s).
      bnd (bwrite to (set_data to (get_data from s) s)) (\<lambda>s. bnd (brelse from s) (\<lambda>s. brelse to s)))) = Inr s'"
    "bc s' {} P" "view s' = (view s)(lb := view s b)" "disk s' = (disk s)(lb := view s b)"
    "hist s' = hist s @ [(lb, view s b)]" "bsys.more s' = bsys.more s"
    "\<And>i. i \<in> P \<Longrightarrow> b_blockno (bufs s' ! i) = b_blockno (bufs s ! i)"
proof -
  have bl: "b \<noteq> lb" using lb P(2,3) by blast
  obtain to s1 where 1: "bread ROOTDEV lb s = Inr (to, s1)" "bc s1 {to} P" "view s1 = view s" "b_blockno (bufs s1 ! to) = lb"
    "\<And>i. i \<noteq> to \<Longrightarrow> bufs s1 ! i = bufs s ! i" "s1 = s\<lparr>bufs := bufs s1\<rparr>" "to \<in> P \<Longrightarrow> b_blockno (bufs s ! to) = lb"
    by (rule bread_ok [OF inv, of lb]) (use P(1) in auto)
  have tP: "to \<notin> P" using 1(7) lb by blast
  then have tj: "j \<noteq> to" using P(2) by blast
  have jb: "j < NBUF" "block_is ROOTDEV b (bufs s1 ! j)"
    using bcD(5,10) [OF inv] P(2,3) 1(5) [OF tj] by (auto simp: block_is_def)
  have r: "card ({to} \<union> P) < NBUF \<or> (\<exists>i<NBUF. block_is ROOTDEV b (bufs s1 ! i))" using jb by blast
  have h: "b_blockno (bufs s1 ! i) \<noteq> b" if "i \<in> {to}" for i using that 1(4) bl by simp
  obtain fr s2 where r2: "bread ROOTDEV b s1 = Inr (fr, s2)" "bc s2 (insert fr {to}) P" "fr < NBUF" "fr \<notin> {to}"
    "view s2 = view s1" "get_data fr s2 = view s1 b" "b_blockno (bufs s2 ! fr) = b"
    "\<And>i. i \<noteq> fr \<Longrightarrow> bufs s2 ! i = bufs s1 ! i" "s2 = s1\<lparr>bufs := bufs s2\<rparr>"
    "fr \<in> P \<Longrightarrow> b_blockno (bufs s1 ! fr) = b" "\<And>i. i \<in> P \<Longrightarrow> i \<noteq> fr \<Longrightarrow> b_blockno (bufs s1 ! i) \<noteq> b"
    by (rule bread_ok [OF 1(2) h r]) auto
  note 2 = r2(1,2,4-6,8,9,7,11)
  have fj: "fr = j" using 2(9) [OF P(2)] 1(5) [OF tj] P(3) by auto
  define s3 where s3: "s3 = set_data to (get_data fr s2) s2"
  have tl: "to < length (bufs s2)" using bc_held(2) [OF 2(2)] by simp
  have t2: "b_blockno (bufs s2 ! to) = lb" using 2(6) [of to] 2(3) 1(4) by simp
  note 3 = set_data_ok [OF 2(2), of to "get_data fr s2", folded s3]
  obtain s4 where 4: "bwrite to s3 = Inr s4" "bc s4 {fr, to} P" "view s4 = view s3"
    "disk s4 = (disk s3)(b_blockno (bufs s3 ! to) := get_data to s3)"
    "hist s4 = hist s3 @ [(b_blockno (bufs s3 ! to), get_data to s3)]" "bufs s4 = bufs s3" "bsys.more s4 = bsys.more s3"
    by (rule bwrite_ok [OF 3(1), of to]) simp_all
  obtain s5 where 5: "brelse fr s4 = Inr s5" "bc s5 ({fr, to} - {fr}) P" "view s5 = view s4" "disk s5 = disk s4" "hist s5 = hist s4"
    "bsys.more s5 = bsys.more s4" "\<And>i. i \<noteq> fr \<Longrightarrow> bufs s5 ! i = bufs s4 ! i" "b_blockno (bufs s5 ! fr) = b_blockno (bufs s4 ! fr)"
    by (rule brelse_ok [OF 4(2), of fr]) (use fj P(2) in auto)
  have g5: "get_data to s5 = view s b" "b_blockno (bufs s5 ! to) = lb" "disk s5 = (disk s)(lb := view s b)"
    using 5(4) 5(7) [of to] 2(3) 4(4,6) 3(3) t2 tl 2(5) 1(3) bufs_only(1) [OF 2(7)] bufs_only(1) [OF 1(6)]
    by (simp_all add: get_data_def s3)
  have H5: "{fr, to} - {fr} = {to}" using 2(3) by auto
  obtain s6 where 6: "brelse to s5 = Inr s6" "bc s6 ({to} - {to}) P" "view s6 = view s5" "disk s6 = disk s5" "hist s6 = hist s5"
    "bsys.more s6 = bsys.more s5" "\<And>i. i \<noteq> to \<Longrightarrow> bufs s6 ! i = bufs s5 ! i"
    by (rule brelse_ok [OF 5(2) [unfolded H5], of to]) (use g5 in auto)
  show ?thesis
  proof (rule that [of s6])
    show "bnd (bread ROOTDEV lb s) (\<lambda>(to, s). bnd (bread ROOTDEV b s) (\<lambda>(from, s).
        bnd (bwrite to (set_data to (get_data from s) s)) (\<lambda>s. bnd (brelse from s) (\<lambda>s. brelse to s)))) = Inr s6"
      using 1(1) 2(1) 4(1) 5(1) 6(1) by (simp add: s3)
    show "bc s6 {} P" using 6(2) by simp
    show "view s6 = (view s)(lb := view s b)"
      using 6(3) 5(3) 4(3) 3(2) t2 2(4,5) 1(3) by simp
    show "disk s6 = (disk s)(lb := view s b)" using 6(4) g5(3) by simp
    show "hist s6 = hist s @ [(lb, view s b)]"
      using 6(5) 5(5) 4(5) t2 tl 3(3) 2(5) 1(3) bufs_only(2) [OF 2(7)] bufs_only(2) [OF 1(6)] by (simp add: s3)
    show "bsys.more s6 = bsys.more s"
      using 6(6) 5(6) 4(7) bufs_only(4) [OF 2(7)] bufs_only(4) [OF 1(6)] by (simp add: s3)
    show "b_blockno (bufs s6 ! i) = b_blockno (bufs s ! i)" if "i \<in> P" for i
    proof -
      have "i \<noteq> to" using that tP by blast
      then have "b_blockno (bufs s6 ! i) = b_blockno (bufs s4 ! i)" using 6(7) 5(7,8) by (cases "i = fr") auto
      also have "\<dots> = b_blockno (bufs s2 ! i)" using 4(6) tl by (simp add: s3)
      also have "\<dots> = b_blockno (bufs s ! i)" using 2(6,8) 1(5) \<open>i \<noteq> to\<close> fj P(3) by (cases "i = fr") auto
      finally show ?thesis .
    qed
  qed
qed


text \<open>
  One round of \<^verbatim>\<open>install_trans\<close>: the log block \<open>lb\<close> is copied to the home block \<open>b\<close>, which is unpinned
  unless the log is being recovered.
\<close>

lemma install_round:
  assumes inv: "bc s {} P" and P: "card P < NBUF" "recovering \<Longrightarrow> Suc (card P) < NBUF" and j: "\<not> recovering \<Longrightarrow> j \<in> P" "\<not> recovering \<Longrightarrow> b_blockno (bufs s ! j) = b"
    and lb: "\<And>i. i \<in> P \<Longrightarrow> b_blockno (bufs s ! i) \<noteq> lb" "b \<noteq> lb"
  obtains s' where "bnd (bread ROOTDEV lb s) (\<lambda>(lbuf, s). bnd (bread ROOTDEV b s) (\<lambda>(dbuf, s).
      bnd (bwrite dbuf (set_data dbuf (get_data lbuf s) s)) (\<lambda>s.
      bnd (brelse lbuf (if recovering then s else bunpin dbuf s)) (\<lambda>s. brelse dbuf s)))) = Inr s'"
    "bc s' {} (if recovering then P else P - {j})" "view s' = (view s)(b := view s lb)" "disk s' = (disk s)(b := view s lb)"
    "hist s' = hist s @ [(b, view s lb)]" "bsys.more s' = bsys.more s"
    "\<And>i. i \<in> P \<Longrightarrow> b_blockno (bufs s' ! i) = b_blockno (bufs s ! i)"
proof -
  obtain l s1 where 1: "bread ROOTDEV lb s = Inr (l, s1)" "bc s1 {l} P" "view s1 = view s" "get_data l s1 = view s lb" "b_blockno (bufs s1 ! l) = lb"
    "\<And>i. i \<noteq> l \<Longrightarrow> bufs s1 ! i = bufs s ! i" "s1 = s\<lparr>bufs := bufs s1\<rparr>" "l \<in> P \<Longrightarrow> b_blockno (bufs s ! l) = lb"
    by (rule bread_ok [OF inv, of lb]) (use P(1) in auto)
  have lP: "l \<notin> P" using 1(8) lb by blast
  have fin: "finite P" using bcD(5) [OF inv] finite_subset by blast
  have r: "card ({l} \<union> P) < NBUF \<or> (\<exists>i<NBUF. block_is ROOTDEV b (bufs s1 ! i))"
  proof (cases recovering)
    case False
    then have "j \<noteq> l" using j(1) lP by blast
    then have "j < NBUF" "block_is ROOTDEV b (bufs s1 ! j)"
      using j [OF False] bcD(5,10) [OF inv] 1(6) [of j] lP by (auto simp: block_is_def)
    then show ?thesis by blast
  qed (use P(2) lP fin in simp)
  have h: "b_blockno (bufs s1 ! i) \<noteq> b" if "i \<in> {l}" for i using that 1(5) lb(2) by simp
  obtain d s2 where 2: "bread ROOTDEV b s1 = Inr (d, s2)" "bc s2 (insert d {l}) P" "d < NBUF" "d \<notin> {l}"
    "view s2 = view s1" "get_data d s2 = view s1 b" "b_blockno (bufs s2 ! d) = b"
    "\<And>i. i \<noteq> d \<Longrightarrow> bufs s2 ! i = bufs s1 ! i" "s2 = s1\<lparr>bufs := bufs s2\<rparr>"
    "d \<in> P \<Longrightarrow> b_blockno (bufs s1 ! d) = b" "\<And>i. i \<in> P \<Longrightarrow> i \<noteq> d \<Longrightarrow> b_blockno (bufs s1 ! i) \<noteq> b"
    by (rule bread_ok [OF 1(2) h r]) auto
  have dj: "d = j" if "\<not> recovering" using 2(11) [OF j(1) [OF that]] 1(6) [of j] lP j [OF that] by (cases "j = l") auto
  define s3 where s3: "s3 = set_data d (get_data l s2) s2"
  have dl: "d < length (bufs s2)" "l \<noteq> d" using bc_held(2) [OF 2(2), of d] 2(4) by auto
  have gl: "get_data l s2 = view s lb" "b_blockno (bufs s2 ! l) = lb" using 2(8) [OF dl(2)] 1(4,5) by (simp_all add: get_data_def)
  note 3 = set_data_ok [OF 2(2), of d "get_data l s2", folded s3]
  obtain s4 where 4: "bwrite d s3 = Inr s4" "bc s4 {d, l} P" "view s4 = view s3"
    "disk s4 = (disk s3)(b_blockno (bufs s3 ! d) := get_data d s3)"
    "hist s4 = hist s3 @ [(b_blockno (bufs s3 ! d), get_data d s3)]" "bufs s4 = bufs s3" "bsys.more s4 = bsys.more s3"
    by (rule bwrite_ok [OF 3(1), of d]) simp_all
  define s5 where s5: "s5 = (if recovering then s4 else bunpin d s4)"
  define Q where Q: "Q = (if recovering then P else P - {j})"
  have d4: "d < length (bufs s4)" using bc_held(2) [OF 4(2), of d] by simp
  have 5: "bc s5 {d, l} Q" "view s5 = view s4" using bunpin_ok [OF 4(2), of d] 4(2) dj j by (auto simp: s5 Q)
  have b5: "b_blockno (bufs s5 ! i) = b_blockno (bufs s2 ! i)" "get_data i s5 = get_data i s3" "disk s5 = disk s4" "hist s5 = hist s4"
    "bsys.more s5 = bsys.more s4" for i
    using pin_bufs [OF d4] 4(6) dl(1) by (simp_all add: s5 s3 get_data_def bunpin_def)
  have disk5: "disk s5 = (disk s)(b := view s lb)"
    using b5(3) 4(4) 3(3) 2(7) dl(1) gl(1) bufs_only(1) [OF 2(9)] bufs_only(1) [OF 1(7)] by (simp add: s3)
  have lc: "get_data l s5 = disk s5 (b_blockno (bufs s5 ! l))"
    using disk5 b5(1,2) [of l] gl dl lb(2) clean_view [OF inv, of lb] lb(1) by (simp add: s3 get_data_def)
  obtain s6 where 6: "brelse l s5 = Inr s6" "bc s6 ({d, l} - {l}) Q" "view s6 = view s5" "disk s6 = disk s5" "hist s6 = hist s5"
    "bsys.more s6 = bsys.more s5" "\<And>i. i \<noteq> l \<Longrightarrow> bufs s6 ! i = bufs s5 ! i" "b_blockno (bufs s6 ! l) = b_blockno (bufs s5 ! l)"
    by (rule brelse_ok [OF 5(1), of l]) (use lc in auto)
  have H6: "{d, l} - {l} = {d}" using dl(2) by auto
  have dc: "get_data d s6 = disk s6 (b_blockno (bufs s6 ! d))"
    using 6(4) disk5 6(7) [of d] b5(1,2) [of d] dl 3(3) gl(1) 2(7) by (simp add: get_data_def)
  obtain s7 where 7: "brelse d s6 = Inr s7" "bc s7 ({d} - {d}) Q" "view s7 = view s6" "disk s7 = disk s6" "hist s7 = hist s6"
    "bsys.more s7 = bsys.more s6" "\<And>i. i \<noteq> d \<Longrightarrow> bufs s7 ! i = bufs s6 ! i" "b_blockno (bufs s7 ! d) = b_blockno (bufs s6 ! d)"
    by (rule brelse_ok [OF 6(2) [unfolded H6], of d]) (use dc in auto)
  show ?thesis
  proof (rule that [of s7])
    show "bnd (bread ROOTDEV lb s) (\<lambda>(lbuf, s). bnd (bread ROOTDEV b s) (\<lambda>(dbuf, s).
      bnd (bwrite dbuf (set_data dbuf (get_data lbuf s) s)) (\<lambda>s.
      bnd (brelse lbuf (if recovering then s else bunpin dbuf s)) (\<lambda>s. brelse dbuf s)))) = Inr s7"
      using 1(1) 2(1) 4(1) 6(1) 7(1) by (simp add: s3 s5 [symmetric])
    show "bc s7 {} (if recovering then P else P - {j})" using 7(2) by (simp add: Q)
    show "view s7 = (view s)(b := view s lb)" using 7(3) 6(3) 5(2) 4(3) 3(2) 2(5,7) 1(3) gl(1) by simp
    show "disk s7 = (disk s)(b := view s lb)" using 7(4) 6(4) disk5 by simp
    show "hist s7 = hist s @ [(b, view s lb)]"
      using 7(5) 6(5) b5(4) 4(5) 3(3) dl(1) 2(7) gl(1) bufs_only(2) [OF 2(9)] bufs_only(2) [OF 1(7)] by (simp add: s3)
    show "bsys.more s7 = bsys.more s"
      using 7(6) 6(6) b5(5) 4(7) bufs_only(4) [OF 2(9)] bufs_only(4) [OF 1(7)] by (simp add: s3)
    show "b_blockno (bufs s7 ! i) = b_blockno (bufs s ! i)" if "i \<in> P" for i
    proof -
      have "i \<noteq> l" using that lP by blast
      then have "b_blockno (bufs s7 ! i) = b_blockno (bufs s2 ! i)" using 7(7,8) 6(7) b5(1) by (cases "i = d") auto
      also have "\<dots> = b_blockno (bufs s ! i)" using 2(7,8,10) 1(6) \<open>i \<noteq> l\<close> that by (cases "i = d") auto
      finally show ?thesis .
    qed
  qed
qed


section \<open>Sequences of disk writes\<close>

definition apply_writes :: "(u32 \<Rightarrow> block) \<Rightarrow> (u32 \<times> block) list \<Rightarrow> u32 \<Rightarrow> block" where
  "apply_writes d ws = foldl (\<lambda>d (b, x). d(b := x)) d ws"

lemma apply_writes_simps [simp]:
  "apply_writes d [] = d" "apply_writes d (w # ws) = apply_writes (d(fst w := snd w)) ws"
  "apply_writes d (ws @ ws') = apply_writes (apply_writes d ws) ws'"
  by (simp_all add: apply_writes_def case_prod_beta)

lemma apply_writes_other: "b \<notin> fst ` set ws \<Longrightarrow> apply_writes d ws b = d b"
  by (induction ws arbitrary: d) auto

text \<open>The writes that copy the blocks to the log, and those that copy them home.\<close>

fun to_log :: "u32 \<Rightarrow> nat \<Rightarrow> u32 list \<Rightarrow> (u32 \<Rightarrow> block) \<Rightarrow> (u32 \<times> block) list" where
  "to_log st t [] v = []"
| "to_log st t (b # bs) v = (log_block st t, v b) # to_log st (Suc t) bs v"

fun to_home :: "u32 \<Rightarrow> nat \<Rightarrow> u32 list \<Rightarrow> (u32 \<Rightarrow> block) \<Rightarrow> (u32 \<times> block) list" where
  "to_home st t [] v = []"
| "to_home st t (b # bs) v = (b, v (log_block st t)) # to_home st (Suc t) bs v"

definition log_area :: "u32 \<Rightarrow> nat \<Rightarrow> nat \<Rightarrow> u32 set" where
  "log_area st t n = log_block st ` {t..<t + n}"

lemma log_area_Suc: "log_area st t (Suc n) = insert (log_block st t) (log_area st (Suc t) n)"
proof -
  have "{t..<t + Suc n} = insert t {Suc t..<Suc t + n}" by auto
  then show ?thesis by (simp add: log_area_def)
qed

lemma to_log_cong: "(\<And>b. b \<in> set bs \<Longrightarrow> v b = v' b) \<Longrightarrow> to_log st t bs v = to_log st t bs v'"
  by (induction st t bs v rule: to_log.induct) auto

lemma to_home_cong: "(\<And>b. b \<in> log_area st t (length bs) \<Longrightarrow> v b = v' b) \<Longrightarrow> to_home st t bs v = to_home st t bs v'"
  by (induction st t bs v rule: to_home.induct) (auto simp: log_area_Suc)

lemma to_log_blocks: "fst ` set (to_log st t bs v) = log_area st t (length bs)"
  by (induction st t bs v rule: to_log.induct) (auto simp: log_area_Suc, auto simp: log_area_def)

lemma to_home_blocks: "fst ` set (to_home st t bs v) = set bs"
  by (induction st t bs v rule: to_home.induct) auto

lemma write_log_loop_ok:
  assumes "bc s {} P" "card P < NBUF" "set bs \<subseteq> (\<lambda>i. b_blockno (bufs s ! i)) ` P"
    "(\<lambda>i. b_blockno (bufs s ! i)) ` P \<inter> log_area (start s) t (length bs) = {}"
  shows "\<exists>s'. write_log_loop t bs s = Inr s' \<and> bc s' {} P \<and> view s' = apply_writes (view s) (to_log (start s) t bs (view s)) \<and>
    disk s' = apply_writes (disk s) (to_log (start s) t bs (view s)) \<and> hist s' = hist s @ to_log (start s) t bs (view s) \<and>
    bsys.more s' = bsys.more s \<and> (\<forall>i\<in>P. b_blockno (bufs s' ! i) = b_blockno (bufs s ! i))"
  using assms
proof (induction bs arbitrary: t s)
  case Nil
  then show ?case by simp
next
  case (Cons b bs)
  let ?lb = "log_block (start s) t"
  obtain j where j: "j \<in> P" "b_blockno (bufs s ! j) = b" using Cons.prems(3) by auto
  have lb: "b_blockno (bufs s ! i) \<noteq> ?lb" if "i \<in> P" for i
    using Cons.prems(4) imageI [OF that, of "\<lambda>i. b_blockno (bufs s ! i)"] unfolding length_Cons log_area_Suc by auto
  obtain s1 where 1: "bnd (bread ROOTDEV ?lb s) (\<lambda>(to, s). bnd (bread ROOTDEV b s) (\<lambda>(from, s).
      bnd (bwrite to (set_data to (get_data from s) s)) (\<lambda>s. bnd (brelse from s) (\<lambda>s. brelse to s)))) = Inr s1"
    "bc s1 {} P" "view s1 = (view s)(?lb := view s b)" "disk s1 = (disk s)(?lb := view s b)"
    "hist s1 = hist s @ [(?lb, view s b)]" "bsys.more s1 = bsys.more s"
    "\<And>i. i \<in> P \<Longrightarrow> b_blockno (bufs s1 ! i) = b_blockno (bufs s ! i)"
    by (rule write_log_round [OF Cons.prems(1,2) j lb]) auto
  have im: "(\<lambda>i. b_blockno (bufs s1 ! i)) ` P = (\<lambda>i. b_blockno (bufs s ! i)) ` P" using 1(7) by (rule image_cong [OF refl])
  have st: "start s1 = start s" using more_log(1) [OF 1(6)] .
  have "\<exists>s'. write_log_loop (Suc t) bs s1 = Inr s' \<and> bc s' {} P \<and> view s' = apply_writes (view s1) (to_log (start s1) (Suc t) bs (view s1)) \<and>
    disk s' = apply_writes (disk s1) (to_log (start s1) (Suc t) bs (view s1)) \<and> hist s' = hist s1 @ to_log (start s1) (Suc t) bs (view s1) \<and>
    bsys.more s' = bsys.more s1 \<and> (\<forall>i\<in>P. b_blockno (bufs s' ! i) = b_blockno (bufs s1 ! i))"
    by (rule Cons.IH) (use Cons.prems 1(2) im st in \<open>auto simp: log_area_Suc\<close>)
  moreover have "to_log (start s1) (Suc t) bs (view s1) = to_log (start s) (Suc t) bs (view s)"
    unfolding st by (rule to_log_cong) (use 1(3) Cons.prems(3,4) in \<open>auto simp: log_area_Suc\<close>)
  moreover have "write_log_loop t (b # bs) s = write_log_loop (Suc t) bs s1"
    using arg_cong [OF 1(1), of "\<lambda>m. bnd m (write_log_loop (Suc t) bs)"]
    unfolding write_log_loop.simps bnd_assoc case_prod_beta by simp
  ultimately show ?case using 1(3-7) by auto
qed


lemma pinned_remove:
  assumes "bc s H P" "j \<in> P" "b_blockno (bufs s ! j) = b"
  shows "(\<lambda>i. b_blockno (bufs s ! i)) ` (P - {j}) = (\<lambda>i. b_blockno (bufs s ! i)) ` P - {b}"
proof -
  have blk: "i < NBUF" "block_is ROOTDEV (b_blockno (bufs s ! i)) (bufs s ! i)" if "i \<in> P" for i
    using that bcD(5,10) [OF assms(1)] by (auto simp: block_is_def)
  have uniq: "i = j" if "i \<in> P" "b_blockno (bufs s ! i) = b" for i
    by (rule bcD(6) [OF assms(1) blk(1) [OF that(1)] blk(1) [OF assms(2)], of b])
      (use blk(2) [OF that(1)] blk(2) [OF assms(2)] that(2) assms(3) in simp_all)
  show ?thesis
  proof (intro equalityI subsetI)
    fix x assume "x \<in> (\<lambda>i. b_blockno (bufs s ! i)) ` (P - {j})"
    then obtain i where "i \<in> P" "i \<noteq> j" "x = b_blockno (bufs s ! i)" by blast
    then show "x \<in> (\<lambda>i. b_blockno (bufs s ! i)) ` P - {b}" using uniq by blast
  next
    fix x assume "x \<in> (\<lambda>i. b_blockno (bufs s ! i)) ` P - {b}"
    then obtain i where "i \<in> P" "x = b_blockno (bufs s ! i)" "x \<noteq> b" by blast
    then show "x \<in> (\<lambda>i. b_blockno (bufs s ! i)) ` (P - {j})" using assms(3) by blast
  qed
qed

lemma install_loop_ok:
  assumes "bc s {} P" "card P < NBUF" "distinct bs" "set bs \<inter> log_area (start s) t (length bs) = {}"
    "if recovering then P = {} else (\<lambda>i. b_blockno (bufs s ! i)) ` P = set bs"
  shows "\<exists>s'. install_loop recovering t bs s = Inr s' \<and> bc s' {} {} \<and> view s' = apply_writes (view s) (to_home (start s) t bs (view s)) \<and>
    disk s' = apply_writes (disk s) (to_home (start s) t bs (view s)) \<and> hist s' = hist s @ to_home (start s) t bs (view s) \<and>
    bsys.more s' = bsys.more s"
  using assms
proof (induction bs arbitrary: t s P)
  case Nil
  then show ?case by (auto split: if_splits)
next
  case (Cons b bs)
  let ?lb = "log_block (start s) t" and ?n = "\<lambda>s i. b_blockno (bufs s ! i)"
  have b: "b \<noteq> ?lb" "?lb \<notin> set bs" "b \<notin> log_area (start s) (Suc t) (length bs)" "b \<notin> set bs"
    using Cons.prems(3,4) by (auto simp: log_area_Suc)
  have j: "\<not> recovering \<Longrightarrow> \<exists>j\<in>P. ?n s j = b"
  proof -
    assume "\<not> recovering"
    then have "b \<in> ?n s ` P" using Cons.prems(5) by simp
    then show ?thesis by blast
  qed
  then obtain j where j: "\<not> recovering \<longrightarrow> j \<in> P \<and> ?n s j = b" by (cases recovering) auto
  have lb: "?n s i \<noteq> ?lb" if "i \<in> P" for i
  proof (cases recovering)
    case False
    then have "?n s i \<in> set (b # bs)" using Cons.prems(5) imageI [OF that, of "?n s"] by simp
    then show ?thesis using b by auto
  qed (use Cons.prems(5) that in simp)
  define Q where "Q = (if recovering then P else P - {j})"
  obtain s1 where 1: "bnd (bread ROOTDEV ?lb s) (\<lambda>(lbuf, s). bnd (bread ROOTDEV b s) (\<lambda>(dbuf, s).
      bnd (bwrite dbuf (set_data dbuf (get_data lbuf s) s)) (\<lambda>s.
      bnd (brelse lbuf (if recovering then s else bunpin dbuf s)) (\<lambda>s. brelse dbuf s)))) = Inr s1"
    "bc s1 {} Q" "view s1 = (view s)(b := view s ?lb)" "disk s1 = (disk s)(b := view s ?lb)"
    "hist s1 = hist s @ [(b, view s ?lb)]" "bsys.more s1 = bsys.more s" "\<And>i. i \<in> P \<Longrightarrow> ?n s1 i = ?n s i"
    unfolding Q_def by (rule install_round [OF Cons.prems(1,2) _ _ _ lb b(1), where j = j and recovering = recovering]) (use j Cons.prems(5) in \<open>auto simp: NBUF_def MAXOPBLOCKS_def\<close>)
  have st: "start s1 = start s" using more_log(1) [OF 1(6)] .
  have Q: "card Q < NBUF" "if recovering then Q = {} else ?n s1 ` Q = set bs"
  proof -
    show "card Q < NBUF" using Cons.prems(2) card_Diff1_le [of P j] by (auto simp: Q_def)
    have "?n s1 ` Q = ?n s ` Q" by (rule image_cong [OF refl]) (use 1(7) in \<open>auto simp: Q_def split: if_splits\<close>)
    then show "if recovering then Q = {} else ?n s1 ` Q = set bs"
      using pinned_remove [OF Cons.prems(1), of j] j Cons.prems(5) b(4) by (cases recovering) (simp_all add: Q_def)
  qed
  have "\<exists>s'. install_loop recovering (Suc t) bs s1 = Inr s' \<and> bc s' {} {} \<and>
    view s' = apply_writes (view s1) (to_home (start s1) (Suc t) bs (view s1)) \<and>
    disk s' = apply_writes (disk s1) (to_home (start s1) (Suc t) bs (view s1)) \<and>
    hist s' = hist s1 @ to_home (start s1) (Suc t) bs (view s1) \<and> bsys.more s' = bsys.more s1"
    by (rule Cons.IH [OF 1(2) Q(1) _ _ Q(2)]) (use Cons.prems(3,4) st in \<open>auto simp: log_area_Suc\<close>)
  moreover have "to_home (start s1) (Suc t) bs (view s1) = to_home (start s) (Suc t) bs (view s)"
    unfolding st by (rule to_home_cong) (use 1(3) b(3) in auto)
  moreover have "install_loop recovering t (b # bs) s = install_loop recovering (Suc t) bs s1"
    using arg_cong [OF 1(1), of "\<lambda>m. bnd m (install_loop recovering (Suc t) bs)"]
    unfolding install_loop.simps bnd_assoc case_prod_beta by simp
  ultimately show ?case using 1(3-6) by (simp only: to_home.simps apply_writes_simps fst_conv snd_conv append_assoc append.simps)
qed


section \<open>The header block\<close>

lemma bc_lh [simp]: "bc (s\<lparr>lh := x\<rparr>) H P = bc s H P" "view (s\<lparr>lh := x\<rparr>) = view s"
  by (auto simp: bc_def view_def fun_eq_iff split: option.split)

lemma bc_start [simp]: "bc (s\<lparr>start := x\<rparr>) H P = bc s H P" "view (s\<lparr>start := x\<rparr>) = view s"
  by (auto simp: bc_def view_def fun_eq_iff split: option.split)

lemma lh_data [simp]: "get_data i (s\<lparr>lh := x\<rparr>) = get_data i s"
  by (simp add: get_data_def)

text \<open>Reading the header back.\<close>

lemma head_roundtrip:
  assumes "length d = BSIZE" "length bs \<le> LOGBLOCKS"
  shows "length (head_of bs d) = BSIZE" "get32 0 (head_of bs d) = of_nat (length bs)"
    "sint (get32 0 (head_of bs d)) = int (length bs)" "get_words 4 (length bs) (head_of bs d) = bs"
proof -
  have b: "length bs \<le> 30" "BSIZE = 1024" using assms(2) by (simp_all add: BSIZE_def LOGBLOCKS_def MAXOPBLOCKS_def)
  show "length (head_of bs d) = BSIZE" "get32 0 (head_of bs d) = of_nat (length bs)" "get_words 4 (length bs) (head_of bs d) = bs"
    using assms b by (simp_all add: head_of_def get32_put_words_before get32_put32 get_words_put_words)
  then show "sint (get32 0 (head_of bs d)) = int (length bs)"
    using b(1) by (simp add: signed_of_nat signed_take_bit_int_eq_self)
qed

lemma write_head_ok:
  assumes inv: "bc s {} P" and P: "card P < NBUF" "start s \<notin> (\<lambda>i. b_blockno (bufs s ! i)) ` P"
  defines "d \<equiv> head_of (lh s) (view s (start s))"
  obtains s' where "write_head s = Inr s'" "bc s' {} P" "view s' = (view s)(start s := d)" "disk s' = (disk s)(start s := d)"
    "hist s' = hist s @ [(start s, d)]" "bsys.more s' = bsys.more s"
    "\<And>i. i \<in> P \<Longrightarrow> b_blockno (bufs s' ! i) = b_blockno (bufs s ! i)"
proof -
  obtain i s1 where 1: "bread ROOTDEV (start s) s = Inr (i, s1)" "bc s1 {i} P" "view s1 = view s" "get_data i s1 = view s (start s)"
    "b_blockno (bufs s1 ! i) = start s" "\<And>j. j \<noteq> i \<Longrightarrow> bufs s1 ! j = bufs s ! j" "s1 = s\<lparr>bufs := bufs s1\<rparr>" "i \<in> P \<Longrightarrow> b_blockno (bufs s ! i) = start s"
    by (rule bread_ok [OF inv, of "start s"]) (use P(1) in auto)
  have iP: "i \<notin> P" using 1(8) P(2) by (metis imageI)
  note same = bufs_only [OF 1(7)]
  note log = more_log [OF same(4)]
  define s2 where s2: "s2 = set_data i d s1"
  have il: "i < length (bufs s1)" using bc_held(2) [OF 1(2)] by simp
  note 2 = set_data_ok [OF 1(2), of i d, folded s2]
  obtain s3 where 3: "bwrite i s2 = Inr s3" "bc s3 {i} P" "view s3 = view s2"
    "disk s3 = (disk s2)(b_blockno (bufs s2 ! i) := get_data i s2)"
    "hist s3 = hist s2 @ [(b_blockno (bufs s2 ! i), get_data i s2)]" "bufs s3 = bufs s2" "bsys.more s3 = bsys.more s2"
    by (rule bwrite_ok [OF 2(1), of i]) simp_all
  have d3: "disk s3 = (disk s)(start s := d)" "get_data i s3 = d" "b_blockno (bufs s3 ! i) = start s"
    using 3(4,6) 2(3) il 1(5) same(1) by (simp_all add: s2 get_data_def)
  obtain s4 where 4: "brelse i s3 = Inr s4" "bc s4 ({i} - {i}) P" "view s4 = view s3" "disk s4 = disk s3" "hist s4 = hist s3"
    "bsys.more s4 = bsys.more s3" "\<And>j. j \<noteq> i \<Longrightarrow> bufs s4 ! j = bufs s3 ! j"
    by (rule brelse_ok [OF 3(2), of i]) (use d3 in auto)
  show ?thesis
  proof (rule that [of s4])
    show "write_head s = Inr s4" using 1(1,4) 3(1) 4(1) log(2) by (simp add: write_head_def s2 d_def)
    show "bc s4 {} P" using 4(2) by simp
    show "view s4 = (view s)(start s := d)" using 4(3) 3(3) 2(2) 1(3,5) by simp
    show "disk s4 = (disk s)(start s := d)" using 4(4) d3(1) by simp
    show "hist s4 = hist s @ [(start s, d)]" using 4(5) 3(5) 2(3) il 1(5) same(2) by (simp add: s2)
    show "bsys.more s4 = bsys.more s" using 4(6) 3(7) same(4) by (simp add: s2)
    show "b_blockno (bufs s4 ! j) = b_blockno (bufs s ! j)" if "j \<in> P" for j
    proof -
      have "j \<noteq> i" using that iP by blast
      then show ?thesis using 4(7) 3(6) 1(6) il by (simp add: s2)
    qed
  qed
qed

lemma read_head_ok:
  assumes inv: "bc s {} {}" and n: "sint (get32 0 (view s (start s))) = int k" "k \<le> LOGBLOCKS"
  obtains s' where "read_head s = Inr s'" "bc s' {} {}" "view s' = view s" "disk s' = disk s" "hist s' = hist s"
    "start s' = start s" "lh s' = get_words 4 k (view s (start s))"
proof -
  obtain i s1 where 1: "bread ROOTDEV (start s) s = Inr (i, s1)" "bc s1 {i} {}" "view s1 = view s" "get_data i s1 = view s (start s)"
    "b_blockno (bufs s1 ! i) = start s" "s1 = s\<lparr>bufs := bufs s1\<rparr>"
    by (rule bread_ok [OF inv, of "start s"]) (auto simp: NBUF_def MAXOPBLOCKS_def)
  note same = bufs_only [OF 1(6)]
  let ?s = "s1\<lparr>lh := get_words 4 k (view s (start s))\<rparr>"
  have b: "bc ?s {i} {}" using 1(2) by simp
  have c: "get_data i ?s = disk ?s (b_blockno (bufs ?s ! i))"
    using 1(4,5) same(1) clean_view [OF inv, of "start s"] by simp
  obtain s2 where 2: "brelse i ?s = Inr s2" "bc s2 ({i} - {i}) {}" "view s2 = view ?s" "disk s2 = disk ?s" "hist s2 = hist ?s"
    "bsys.more s2 = bsys.more ?s"
    by (rule brelse_ok [OF b, of i]) (use c in auto)
  have "read_head s = Inr s2" using 1(1,4) 2(1) n by (simp add: read_head_def)
  then show ?thesis
    using that [of s2] 2 1(3) same more_log(1,2) [OF 2(6)] more_log(1) [OF same(4)] by simp
qed


section \<open>Commit and recovery\<close>

definition log_region :: "u32 \<Rightarrow> u32 set" where
  "log_region st = insert st (log_area st 0 LOGBLOCKS)"

lemma log_block_inj: "i < LOGBLOCKS \<Longrightarrow> j < LOGBLOCKS \<Longrightarrow> log_block st i = log_block st j \<longleftrightarrow> i = j"
proof -
  assume "i < LOGBLOCKS" "j < LOGBLOCKS"
  then have "i < 30" "j < 30" by (simp_all add: LOGBLOCKS_def MAXOPBLOCKS_def)
  then have "(of_nat i :: u32) = of_nat j \<longleftrightarrow> i = j" by (simp add: word_of_nat_eq_iff take_bit_nat_eq_self)
  then show ?thesis by (simp add: log_block_def)
qed

lemma log_block_start: "i < LOGBLOCKS \<Longrightarrow> log_block st i \<noteq> st"
proof -
  assume "i < LOGBLOCKS"
  then have "i < 30" by (simp add: LOGBLOCKS_def MAXOPBLOCKS_def)
  then have "(of_nat (Suc i) :: u32) \<noteq> of_nat 0" unfolding word_of_nat_eq_iff by (simp add: take_bit_nat_eq_self)
  then show ?thesis by (simp add: log_block_def add.assoc add.commute)
qed

lemma log_area_mono: "t + n \<le> LOGBLOCKS \<Longrightarrow> log_area st t n \<subseteq> log_area st 0 LOGBLOCKS"
  by (auto simp: log_area_def)

lemma start_not_log: "t + n \<le> LOGBLOCKS \<Longrightarrow> st \<notin> log_area st t n"
proof
  assume "t + n \<le> LOGBLOCKS" "st \<in> log_area st t n"
  moreover from this obtain i where "t \<le> i" "i < t + n" "st = log_block st i" by (auto simp: log_area_def)
  ultimately show False using log_block_start [of i st] by simp
qed

lemma log_block_fresh: "t + Suc n \<le> LOGBLOCKS \<Longrightarrow> log_block st t \<notin> log_area st (Suc t) n"
  by (auto simp: log_area_def log_block_inj)

lemma to_home_to_log:
  "t + length bs \<le> LOGBLOCKS \<Longrightarrow> to_home st t bs (apply_writes v (to_log st t bs w)) = map (\<lambda>b. (b, w b)) bs"
proof (induction bs arbitrary: t v)
  case (Cons b bs)
  then have "log_block st t \<notin> fst ` set (to_log st (Suc t) bs w)"
    using log_block_fresh [of t "length bs"] by (simp add: to_log_blocks)
  then show ?case using Cons by (simp add: apply_writes_other)
qed simp

lemma apply_home: "apply_writes d (map (\<lambda>b. (b, w b)) bs) b = (if b \<in> set bs then w b else d b)"
  by (induction bs arbitrary: d) auto

text \<open>
  A state that \<^verbatim>\<open>end_op\<close> may commit: the pinned buffers are exactly those of the logged blocks, none of which
  lies in the log, a buffer is left to work with, and the log on disk is empty.
\<close>

definition log_ok :: "'z logsys_scheme \<Rightarrow> nat set \<Rightarrow> bool" where
  "log_ok s P \<longleftrightarrow> bc s {} P \<and> (\<lambda>i. b_blockno (bufs s ! i)) ` P = set (lh s) \<and> distinct (lh s) \<and>
     length (lh s) \<le> LOGBLOCKS \<and> card P < NBUF \<and> set (lh s) \<inter> log_region (start s) = {} \<and>
     length (disk s (start s)) = BSIZE \<and> get32 0 (disk s (start s)) = 0"

definition commit_writes :: "'z logsys_scheme \<Rightarrow> (u32 \<times> block) list" where
  "commit_writes s = to_log (start s) 0 (lh s) (view s) @ (start s, head_of (lh s) (disk s (start s))) #
     map (\<lambda>b. (b, view s b)) (lh s) @ [(start s, head_of [] (head_of (lh s) (disk s (start s))))]"

lemma commit_ok:
  assumes ok: "log_ok s P" and ne: "lh s \<noteq> []"
  obtains s' where "commit s = Inr s'" "bc s' {} {}" "hist s' = hist s @ commit_writes s"
    "disk s' = apply_writes (disk s) (commit_writes s)" "lh s' = []" "start s' = start s"
proof -
  let ?st = "start s" and ?bs = "lh s" and ?ws = "to_log (start s) 0 (lh s) (view s)"
  from ok have bc: "bc s {} P" and im: "(\<lambda>i. b_blockno (bufs s ! i)) ` P = set ?bs" and d: "distinct ?bs" and len: "length ?bs \<le> LOGBLOCKS"
    and c: "card P < NBUF" and disj: "set ?bs \<inter> log_region ?st = {}" by (simp_all add: log_ok_def)
  have disj': "set ?bs \<inter> log_area ?st 0 (length ?bs) = {}" "?st \<notin> set ?bs"
    using disj log_area_mono [of 0 "length ?bs" ?st] len by (auto simp: log_region_def)
  have cl: "view s ?st = disk s ?st"
    by (rule clean_view [OF bc]) (metis (no_types, lifting) Un_empty_left disj'(2) im imageI)
  obtain s1 where 1: "write_log s = Inr s1" "bc s1 {} P" "view s1 = apply_writes (view s) ?ws" "disk s1 = apply_writes (disk s) ?ws"
    "hist s1 = hist s @ ?ws" "bsys.more s1 = bsys.more s" "\<forall>i\<in>P. b_blockno (bufs s1 ! i) = b_blockno (bufs s ! i)"
    using write_log_loop_ok [OF bc, of ?bs 0] c im disj'(1) unfolding write_log_def by auto
  note l1 = more_log(1,2) [OF 1(6)]
  have im1: "(\<lambda>i. b_blockno (bufs s1 ! i)) ` P = set ?bs" using 1(7) im by (metis (no_types, lifting) image_cong)
  have v1: "view s1 ?st = disk s ?st"
    using 1(3) apply_writes_other [of ?st ?ws] cl start_not_log [of 0 "length ?bs" ?st] len by (simp add: to_log_blocks)
  obtain s2 where 2: "write_head s1 = Inr s2" "bc s2 {} P" "view s2 = (view s1)(?st := head_of ?bs (disk s ?st))"
    "disk s2 = (disk s1)(?st := head_of ?bs (disk s ?st))" "hist s2 = hist s1 @ [(?st, head_of ?bs (disk s ?st))]"
    "bsys.more s2 = bsys.more s1" "\<And>i. i \<in> P \<Longrightarrow> b_blockno (bufs s2 ! i) = b_blockno (bufs s1 ! i)"
    by (rule write_head_ok [OF 1(2)]) (use c im1 disj'(2) l1 v1 in auto)
  note l2 = more_log(1,2) [OF 2(6)]
  have im2: "(\<lambda>i. b_blockno (bufs s2 ! i)) ` P = set ?bs" using 2(7) im1 by (metis (no_types, lifting) image_cong)
  have home: "to_home ?st 0 ?bs (view s2) = map (\<lambda>b. (b, view s b)) ?bs"
    unfolding to_home_to_log [of 0 ?bs ?st "view s" "view s", symmetric, simplified, OF len]
    by (rule to_home_cong) (use 2(3) 1(3) start_not_log [of 0 "length ?bs" ?st] len in auto)
  obtain s3 where 3: "install_trans False s2 = Inr s3" "bc s3 {} {}" "view s3 = apply_writes (view s2) (map (\<lambda>b. (b, view s b)) ?bs)"
    "disk s3 = apply_writes (disk s2) (map (\<lambda>b. (b, view s b)) ?bs)" "hist s3 = hist s2 @ map (\<lambda>b. (b, view s b)) ?bs" "bsys.more s3 = bsys.more s2"
    using install_loop_ok [OF 2(2) c d, of 0 False] disj'(1) im2 l1 l2 home by (auto simp: install_trans_def)
  note l3 = more_log(1,2) [OF 3(6)]
  have v3: "view s3 ?st = head_of ?bs (disk s ?st)" using 3(3) 2(3) disj'(2) by (simp add: apply_home)
  obtain s4 where 4: "write_head (s3\<lparr>lh := []\<rparr>) = Inr s4" "bc s4 {} {}"
    "disk s4 = (disk s3)(?st := head_of [] (head_of ?bs (disk s ?st)))" "hist s4 = hist s3 @ [(?st, head_of [] (head_of ?bs (disk s ?st)))]"
    "bsys.more s4 = bsys.more (s3\<lparr>lh := []\<rparr>)"
    by (rule write_head_ok [of "s3\<lparr>lh := []\<rparr>" "{}"]) (use 3(2) l1 l2 l3 v3 c in auto)
  show ?thesis
  proof (rule that [of s4])
    show "commit s = Inr s4" using ne 1(1) 2(1) 3(1) 4(1) by (simp add: commit_def)
    show "lh s4 = []" "start s4 = start s" using more_log(1,2) [OF 4(5)] l1 l2 l3 by simp_all
    show "hist s4 = hist s @ commit_writes s" "disk s4 = apply_writes (disk s) (commit_writes s)"
      using 4(3,4) 3(4,5) 2(4,5) 1(4,5) by (simp_all add: commit_writes_def)
  qed (rule 4(2))
qed


text \<open>Recovery after a crash: the cache starts empty on the disk \<open>d\<close>.\<close>

lemma recover_ok:
  fixes s :: "'z logsys_scheme"
  assumes n: "sint (get32 0 (d st)) = int (length bs)" "length bs \<le> LOGBLOCKS" "get_words 4 (length bs) (d st) = bs"
    and bs: "distinct bs" "set bs \<inter> log_region st = {}"
  obtains r where "initlog st (binit (s\<lparr>disk := d\<rparr>)) = Inr r" "bc r {} {}" "lh r = []" "start r = st"
    "disk r = (apply_writes d (to_home st 0 bs d))(st := head_of [] (d st))"
proof -
  let ?s = "(binit (s\<lparr>disk := d\<rparr>))\<lparr>start := st\<rparr>"
  have bc: "bc ?s {} {}" and v: "view ?s = d" and N: "(0::nat) < NBUF" "card ({} :: nat set) < NBUF"
    by (simp_all add: binit_ok NBUF_def MAXOPBLOCKS_def)
  have dj: "set bs \<inter> log_area st 0 (length bs) = {}" "st \<notin> set bs"
    using bs(2) log_area_mono [of 0 "length bs" st] n(2) by (auto simp: log_region_def)
  obtain s1 where 1: "read_head ?s = Inr s1" "bc s1 {} {}" "view s1 = d" "disk s1 = d" "start s1 = st" "lh s1 = bs"
    by (rule read_head_ok [OF bc, of "length bs"]) (use n v in \<open>auto simp: binit_def\<close>)
  obtain s2 where 2: "install_trans True s1 = Inr s2" "bc s2 {} {}" "view s2 = apply_writes d (to_home st 0 bs d)"
    "disk s2 = apply_writes d (to_home st 0 bs d)" "bsys.more s2 = bsys.more s1"
    using install_loop_ok [OF 1(2) N(2) bs(1), of 0 True] dj 1(3-6) by (auto simp: install_trans_def)
  have v2: "view s2 st = d st" using 2(3) dj(2) by (simp add: apply_writes_other to_home_blocks)
  obtain r where 3: "write_head (s2\<lparr>lh := []\<rparr>) = Inr r" "bc r {} {}" "disk r = (disk s2)(st := head_of [] (d st))"
    "bsys.more r = bsys.more (s2\<lparr>lh := []\<rparr>)"
    by (rule write_head_ok [of "s2\<lparr>lh := []\<rparr>" "{}"]) (use 2(2) more_log(1) [OF 2(5)] 1(5) v2 N(1) in auto)
  have "initlog st (binit (s\<lparr>disk := d\<rparr>)) = Inr r"
    using 1(1) 2(1) 3(1) by (simp add: initlog_def recover_from_log_def panic_if_def LOGBLOCKS_def MAXOPBLOCKS_def BSIZE_def)
  then show ?thesis using that [of r] 3 2(4) more_log(1,2) [OF 3(4)] more_log(1) [OF 2(5)] 1(5) by simp
qed

lemma prefix_cases:
  assumes "xs @ y # zs @ [w] = ws1 @ ws2"
  obtains (before) us where "xs = ws1 @ us" | (middle) us where "zs = us @ butlast ws2" "ws1 = xs @ y # us" "ws2 \<noteq> []"
  | (after) "ws1 = xs @ y # zs @ [w]" "ws2 = []"
proof -
  from assms consider (a) us where "xs = ws1 @ us" | (b) us where "ws1 = xs @ y # us" "us @ ws2 = zs @ [w]"
    by (auto simp: append_eq_append_conv2 Cons_eq_append_conv)
  then show ?thesis
  proof cases
    case b
    show ?thesis
    proof (cases ws2 rule: rev_cases)
      case Nil
      then show ?thesis using b after by simp
    next
      case (snoc vs v)
      then show ?thesis using b middle [of us] by simp
    qed
  qed (rule before)
qed


lemma get_words_0 [simp]: "get_words off 0 d = []"
  by (simp add: get_words_def)

lemma to_home_eq:
  assumes "t + length bs \<le> LOGBLOCKS" "\<And>b. b \<in> log_area st t (length bs) \<Longrightarrow> d b = apply_writes v (to_log st t bs w) b"
  shows "to_home st t bs d = map (\<lambda>b. (b, w b)) bs"
  unfolding to_home_to_log [OF assms(1), where st = st and v = v and w = w, symmetric] by (rule to_home_cong) (rule assms(2))

text \<open>The disk that recovery leaves, after each prefix of the writes of a commit.\<close>

lemma recover_prefix:
  assumes ok: "log_ok s P" and pre: "commit_writes s = ws1 @ ws2"
  obtains r where "initlog (start s) (binit (s\<lparr>disk := apply_writes (disk s) ws1\<rparr>)) = Inr r" "bc r {} {}" "lh r = []" "start r = start s"
    "(\<forall>b. b \<notin> log_region (start s) \<longrightarrow> disk r b = disk s b) \<and> ws2 \<noteq> [] \<or> (\<forall>b. b \<notin> log_region (start s) \<longrightarrow> disk r b = view s b)"
    "length (disk r (start s)) = BSIZE" "get32 0 (disk r (start s)) = 0"
proof -
  let ?st = "start s" and ?bs = "lh s" and ?ls = "to_log (start s) 0 (lh s) (view s)" and ?hs = "map (\<lambda>b. (b, view s b)) (lh s)"
  from ok have bc: "bc s {} P" and im: "(\<lambda>i. b_blockno (bufs s ! i)) ` P = set ?bs" and d: "distinct ?bs" and len: "length ?bs \<le> LOGBLOCKS"
    and disj: "set ?bs \<inter> log_region ?st = {}" and hd: "length (disk s ?st) = BSIZE" "get32 0 (disk s ?st) = 0"
    by (simp_all add: log_ok_def)
  have la: "log_area ?st 0 (length ?bs) \<subseteq> log_region ?st" "?st \<notin> set ?bs" "?st \<in> log_region ?st"
    using log_area_mono [of 0 "length ?bs" ?st] len disj by (auto simp: log_region_def)
  have stl: "?st \<notin> fst ` set ?ls" using start_not_log [of 0 "length ?bs" ?st] len by (simp add: to_log_blocks)
  have clean: "view s b = disk s b" if "b \<notin> set ?bs" for b
    by (rule clean_view [OF bc]) (metis (no_types, lifting) Un_empty_left that im imageI)
  let ?d = "apply_writes (disk s) ws1"
  have z: "length (head_of [] x) = BSIZE" "get32 0 (head_of [] x) = 0" if "length x = BSIZE" for x
    using head_roundtrip [OF that, of "[]"] by simp_all
  note hr = head_roundtrip [OF hd(1) len]
  from pre [unfolded commit_writes_def, symmetric, THEN sym] show ?thesis
  proof (cases rule: prefix_cases)
    case (before us)
    have sub: "fst ` set ws1 \<subseteq> fst ` set ?ls" using before by auto
    have st: "?d ?st = disk s ?st" by (rule apply_writes_other) (use sub stl in blast)
    have eq: "?d b = disk s b" if "b \<notin> log_region ?st" for b
      by (rule apply_writes_other) (use sub la(1) that in \<open>auto simp: to_log_blocks\<close>)
    have ne: "ws2 \<noteq> []" using pre before by (auto simp: commit_writes_def)
    obtain r where r: "initlog ?st (binit (s\<lparr>disk := ?d\<rparr>)) = Inr r" "bc r {} {}" "lh r = []" "start r = ?st"
      "disk r = (apply_writes ?d (to_home ?st 0 [] ?d))(?st := head_of [] (?d ?st))"
      by (rule recover_ok [where bs = "[]" and st = ?st and d = ?d and s = s]) (use hd st in auto)
    show ?thesis by (rule that [OF r(1-4)]) (use r(5) eq ne la(3) z [OF hd(1)] st in auto)
  next
    case (middle us)
    have us: "?d = apply_writes ((apply_writes (disk s) ?ls)(?st := head_of ?bs (disk s ?st))) us" using middle(2) by simp
    have "set us \<subseteq> set ?hs" unfolding middle(1) by simp
    then have "fst ` set us \<subseteq> fst ` set ?hs" by (rule image_mono)
    then have usb: "fst ` set us \<subseteq> set ?bs" by (simp add: image_image)
    then have "?st \<notin> fst ` set us" using la(2) by blast
    then have st: "?d ?st = head_of ?bs (disk s ?st)" unfolding us by (simp add: apply_writes_other)
    have home: "to_home ?st 0 ?bs ?d = ?hs"
    proof (rule to_home_eq [where v = "disk s"])
      fix b assume "b \<in> log_area ?st 0 (length ?bs)"
      moreover from this have "b \<notin> fst ` set us" "b \<noteq> ?st" using usb la(1) disj start_not_log [of 0 "length ?bs" ?st] len by auto
      ultimately show "?d b = apply_writes (disk s) ?ls b" using us by (simp add: apply_writes_other)
    qed (use len in simp)
    obtain r where r: "initlog ?st (binit (s\<lparr>disk := ?d\<rparr>)) = Inr r" "bc r {} {}" "lh r = []" "start r = ?st"
      "disk r = (apply_writes ?d (to_home ?st 0 ?bs ?d))(?st := head_of [] (?d ?st))"
      by (rule recover_ok [where bs = ?bs and st = ?st and d = ?d and s = s]) (use hr st len d disj in auto)
    have "disk r b = view s b" if b: "b \<notin> log_region ?st" for b
    proof (cases "b \<in> set ?bs")
      case False
      then have "b \<notin> fst ` set us" "b \<noteq> ?st" "b \<notin> fst ` set ?ls" using usb b la by (auto simp: to_log_blocks)
      then show ?thesis using r(5) home us clean [OF False] False by (simp add: apply_home apply_writes_other)
    qed (use r(5) home la(2) in \<open>auto simp: apply_home\<close>)
    then show ?thesis by (intro that [OF r(1-4)]) (use r(5) st z [OF hr(1)] in auto)
  next
    case after
    have d: "?d = (apply_writes ((apply_writes (disk s) ?ls)(?st := head_of ?bs (disk s ?st))) ?hs)(?st := head_of [] (head_of ?bs (disk s ?st)))"
      using after(1) by simp
    note z' = z [OF hr(1)]
    obtain r where r: "initlog ?st (binit (s\<lparr>disk := ?d\<rparr>)) = Inr r" "bc r {} {}" "lh r = []" "start r = ?st"
      "disk r = (apply_writes ?d (to_home ?st 0 [] ?d))(?st := head_of [] (?d ?st))"
      by (rule recover_ok [where bs = "[]" and st = ?st and d = ?d and s = s]) (use d z' in auto)
    have "disk r b = view s b" if b: "b \<notin> log_region ?st" for b
    proof (cases "b \<in> set ?bs")
      case False
      then have "b \<noteq> ?st" "b \<notin> fst ` set ?ls" using b la by (auto simp: to_log_blocks)
      then show ?thesis using r(5) d clean [OF False] False by (simp add: apply_home apply_writes_other)
    qed (use r(5) d la b in \<open>auto simp: apply_home\<close>)
    then show ?thesis by (intro that [OF r(1-4)]) (use r(5) d z [OF z'(1)] in auto)
  qed
qed

end
