(* ===== verification/Txn.thy ===== *)
theory Txn
  imports Log
begin

text \<open>
  Transactions of the log seen by the file system: logged blocks, the reservation of log space, and the
  properties of commit and recovery.
\<close>

section \<open>Transactions\<close>

text \<open>
  A state inside a transaction, with the buffers \<open>H\<close> held: the logged blocks are those of the pinned
  buffers \<open>P\<close> and none of them lies in the log.
\<close>

definition txn :: "'z logsys_scheme \<Rightarrow> nat set \<Rightarrow> nat set \<Rightarrow> bool" where
  "txn s H P \<longleftrightarrow> bc s H P \<and> (\<lambda>i. b_blockno (bufs s ! i)) ` P = set (lh s) \<and> distinct (lh s) \<and>
     length (lh s) \<le> LOGBLOCKS \<and> set (lh s) \<inter> log_region (start s) = {} \<and> 1 \<le> outstanding s"

lemma txnD:
  assumes "txn s H P"
  shows "bc s H P" "(\<lambda>i. b_blockno (bufs s ! i)) ` P = set (lh s)" "distinct (lh s)" "length (lh s) \<le> LOGBLOCKS"
    "set (lh s) \<inter> log_region (start s) = {}" "1 \<le> outstanding s"
  using assms by (simp_all add: txn_def)

lemma more_more: "bsys.more s' = bsys.more (s :: 'z logsys_scheme) \<Longrightarrow> logsys.more s' = logsys.more s"
  by (cases s; cases s') simp

lemma card_pinned:
  assumes "txn s H P"
  shows "card P = length (lh s)"
proof -
  note bc = txnD(1) [OF assms]
  have "inj_on (\<lambda>i. b_blockno (bufs s ! i)) P"
  proof (rule inj_onI)
    fix i j assume "i \<in> P" "j \<in> P" "b_blockno (bufs s ! i) = b_blockno (bufs s ! j)"
    moreover from this have "i < NBUF" "j < NBUF" using bcD(5) [OF bc] by auto
    ultimately show "i = j"
      by (intro bcD(6) [OF bc, of i j "b_blockno (bufs s ! j)"]) (use bcD(10) [OF bc] in \<open>auto simp: block_is_def\<close>)
  qed
  then have "card P = card (set (lh s))" using txnD(2) [OF assms] by (metis card_image)
  then show ?thesis using distinct_card [OF txnD(3) [OF assms]] by simp
qed

lemma log_write_ok:
  assumes t: "txn s H P" and i: "i \<in> H" "b_blockno (bufs s ! i) \<notin> log_region (start s)" and n: "length (lh s) < LOGBLOCKS"
  obtains s' where "log_write i s = Inr s'" "txn s' H (insert i P)" "view s' = view s" "disk s' = disk s" "hist s' = hist s"
    "start s' = start s" "outstanding s' = outstanding s" "length (lh s') \<le> Suc (length (lh s))"
    "set (lh s') = insert (b_blockno (bufs s ! i)) (set (lh s))" "\<And>j. b_blockno (bufs s' ! j) = b_blockno (bufs s ! j)"
    "\<And>j. get_data j s' = get_data j s" "logsys.more s' = logsys.more s"
proof (cases "b_blockno (bufs s ! i) \<in> set (lh s)")
  case True
  note bc = txnD(1) [OF t]
  from True obtain j where j: "j \<in> P" "b_blockno (bufs s ! j) = b_blockno (bufs s ! i)" unfolding txnD(2) [OF t, symmetric] by auto
  have "j = i"
    by (rule bcD(6) [OF bc, of _ _ "b_blockno (bufs s ! i)"]) (use j i(1) bcD(4,5,10) [OF bc] in \<open>auto simp: block_is_def\<close>)
  then have "insert i P = P" using j(1) by blast
  moreover have "log_write i s = Inr s" using True n txnD(6) [OF t] by (simp add: log_write_def panic_if_def)
  ultimately show ?thesis using that [of s] t True by auto
next
  case False
  note bc = txnD(1) [OF t]
  let ?s = "(bpin i s)\<lparr>lh := lh s @ [b_blockno (bufs s ! i)]\<rparr>"
  have iP: "i \<notin> P" using False txnD(2) [OF t] by (metis imageI)
  have il: "i < length (bufs s)" using bc_held(2) [OF bc i(1)] .
  note p = pin_bufs [OF il] and f = bpin_ok [OF bc i(1) iP]
  have lw: "log_write i s = Inr ?s" using False n txnD(6) [OF t] by (simp add: log_write_def panic_if_def)
  have "txn ?s H (insert i P)"
    unfolding txn_def using f(1) txnD(2-6) [OF t] False n i(2) p(1) by (auto simp: bpin_def upd_buf_def)
  then show ?thesis
    using lw p f(2) by (intro that [of ?s]) (simp_all add: bpin_def upd_buf_def get_data_def)
qed

text \<open>The shared steps of the file system: reading a block, and updating it in the transaction.\<close>

lemma read_block_ok:
  assumes t: "txn s H P" and b: "\<And>i. i \<in> H \<Longrightarrow> b_blockno (bufs s ! i) \<noteq> b" and c: "card (H \<union> P) < NBUF"
  obtains i s1 s2 where "bread ROOTDEV b s = Inr (i, s1)" "get_data i s1 = view s b" "brelse i s1 = Inr s2" "txn s2 H P"
    "view s2 = view s" "disk s2 = disk s" "hist s2 = hist s" "bsys.more s1 = bsys.more s" "bsys.more s2 = bsys.more s"
    "\<And>j. j \<in> H \<Longrightarrow> b_blockno (bufs s2 ! j) = b_blockno (bufs s ! j)"
proof -
  note bc = txnD(1) [OF t]
  obtain i s1 where 1: "bread ROOTDEV b s = Inr (i, s1)" "bc s1 (insert i H) P" "i < NBUF" "i \<notin> H"
    "view s1 = view s" "get_data i s1 = view s b" "b_blockno (bufs s1 ! i) = b"
    "\<And>j. j \<noteq> i \<Longrightarrow> bufs s1 ! j = bufs s ! j" "s1 = s\<lparr>bufs := bufs s1\<rparr>"
    "i \<in> P \<Longrightarrow> b_blockno (bufs s ! i) = b" "\<And>j. j \<in> P \<Longrightarrow> j \<noteq> i \<Longrightarrow> b_blockno (bufs s ! j) \<noteq> b"
    by (rule bread_ok [OF bc b]) (use c in auto)
  note same = bufs_only [OF 1(9)]
  have cl: "get_data i s1 = disk s1 (b_blockno (bufs s1 ! i))" if "i \<notin> P"
  proof -
    have "view s b = disk s b" by (rule clean_view [OF bc]) (use b 1(11) that in blast)
    then show ?thesis using 1(6,7) same(1) by simp
  qed
  obtain s2 where 2: "brelse i s1 = Inr s2" "bc s2 (insert i H - {i}) P" "view s2 = view s1" "disk s2 = disk s1" "hist s2 = hist s1"
    "bsys.more s2 = bsys.more s1" "\<And>j. j \<noteq> i \<Longrightarrow> bufs s2 ! j = bufs s1 ! j" "b_blockno (bufs s2 ! i) = b_blockno (bufs s1 ! i)"
    by (rule brelse_ok [OF 1(2), of i]) (use cl in auto)
  have blk: "b_blockno (bufs s2 ! j) = b_blockno (bufs s ! j)" if "j \<in> H \<union> P" for j
    using 2(7,8) 1(7,8,10) 1(4) that by (cases "j = i") auto
  have im: "(\<lambda>j. b_blockno (bufs s2 ! j)) ` P = (\<lambda>j. b_blockno (bufs s ! j)) ` P" by (rule image_cong [OF refl]) (simp add: blk)
  have m: "bsys.more s2 = bsys.more s" using 2(6) same(4) by simp
  have "bc s2 H P" using 2(2) 1(4) by simp
  then have "txn s2 H P" using t im more_log [OF m] unfolding txn_def by simp
  then show ?thesis using that [OF 1(1,6) 2(1)] 2(3-5) 1(5) same m blk by simp
qed

lemma update_block_ok:
  assumes t: "txn s H P" and b: "\<And>i. i \<in> H \<Longrightarrow> b_blockno (bufs s ! i) \<noteq> b" "b \<notin> log_region (start s)"
    and c: "card (H \<union> P) < NBUF" "length (lh s) < LOGBLOCKS"
  obtains i s1 s2 s3 P' where "bread ROOTDEV b s = Inr (i, s1)" "get_data i s1 = view s b" "log_write i (set_data i d s1) = Inr s2"
    "brelse i s2 = Inr s3" "txn s3 H P'" "view s3 = (view s)(b := d)" "disk s3 = disk s" "hist s3 = hist s" "start s3 = start s"
    "bsys.more s1 = bsys.more s" "outstanding s3 = outstanding s" "length (lh s3) \<le> Suc (length (lh s))" "set (lh s3) = insert b (set (lh s))"
    "logsys.more s3 = logsys.more s" "\<And>j. j \<in> H \<Longrightarrow> b_blockno (bufs s3 ! j) = b_blockno (bufs s ! j)"
proof -
  note bc = txnD(1) [OF t]
  obtain i s1 where 1: "bread ROOTDEV b s = Inr (i, s1)" "bc s1 (insert i H) P" "i < NBUF" "i \<notin> H"
    "view s1 = view s" "get_data i s1 = view s b" "b_blockno (bufs s1 ! i) = b"
    "\<And>j. j \<noteq> i \<Longrightarrow> bufs s1 ! j = bufs s ! j" "s1 = s\<lparr>bufs := bufs s1\<rparr>"
    "i \<in> P \<Longrightarrow> b_blockno (bufs s ! i) = b" "\<And>j. j \<in> P \<Longrightarrow> j \<noteq> i \<Longrightarrow> b_blockno (bufs s ! j) \<noteq> b"
    by (rule bread_ok [OF bc b(1)]) (use c(1) in auto)
  note same = bufs_only [OF 1(9)]
  note log = more_log [OF same(4)]
  let ?s = "set_data i d s1"
  have il: "i < length (bufs s1)" using bc_held(2) [OF 1(2)] by simp
  note d = set_data_ok [OF 1(2), of i d]
  have blk1: "b_blockno (bufs s1 ! j) = b_blockno (bufs s ! j)" if "j \<in> P" for j using that 1(7,8,10) by (cases "j = i") auto
  have "(\<lambda>j. b_blockno (bufs s1 ! j)) ` P = (\<lambda>j. b_blockno (bufs s ! j)) ` P" by (rule image_cong [OF refl]) (rule blk1)
  then have im: "(\<lambda>j. b_blockno (bufs ?s ! j)) ` P = set (lh ?s)"
    using txnD(2) [OF t] log(2) more_log(2) [of ?s s1] il by simp
  have "txn ?s (insert i H) P" using d(1) im txnD(3-6) [OF t] log more_log [of ?s s1] unfolding txn_def by simp
  then obtain s2 where 2: "log_write i ?s = Inr s2" "txn s2 (insert i H) (insert i P)" "view s2 = view ?s" "disk s2 = disk ?s" "hist s2 = hist ?s"
    "start s2 = start ?s" "outstanding s2 = outstanding ?s" "length (lh s2) \<le> Suc (length (lh ?s))"
    "set (lh s2) = insert (b_blockno (bufs ?s ! i)) (set (lh ?s))" "\<And>j. b_blockno (bufs s2 ! j) = b_blockno (bufs ?s ! j)"
    "\<And>j. get_data j s2 = get_data j ?s" "logsys.more s2 = logsys.more ?s"
    by (rule log_write_ok [where i = i]) (use 1(7) il b(2) c(2) log more_log [of ?s s1] in auto)
  obtain s3 where 3: "brelse i s2 = Inr s3" "bc s3 (insert i H - {i}) (insert i P)" "view s3 = view s2" "disk s3 = disk s2" "hist s3 = hist s2"
    "bsys.more s3 = bsys.more s2" "\<And>j. j \<noteq> i \<Longrightarrow> bufs s3 ! j = bufs s2 ! j" "b_blockno (bufs s3 ! i) = b_blockno (bufs s2 ! i)"
    by (rule brelse_ok [OF txnD(1) [OF 2(2)], of i]) auto
  have blk3: "b_blockno (bufs s3 ! j) = b_blockno (bufs s2 ! j)" for j using 3(7,8) by (cases "j = i") auto
  have "bc s3 H (insert i P)" using 3(2) 1(4) by simp
  then have t3: "txn s3 H (insert i P)" using 2(2) blk3 more_log [OF 3(6)] unfolding txn_def by simp
  have m: "logsys.more s3 = logsys.more s2" "logsys.more ?s = logsys.more s1" "logsys.more s1 = logsys.more s"
    using more_more 3(6) same(4) by (auto intro: more_more)
  have held: "b_blockno (bufs s3 ! j) = b_blockno (bufs s ! j)" if "j \<in> H" for j
  proof -
    have "j \<noteq> i" using that 1(4) by blast
    then show ?thesis using blk3 2(10) il 1(8) by simp
  qed
  show ?thesis
    by (rule that [OF 1(1,6) 2(1) 3(1) t3])
      (use 2(3-9,12) 3(3-5) d(2) 1(5,7) same log more_log [OF 3(6)] more_log [of ?s s1] m il held in simp_all)
qed

section \<open>Log space\<close>

text \<open>The cache operations leave the log's own fields alone, whatever the state.\<close>

lemma cache_frame:
  "bread dev b s = Inr (i, s') \<Longrightarrow> bsys.more s' = bsys.more s" "bwrite i s = Inr s' \<Longrightarrow> bsys.more s' = bsys.more s"
  "brelse i s = Inr s' \<Longrightarrow> bsys.more s' = bsys.more s" "bsys.more (bunpin i s) = bsys.more s"
  by (auto simp: bread_def bget_def lock_buf_def disk_read_def bwrite_def disk_write_def brelse_def bunpin_def panic_if_def bnd_def Let_def
      split: sum.splits option.splits if_splits prod.splits)

lemma bnd_InrD: "bnd m f = Inr y \<Longrightarrow> \<exists>x. m = Inr x \<and> f x = Inr y"
  by (cases m) simp_all

lemma write_log_loop_frame: "write_log_loop t bs s = Inr s' \<Longrightarrow> bsys.more s' = bsys.more s"
proof (induction bs arbitrary: t s)
  case (Cons b bs)
  then show ?case by (auto dest!: bnd_InrD cache_frame(1-3) simp: set_data_def split: prod.splits)
qed simp

lemma install_loop_frame: "install_loop r t bs s = Inr s' \<Longrightarrow> bsys.more s' = bsys.more s"
proof (induction bs arbitrary: t s)
  case (Cons b bs)
  then show ?case by (auto dest!: bnd_InrD cache_frame(1-3) simp: cache_frame(4) set_data_def split: prod.splits if_splits)
qed simp

lemma write_head_frame: "write_head s = Inr s' \<Longrightarrow> bsys.more s' = bsys.more s"
  by (auto simp: write_head_def set_data_def dest!: bnd_InrD cache_frame(1-3) split: prod.splits)

lemma commit_frame:
  assumes "commit s = Inr s'"
  shows "lh s' = []" "outstanding s' = outstanding s" "committing s' = committing s"
proof -
  have "\<exists>s3. bsys.more s3 = bsys.more s \<and> bsys.more s' = bsys.more (s3\<lparr>lh := []\<rparr>)" if "lh s \<noteq> []"
    using assms that
    by (fastforce simp: commit_def write_log_def install_trans_def
        dest!: bnd_InrD write_log_loop_frame install_loop_frame write_head_frame)
  then obtain s3 where "lh s \<noteq> [] \<longrightarrow> bsys.more s3 = bsys.more s \<and> bsys.more s' = bsys.more (s3\<lparr>lh := []\<rparr>)" by blast
  then show "lh s' = []" "outstanding s' = outstanding s" "committing s' = committing s"
    using assms more_log [of s3 s] more_log [of s' "s3\<lparr>lh := []\<rparr>"] by (cases "lh s = []"; simp add: commit_def)+
qed

text \<open>
  The operations that run at once, each with the number of blocks it may still log: an operation starts
  with \<^verbatim>\<open>MAXOPBLOCKS\<close>, and each \<^verbatim>\<open>log_write\<close> uses up one.
\<close>

inductive log_step :: "'z logsys_scheme \<times> nat list \<Rightarrow> 'z logsys_scheme \<times> nat list \<Rightarrow> bool" where
  begin_op: "begin_op s = Inr s' \<Longrightarrow> log_step (s, ops) (s', ops @ [MAXOPBLOCKS])"
| log_write: "k < length ops \<Longrightarrow> 0 < ops ! k \<Longrightarrow> log_write i s = Inr s' \<Longrightarrow> log_step (s, ops) (s', ops[k := ops ! k - 1])"
| end_op: "k < length ops \<Longrightarrow> end_op s = Inr s' \<Longrightarrow> log_step (s, ops) (s', take k ops @ drop (Suc k) ops)"
| cache: "bsys.more s' = bsys.more s \<Longrightarrow> log_step (s, ops) (s', ops)"

definition space_inv :: "'z logsys_scheme \<times> nat list \<Rightarrow> bool" where
  "space_inv c \<longleftrightarrow> (case c of (s, ops) \<Rightarrow> outstanding s = int (length ops) \<and> \<not> committing s \<and>
     length (lh s) + sum_list ops \<le> LOGBLOCKS \<and> (\<forall>k\<in>set ops. k \<le> MAXOPBLOCKS))"

lemma sum_list_remove: "k < length xs \<Longrightarrow> sum_list (take k xs @ drop (Suc k) xs) + xs ! k = (sum_list xs :: nat)"
proof -
  assume "k < length xs"
  then have "xs = take k xs @ xs ! k # drop (Suc k) xs" by (simp add: id_take_nth_drop)
  then have "sum_list xs = sum_list (take k xs @ xs ! k # drop (Suc k) xs)" by simp
  then show ?thesis by simp
qed

lemma sum_list_le: "(\<forall>k\<in>set xs. k \<le> (m :: nat)) \<Longrightarrow> sum_list xs \<le> m * length xs"
  by (induction xs) auto

lemma log_step_inv: "log_step c c' \<Longrightarrow> space_inv c \<Longrightarrow> space_inv c'"
proof (induction rule: log_step.induct)
  case (begin_op s s' ops)
  then have "int (length (lh s)) + (int (length ops) + 1) * int MAXOPBLOCKS \<le> int LOGBLOCKS"
    and s': "s' = s\<lparr>outstanding := outstanding s + 1\<rparr>" by (auto simp: begin_op_def space_inv_def split: if_splits)
  then have "int (length (lh s) + (length ops + 1) * MAXOPBLOCKS) \<le> int LOGBLOCKS" by (simp add: algebra_simps)
  then have "length (lh s) + (length ops + 1) * MAXOPBLOCKS \<le> LOGBLOCKS" by (simp only: of_nat_le_iff)
  then show ?case using begin_op(2) s' sum_list_le [of ops MAXOPBLOCKS] by (auto simp: space_inv_def algebra_simps)
next
  case (log_write k ops i s s')
  have "sum_list (ops[k := ops ! k - 1]) + 1 = sum_list ops"
    using log_write(1,2) sum_list_update [of k ops "ops ! k - 1"] member_le_sum_list [of "ops ! k" ops] by simp
  moreover have "length (lh s') \<le> length (lh s) + 1" "outstanding s' = outstanding s" "committing s' = committing s"
    using log_write(3) by (auto simp: log_write_def panic_if_def bpin_def upd_buf_def Let_def split: if_splits)
  moreover have "\<forall>m\<in>set (ops[k := ops ! k - 1]). m \<le> MAXOPBLOCKS"
  proof
    fix m assume "m \<in> set (ops[k := ops ! k - 1])"
    then have "m = ops ! k - 1 \<or> m \<in> set ops" using set_update_subset_insert [of ops k "ops ! k - 1"] by blast
    moreover have "ops ! k \<le> MAXOPBLOCKS" using log_write(1,4) by (simp add: space_inv_def)
    ultimately show "m \<le> MAXOPBLOCKS" using log_write(4) by (auto simp: space_inv_def)
  qed
  ultimately show ?case using log_write(4) by (simp add: space_inv_def)
next
  case (end_op k ops s s')
  have o: "outstanding s' = outstanding s - 1" "\<not> committing s'" "length (lh s') \<le> length (lh s)"
    using end_op(2) by (auto simp: end_op_def panic_if_def Let_def dest!: bnd_InrD dest: commit_frame split: if_splits)
  then show ?case using end_op(1,3) sum_list_remove [OF end_op(1)]
    by (auto simp: space_inv_def dest: in_set_takeD in_set_dropD)
next
  case (cache s' s ops)
  then show ?case using more_log [OF cache(1)] by (simp add: space_inv_def)
qed

lemma log_steps_inv: "log_step\<^sup>*\<^sup>* c c' \<Longrightarrow> space_inv c \<Longrightarrow> space_inv c'"
  by (induction rule: rtranclp_induct) (auto intro: log_step_inv)

section \<open>Properties\<close>

text \<open>
  C1. A transaction is atomic with respect to crashes. \<^verbatim>\<open>commit\<close> succeeds and sends a sequence of writes to the
  disk; after a crash that keeps any initial part of them, \<^verbatim>\<open>initlog\<close> on an empty cache succeeds, and
  the blocks outside the log all have the contents from before the transaction or all have those
  the transaction gave them, the latter when no write was lost; the log is empty again.
\<close>

theorem commit_crash_atomic:
  assumes "log_ok s P" "lh s \<noteq> []"
  shows "\<exists>s' ws. commit s = Inr s' \<and> hist s' = hist s @ ws \<and> disk s' = apply_writes (disk s) ws \<and>
    (\<forall>ws1 ws2. ws = ws1 @ ws2 \<longrightarrow> (\<exists>r. initlog (start s) (binit (s\<lparr>disk := apply_writes (disk s) ws1\<rparr>)) = Inr r \<and>
       ((\<forall>b. b \<notin> log_region (start s) \<longrightarrow> disk r b = disk s b) \<and> ws2 \<noteq> [] \<or>
        (\<forall>b. b \<notin> log_region (start s) \<longrightarrow> disk r b = view s b)) \<and> log_ok r {}))"
proof -
  obtain s' where s': "commit s = Inr s'" "hist s' = hist s @ commit_writes s" "disk s' = apply_writes (disk s) (commit_writes s)"
    by (rule commit_ok [OF assms])
  have "\<exists>r. initlog (start s) (binit (s\<lparr>disk := apply_writes (disk s) ws1\<rparr>)) = Inr r \<and>
       ((\<forall>b. b \<notin> log_region (start s) \<longrightarrow> disk r b = disk s b) \<and> ws2 \<noteq> [] \<or>
        (\<forall>b. b \<notin> log_region (start s) \<longrightarrow> disk r b = view s b)) \<and> log_ok r {}" if "commit_writes s = ws1 @ ws2" for ws1 ws2
    by (rule recover_prefix [OF assms(1) that]) (auto simp: log_ok_def NBUF_def MAXOPBLOCKS_def)
  then show ?thesis using s' by blast
qed



text \<open>A file system with its log at block 2, and a transaction that has changed block 40.\<close>

definition logsys0 :: logsys where
  "logsys0 = binit \<lparr>bufs = [], lru = [], disk = (\<lambda>_. replicate BSIZE 0), hist = [], curpid = 5,
     start = 2, outstanding = 1, committing = False, ncommit = 0, lh = []\<rparr>"

lemma logsys0_txn: "txn logsys0 {} {}" "view logsys0 = (\<lambda>_. replicate BSIZE 0)" "disk logsys0 = (\<lambda>_. replicate BSIZE 0)"
  "start logsys0 = 2" "lh logsys0 = []"
  unfolding txn_def logsys0_def by (simp_all add: binit_ok) (simp_all add: binit_def)

lemma after_log: "33 \<le> unat b \<Longrightarrow> b \<notin> log_region 2"
proof
  assume b: "33 \<le> unat b" "b \<in> log_region 2"
  then have "b \<noteq> 2" by auto
  then obtain i where i: "i < 30" "b = log_block 2 i" using b by (auto simp: log_region_def log_area_def LOGBLOCKS_def MAXOPBLOCKS_def)
  then have "unat b = 3 + i" by (simp add: log_block_def unat_word_ariths unat_of_nat)
  then show False using b i by simp
qed

lemma get32_zero: "off + 4 \<le> n \<Longrightarrow> get32 off (replicate n 0) = 0"
  by (simp add: get32_def get_at_def min_def eval_nat_numeral)

lemma distinct_single: "distinct xs \<Longrightarrow> set xs = {x} \<Longrightarrow> xs = [x]"
proof -
  assume "distinct xs" "set xs = {x}"
  moreover from this have "length xs = Suc 0" using distinct_card [of xs] by simp
  then obtain y where "xs = [y]" unfolding length_Suc_conv length_0_conv by blast
  ultimately show ?thesis by simp
qed

text \<open>Block 40 goes from zeroes to sevens; every crash leaves one of the two.\<close>

theorem commit_crash_atomic_witness:
  "\<exists>s s' ws. view s 40 = replicate BSIZE 7 \<and> disk s 40 = replicate BSIZE 0 \<and> commit s = Inr s' \<and> hist s' = ws \<and>
    (\<forall>ws1 ws2. ws = ws1 @ ws2 \<longrightarrow> (\<exists>r :: logsys. initlog 2 (binit (s\<lparr>disk := apply_writes (disk s) ws1\<rparr>)) = Inr r \<and>
       (disk r 40 = replicate BSIZE 0 \<and> ws2 \<noteq> [] \<or> disk r 40 = replicate BSIZE 7)))"
proof -
  have nr: "(40 :: u32) \<notin> log_region 2" by (rule after_log) simp
  then have nr': "40 \<notin> log_region (start logsys0)" by (simp add: logsys0_txn)
  have c: "card ({} \<union> {} :: nat set) < NBUF" "length (lh logsys0) < LOGBLOCKS"
    by (simp_all add: logsys0_txn NBUF_def LOGBLOCKS_def MAXOPBLOCKS_def)
  obtain s :: logsys and P where s: "txn s {} P" "view s = (view logsys0)(40 := replicate BSIZE 7)" "disk s = disk logsys0" "hist s = hist logsys0"
    "start s = start logsys0" "set (lh s) = insert 40 (set (lh logsys0))"
    by (rule update_block_ok [OF logsys0_txn(1) _ nr' c, of "replicate BSIZE 7"]) blast+
  note f = logsys0_txn(2-5)
  have l: "lh s = [40]" using s(6) distinct_single [OF txnD(3) [OF s(1)]] f by simp
  have ok: "log_ok s P" using txnD [OF s(1)] card_pinned [OF s(1)] l s(3,5) f
    by (simp add: log_ok_def NBUF_def MAXOPBLOCKS_def get32_zero BSIZE_def)
  have h: "hist s = []" using s(4) by (simp add: logsys0_def binit_def)
  obtain s' ws where w: "commit s = Inr s'" "hist s' = ws"
    "\<forall>ws1 ws2. ws = ws1 @ ws2 \<longrightarrow> (\<exists>r. initlog 2 (binit (s\<lparr>disk := apply_writes (disk s) ws1\<rparr>)) = Inr r \<and>
       ((\<forall>b. b \<notin> log_region 2 \<longrightarrow> disk r b = disk s b) \<and> ws2 \<noteq> [] \<or> (\<forall>b. b \<notin> log_region 2 \<longrightarrow> disk r b = view s b)) \<and> log_ok r {})"
    using commit_crash_atomic [OF ok] l s(5) f h by auto
  have "\<forall>ws1 ws2. ws = ws1 @ ws2 \<longrightarrow> (\<exists>r. initlog 2 (binit (s\<lparr>disk := apply_writes (disk s) ws1\<rparr>)) = Inr r \<and>
       (disk r 40 = replicate BSIZE 0 \<and> ws2 \<noteq> [] \<or> disk r 40 = replicate BSIZE 7))"
  proof (intro allI impI)
    fix ws1 ws2 assume "ws = ws1 @ ws2"
    from w(3) [rule_format, OF this]
    show "\<exists>r. initlog 2 (binit (s\<lparr>disk := apply_writes (disk s) ws1\<rparr>)) = Inr r \<and>
       (disk r 40 = replicate BSIZE 0 \<and> ws2 \<noteq> [] \<or> disk r 40 = replicate BSIZE 7)"
      using nr s(2,3) f by auto
  qed
  then have "view s 40 = replicate BSIZE 7 \<and> disk s 40 = replicate BSIZE 0 \<and> commit s = Inr s' \<and> hist s' = ws \<and>
    (\<forall>ws1 ws2. ws = ws1 @ ws2 \<longrightarrow> (\<exists>r. initlog 2 (binit (s\<lparr>disk := apply_writes (disk s) ws1\<rparr>)) = Inr r \<and>
       (disk r 40 = replicate BSIZE 0 \<and> ws2 \<noteq> [] \<or> disk r 40 = replicate BSIZE 7)))"
    using w(1,2) s(2,3) f by simp
  then show ?thesis by - (intro exI)
qed



text \<open>
  C40. The log may hold as many blocks as the cache has buffers, and then cannot be committed: with a logged
  block in every buffer, as \<^verbatim>\<open>begin_op\<close> and \<^verbatim>\<open>log_write\<close> allow it, \<^verbatim>\<open>commit\<close> finds no buffer for the first
  log block and panics. (With one buffer to spare it succeeds.)
\<close>

theorem commit_full_cache_panics:
  assumes "txn s {} {..<NBUF}"
  shows "length (lh s) = LOGBLOCKS \<and> commit s = Inl (Panic ''bget: no buffers'')"
proof
  note t = txnD [OF assms]
  have len: "length (lh s) = NBUF" using card_pinned [OF assms] by simp
  then show "length (lh s) = LOGBLOCKS" by (simp add: NBUF_def LOGBLOCKS_def)
  have "lh s \<noteq> []" using len by (auto simp: NBUF_def MAXOPBLOCKS_def)
  then obtain b bs where bs: "lh s = b # bs" by (cases "lh s") auto
  have "log_block (start s) 0 \<notin> set (lh s)" using t(5) by (auto simp: log_region_def log_area_def LOGBLOCKS_def MAXOPBLOCKS_def)
  then have "b_blockno (bufs s ! i) \<noteq> log_block (start s) 0" if "i < NBUF" for i
    using t(2) that by (metis imageI lessThan_iff)
  then have "bread ROOTDEV (log_block (start s) 0) s = Inl (Panic ''bget: no buffers'')"
    by (intro bget_panics [OF t(1)]) simp_all
  then show "commit s = Inl (Panic ''bget: no buffers'')" using bs by (simp add: commit_def write_log_def)
qed


definition full_log :: logsys where
  "full_log = logsys0\<lparr>bufs := map (\<lambda>i. \<lparr>b_valid = True, b_dev = ROOTDEV, b_blockno = of_nat (100 + i), b_lock = initsleeplock,
     b_refcnt = 1, b_data = replicate BSIZE 7\<rparr>) [0..<NBUF], lh := map (\<lambda>i. of_nat (100 + i)) [0..<NBUF]\<rparr>"

lemma block_100: "i < NBUF \<Longrightarrow> j < NBUF \<Longrightarrow> (of_nat (100 + i) :: u32) = of_nat (100 + j) \<longleftrightarrow> i = j"
proof -
  assume "i < NBUF" "j < NBUF"
  then have "100 + i < 2 ^ 32" "100 + j < 2 ^ 32" by (simp_all add: NBUF_def MAXOPBLOCKS_def)
  then show ?thesis unfolding word_of_nat_eq_iff by (simp add: take_bit_nat_eq_self del: of_nat_add)
qed

lemma full_log_txn: "txn full_log {} {..<NBUF}"
proof -
  have b: "bufs full_log ! i = \<lparr>b_valid = True, b_dev = ROOTDEV, b_blockno = of_nat (100 + i), b_lock = initsleeplock,
     b_refcnt = 1, b_data = replicate BSIZE 7\<rparr>" if "i < NBUF" for i
    using that by (simp add: full_log_def)
  have l: "lru full_log = lru logsys0" "start full_log = 2" "outstanding full_log = 1" "length (bufs full_log) = NBUF"
    by (simp_all add: full_log_def logsys0_txn) (simp add: logsys0_def binit_def)
  have "bc full_log {} {..<NBUF}"
    using bcD(2,3) [OF txnD(1) [OF logsys0_txn(1)]] unfolding bc_def l
    by (auto simp: b block_is_def initsleeplock_def block_100 simp del: of_nat_add)
  moreover have "(\<lambda>i. b_blockno (bufs full_log ! i)) ` {..<NBUF} = set (lh full_log)"
    by (auto simp: b full_log_def simp del: of_nat_add intro: imageI)
  moreover have "distinct (lh full_log)" by (simp add: full_log_def distinct_map inj_on_def block_100 del: of_nat_add)
  moreover have "x \<notin> log_region 2" if x: "x \<in> set (lh full_log)" for x
  proof -
    obtain i where "i < NBUF" "x = of_nat (100 + i)" using x by (auto simp: full_log_def)
    then have "33 \<le> unat x" by (simp add: NBUF_def MAXOPBLOCKS_def unat_of_nat del: of_nat_add)
    then show ?thesis by (rule after_log)
  qed
  moreover have "length (lh full_log) \<le> LOGBLOCKS" by (simp add: full_log_def NBUF_def LOGBLOCKS_def)
  ultimately show ?thesis unfolding txn_def l by auto
qed

theorem commit_full_cache_panics_witness:
  "length (lh full_log) = LOGBLOCKS \<and> commit full_log = Inl (Panic ''bget: no buffers'')"
  by (rule commit_full_cache_panics [OF full_log_txn])

end
