(* ===== verification/Fs.thy ===== *)
theory Fs
  imports Txn
begin

text \<open>
  Blocks and inodes of the file system (\<^verbatim>\<open>kernel/fs.c\<close>): the free bitmap, the inode table, and reading and
  writing the content of an inode. A pointer to an entry of the inode table is its index, a null
  pointer is \<open>None\<close> where the code returns one. Block and inode counters, which the code keeps in
  \<^verbatim>\<open>int\<close>, are natural numbers: they stay below \<^verbatim>\<open>sb.size\<close> and \<^verbatim>\<open>sb.ninodes\<close>.
  What \<^verbatim>\<open>balloc\<close>, \<^verbatim>\<open>ialloc\<close> and \<^verbatim>\<open>ireclaim\<close> print is left out.
\<close>

section \<open>Operations\<close>

definition FSMAGIC :: u32 where
  "FSMAGIC = 0x10203040"

definition ROOTINO :: u32 where
  "ROOTINO = 1"

definition NDIRECT :: nat where
  "NDIRECT = 12"

definition NINDIRECT :: nat where
  "NINDIRECT = BSIZE div 4"

definition MAXFILE :: nat where
  "MAXFILE = NDIRECT + NINDIRECT"

definition DINODE :: nat where
  "DINODE = 64"

definition IPB :: nat where
  "IPB = BSIZE div DINODE"

definition BPB :: nat where
  "BPB = BSIZE * 8"

definition T_DIR :: u16 where
  "T_DIR = 1"

definition T_FILE :: u16 where
  "T_FILE = 2"

definition T_DEVICE :: u16 where
  "T_DEVICE = 3"

record superblock =
  sb_magic :: u32
  sb_size :: u32
  sb_nblocks :: u32
  sb_ninodes :: u32
  sb_nlog :: u32
  sb_logstart :: u32
  sb_inodestart :: u32
  sb_bmapstart :: u32

record inode =
  i_dev :: u32
  i_inum :: u32
  i_ref :: int
  i_lock :: sleeplock
  i_valid :: bool
  i_type :: u16
  i_major :: u16
  i_minor :: u16
  i_nlink :: u16
  i_size :: u32
  i_addrs :: "u32 list"

record fsys = logsys +
  sb :: superblock
  inodes :: "inode list"

definition IBLOCK :: "u32 \<Rightarrow> superblock \<Rightarrow> u32" where
  "IBLOCK i b = i div of_nat IPB + sb_inodestart b"

definition BBLOCK :: "u32 \<Rightarrow> superblock \<Rightarrow> u32" where
  "BBLOCK b sp = b div of_nat BPB + sb_bmapstart sp"

definition upd_inode :: "nat \<Rightarrow> (inode \<Rightarrow> inode) \<Rightarrow> 'z fsys_scheme \<Rightarrow> 'z fsys_scheme" where
  "upd_inode ip f s = s\<lparr>inodes := (inodes s)[ip := f (inodes s ! ip)]\<rparr>"

abbreviation ino :: "'z fsys_scheme \<Rightarrow> nat \<Rightarrow> inode" where
  "ino s ip \<equiv> inodes s ! ip"

definition readsb :: "'z fsys_scheme \<Rightarrow> 'z fsys_scheme kres" where
  "readsb s = bnd (bread ROOTDEV 1 s) (\<lambda>(bp, s).
     let w = (\<lambda>k. get32 (4 * k) (get_data bp s)) in
     brelse bp (s\<lparr>sb := \<lparr>sb_magic = w 0, sb_size = w 1, sb_nblocks = w 2, sb_ninodes = w 3, sb_nlog = w 4,
       sb_logstart = w 5, sb_inodestart = w 6, sb_bmapstart = w 7\<rparr>\<rparr>))"

definition bzero :: "u32 \<Rightarrow> 'z fsys_scheme \<Rightarrow> 'z fsys_scheme kres" where
  "bzero bno s = bnd (bread ROOTDEV bno s) (\<lambda>(bp, s).
     bnd (log_write bp (set_data bp (replicate BSIZE 0) s)) (\<lambda>s. brelse bp s))"

text \<open>Bit \<open>bi\<close> of a block of the free map.\<close>

definition map_bit :: "block \<Rightarrow> nat \<Rightarrow> bool" where
  "map_bit d bi \<longleftrightarrow> bit (d ! (bi div 8)) (bi mod 8)"

definition set_map_bit :: "bool \<Rightarrow> nat \<Rightarrow> block \<Rightarrow> block" where
  "set_map_bit v bi d = d[bi div 8 := (if v then set_bit (bi mod 8) (d ! (bi div 8)) else unset_bit (bi mod 8) (d ! (bi div 8)))]"

primrec balloc_loop :: "nat list \<Rightarrow> 'z fsys_scheme \<Rightarrow> (u32 \<times> 'z fsys_scheme) kres" where
  "balloc_loop [] s = Inr (0, s)"
| "balloc_loop (b # bs) s =
     bnd (bread ROOTDEV (BBLOCK (of_nat b) (sb s)) s) (\<lambda>(bp, s).
     case List.find (\<lambda>bi. \<not> map_bit (get_data bp s) bi) [0..<min BPB (unat (sb_size (sb s)) - b)] of
       Some bi \<Rightarrow>
         bnd (log_write bp (set_data bp (set_map_bit True bi (get_data bp s)) s)) (\<lambda>s.
         bnd (brelse bp s) (\<lambda>s.
         bnd (bzero (of_nat (b + bi)) s) (\<lambda>s. Inr (of_nat (b + bi), s))))
     | None \<Rightarrow> bnd (brelse bp s) (balloc_loop bs))"

text \<open>The first block of every block of the free map.\<close>

definition map_starts :: "nat \<Rightarrow> nat list" where
  "map_starts n = map (\<lambda>k. k * BPB) [0..<(n + BPB - 1) div BPB]"

definition balloc :: "'z fsys_scheme \<Rightarrow> (u32 \<times> 'z fsys_scheme) kres" where
  "balloc s = balloc_loop (map_starts (unat (sb_size (sb s)))) s"

definition bfree :: "u32 \<Rightarrow> 'z fsys_scheme \<Rightarrow> 'z fsys_scheme kres" where
  "bfree b s = bnd (bread ROOTDEV (BBLOCK b (sb s)) s) (\<lambda>(bp, s).
     let bi = unat b mod BPB in
     panic_if (\<not> map_bit (get_data bp s) bi) ''freeing free block'' (
     bnd (log_write bp (set_data bp (set_map_bit False bi (get_data bp s)) s)) (\<lambda>s. brelse bp s)))"

definition empty_inode :: inode where
  "empty_inode = \<lparr>i_dev = 0, i_inum = 0, i_ref = 0, i_lock = initsleeplock, i_valid = False, i_type = 0, i_major = 0, i_minor = 0,
     i_nlink = 0, i_size = 0, i_addrs = replicate (NDIRECT + 1) 0\<rparr>"

definition iinit :: "'z fsys_scheme \<Rightarrow> 'z fsys_scheme" where
  "iinit s = s\<lparr>inodes := replicate NINODE empty_inode\<rparr>"

text \<open>The first entry that holds the inode, else the first free one.\<close>

definition iget :: "u32 \<Rightarrow> u32 \<Rightarrow> 'z fsys_scheme \<Rightarrow> (nat \<times> 'z fsys_scheme) kres" where
  "iget dev inum s =
     (case List.find (\<lambda>ip. i_ref (ino s ip) > 0 \<and> i_dev (ino s ip) = dev \<and> i_inum (ino s ip) = inum) [0..<NINODE] of
        Some ip \<Rightarrow> Inr (ip, upd_inode ip (\<lambda>i. i\<lparr>i_ref := i_ref i + 1\<rparr>) s)
      | None \<Rightarrow>
         (case List.find (\<lambda>ip. i_ref (ino s ip) = 0) [0..<NINODE] of
            Some ip \<Rightarrow> Inr (ip, upd_inode ip (\<lambda>i. i\<lparr>i_dev := dev, i_inum := inum, i_ref := 1, i_valid := False\<rparr>) s)
          | None \<Rightarrow> Inl (Panic ''iget: no inodes'')))"

text \<open>Where the on-disk copy of an inode starts in its block.\<close>

definition dino_off :: "u32 \<Rightarrow> nat" where
  "dino_off inum = DINODE * (unat inum mod IPB)"

primrec ialloc_loop :: "nat list \<Rightarrow> u16 \<Rightarrow> 'z fsys_scheme \<Rightarrow> (nat option \<times> 'z fsys_scheme) kres" where
  "ialloc_loop [] ty s = Inr (None, s)"
| "ialloc_loop (inum # inums) ty s =
     bnd (bread ROOTDEV (IBLOCK (of_nat inum) (sb s)) s) (\<lambda>(bp, s).
     let off = dino_off (of_nat inum) in
     if get16 off (get_data bp s) = 0 then
       bnd (log_write bp (set_data bp (put16 off ty (put_at off (replicate DINODE 0) (get_data bp s))) s)) (\<lambda>s.
       bnd (brelse bp s) (\<lambda>s.
       bnd (iget ROOTDEV (of_nat inum) s) (\<lambda>(ip, s). Inr (Some ip, s))))
     else bnd (brelse bp s) (ialloc_loop inums ty))"

definition ialloc :: "u16 \<Rightarrow> 'z fsys_scheme \<Rightarrow> (nat option \<times> 'z fsys_scheme) kres" where
  "ialloc ty s = ialloc_loop [1..<unat (sb_ninodes (sb s))] ty s"

definition dinode_put :: "inode \<Rightarrow> nat \<Rightarrow> block \<Rightarrow> block" where
  "dinode_put i off d = put_words (off + 12) (i_addrs i) (put32 (off + 8) (i_size i) (put16 (off + 6) (i_nlink i)
     (put16 (off + 4) (i_minor i) (put16 (off + 2) (i_major i) (put16 off (i_type i) d)))))"

definition dinode_get :: "nat \<Rightarrow> block \<Rightarrow> inode \<Rightarrow> inode" where
  "dinode_get off d i = i\<lparr>i_type := get16 off d, i_major := get16 (off + 2) d, i_minor := get16 (off + 4) d,
     i_nlink := get16 (off + 6) d, i_size := get32 (off + 8) d, i_addrs := get_words (off + 12) (NDIRECT + 1) d\<rparr>"

definition iupdate :: "nat \<Rightarrow> 'z fsys_scheme \<Rightarrow> 'z fsys_scheme kres" where
  "iupdate ip s = bnd (bread (i_dev (ino s ip)) (IBLOCK (i_inum (ino s ip)) (sb s)) s) (\<lambda>(bp, s).
     bnd (log_write bp (set_data bp (dinode_put (ino s ip) (dino_off (i_inum (ino s ip))) (get_data bp s)) s)) (\<lambda>s. brelse bp s))"

definition idup :: "nat \<Rightarrow> 'z fsys_scheme \<Rightarrow> 'z fsys_scheme" where
  "idup ip s = upd_inode ip (\<lambda>i. i\<lparr>i_ref := i_ref i + 1\<rparr>) s"

definition ilock :: "nat \<Rightarrow> 'z fsys_scheme \<Rightarrow> 'z fsys_scheme kres" where
  "ilock ip s = panic_if (i_ref (ino s ip) < 1) ''ilock'' (
     case acquiresleep (curpid s) (i_lock (ino s ip)) of
       None \<Rightarrow> Inl (Sleeps ''inode'')
     | Some lk \<Rightarrow>
        let s = upd_inode ip (\<lambda>i. i\<lparr>i_lock := lk\<rparr>) s in
        if i_valid (ino s ip) then Inr s
        else bnd (bread (i_dev (ino s ip)) (IBLOCK (i_inum (ino s ip)) (sb s)) s) (\<lambda>(bp, s).
          let d = get_data bp s in
          bnd (brelse bp (upd_inode ip (dinode_get (dino_off (i_inum (ino s ip))) d) s)) (\<lambda>s.
          let s = upd_inode ip (\<lambda>i. i\<lparr>i_valid := True\<rparr>) s in
          panic_if (i_type (ino s ip) = 0) ''ilock: no type'' (Inr s))))"

definition iunlock :: "nat \<Rightarrow> 'z fsys_scheme \<Rightarrow> 'z fsys_scheme kres" where
  "iunlock ip s = panic_if (\<not> holdingsleep (curpid s) (i_lock (ino s ip)) \<or> i_ref (ino s ip) < 1) ''iunlock'' (
     Inr (upd_inode ip (\<lambda>i. i\<lparr>i_lock := releasesleep (i_lock i)\<rparr>) s))"

text \<open>The \<^verbatim>\<open>n\<close>th block of an inode, allocated if it has none; 0 when the disk is full.\<close>

definition bmap_direct :: "nat \<Rightarrow> nat \<Rightarrow> 'z fsys_scheme \<Rightarrow> (u32 \<times> 'z fsys_scheme) kres" where
  "bmap_direct ip bn s =
     (if i_addrs (ino s ip) ! bn = 0 then
        bnd (balloc s) (\<lambda>(addr, s).
        if addr = 0 then Inr (0, s)
        else Inr (addr, upd_inode ip (\<lambda>i. i\<lparr>i_addrs := (i_addrs i)[bn := addr]\<rparr>) s))
      else Inr (i_addrs (ino s ip) ! bn, s))"

definition bmap :: "nat \<Rightarrow> nat \<Rightarrow> 'z fsys_scheme \<Rightarrow> (u32 \<times> 'z fsys_scheme) kres" where
  "bmap ip bn s =
     (if bn < NDIRECT then bmap_direct ip bn s
      else let bn = bn - NDIRECT in
        if bn < NINDIRECT then
          bnd (bmap_direct ip NDIRECT s) (\<lambda>(addr, s).
          if addr = 0 then Inr (0, s)
          else bnd (bread (i_dev (ino s ip)) addr s) (\<lambda>(bp, s).
            let addr = get32 (4 * bn) (get_data bp s) in
            if addr = 0 then
              bnd (balloc s) (\<lambda>(addr, s).
              if addr \<noteq> 0 then
                bnd (log_write bp (set_data bp (put32 (4 * bn) addr (get_data bp s)) s)) (\<lambda>s.
                bnd (brelse bp s) (\<lambda>s. Inr (addr, s)))
              else bnd (brelse bp s) (\<lambda>s. Inr (addr, s)))
            else bnd (brelse bp s) (\<lambda>s. Inr (addr, s))))
        else Inl (Panic ''bmap: out of range''))"

text \<open>\<^verbatim>\<open>itrunc\<close>: the direct blocks, then the blocks listed in the indirect block, then that block.\<close>

primrec trunc_direct :: "nat \<Rightarrow> nat list \<Rightarrow> 'z fsys_scheme \<Rightarrow> 'z fsys_scheme kres" where
  "trunc_direct ip [] s = Inr s"
| "trunc_direct ip (i # is) s =
     (if i_addrs (ino s ip) ! i \<noteq> 0 then
        bnd (bfree (i_addrs (ino s ip) ! i) s) (\<lambda>s.
        trunc_direct ip is (upd_inode ip (\<lambda>n. n\<lparr>i_addrs := (i_addrs n)[i := 0]\<rparr>) s))
      else trunc_direct ip is s)"

primrec trunc_indirect :: "nat \<Rightarrow> nat list \<Rightarrow> 'z fsys_scheme \<Rightarrow> 'z fsys_scheme kres" where
  "trunc_indirect bp [] s = Inr s"
| "trunc_indirect bp (j # js) s =
     (let a = get32 (4 * j) (get_data bp s) in
      if a \<noteq> 0 then bnd (bfree a s) (trunc_indirect bp js) else trunc_indirect bp js s)"

definition itrunc :: "nat \<Rightarrow> 'z fsys_scheme \<Rightarrow> 'z fsys_scheme kres" where
  "itrunc ip s =
     bnd (trunc_direct ip [0..<NDIRECT] s) (\<lambda>s.
     bnd (if i_addrs (ino s ip) ! NDIRECT \<noteq> 0 then
            bnd (bread (i_dev (ino s ip)) (i_addrs (ino s ip) ! NDIRECT) s) (\<lambda>(bp, s).
            bnd (trunc_indirect bp [0..<NINDIRECT] s) (\<lambda>s.
            bnd (brelse bp s) (\<lambda>s.
            bnd (bfree (i_addrs (ino s ip) ! NDIRECT) s) (\<lambda>s.
            Inr (upd_inode ip (\<lambda>n. n\<lparr>i_addrs := (i_addrs n)[NDIRECT := 0]\<rparr>) s)))))
          else Inr s) (\<lambda>s.
     iupdate ip (upd_inode ip (\<lambda>n. n\<lparr>i_size := 0\<rparr>) s)))"

definition iput :: "nat \<Rightarrow> 'z fsys_scheme \<Rightarrow> 'z fsys_scheme kres" where
  "iput ip s =
     bnd (if i_ref (ino s ip) = 1 \<and> i_valid (ino s ip) \<and> i_nlink (ino s ip) = 0 then
            case acquiresleep (curpid s) (i_lock (ino s ip)) of
              None \<Rightarrow> Inl (Sleeps ''inode'')
            | Some lk \<Rightarrow>
               bnd (itrunc ip (upd_inode ip (\<lambda>i. i\<lparr>i_lock := lk\<rparr>) s)) (\<lambda>s.
               bnd (iupdate ip (upd_inode ip (\<lambda>i. i\<lparr>i_type := 0\<rparr>) s)) (\<lambda>s.
               Inr (upd_inode ip (\<lambda>i. i\<lparr>i_valid := False, i_lock := releasesleep (i_lock i)\<rparr>) s)))
          else Inr s) (\<lambda>s.
     Inr (upd_inode ip (\<lambda>i. i\<lparr>i_ref := i_ref i - 1\<rparr>) s))"

definition iunlockput :: "nat \<Rightarrow> 'z fsys_scheme \<Rightarrow> 'z fsys_scheme kres" where
  "iunlockput ip s = bnd (iunlock ip s) (iput ip)"

primrec ireclaim_loop :: "nat list \<Rightarrow> 'z fsys_scheme \<Rightarrow> 'z fsys_scheme kres" where
  "ireclaim_loop [] s = Inr s"
| "ireclaim_loop (inum # inums) s =
     bnd (bread ROOTDEV (IBLOCK (of_nat inum) (sb s)) s) (\<lambda>(bp, s).
     let off = dino_off (of_nat inum); d = get_data bp s in
     if get16 off d \<noteq> 0 \<and> get16 (off + 6) d = 0 then
       bnd (iget ROOTDEV (of_nat inum) s) (\<lambda>(ip, s).
       bnd (brelse bp s) (\<lambda>s.
       bnd (begin_op s) (\<lambda>s. bnd (ilock ip s) (\<lambda>s. bnd (iunlock ip s) (\<lambda>s. bnd (iput ip s) (\<lambda>s. bnd (end_op s) (
         ireclaim_loop inums)))))))
     else bnd (brelse bp s) (ireclaim_loop inums))"

definition ireclaim :: "'z fsys_scheme \<Rightarrow> 'z fsys_scheme kres" where
  "ireclaim s = ireclaim_loop [1..<unat (sb_ninodes (sb s))] s"

definition fsinit :: "'z fsys_scheme \<Rightarrow> 'z fsys_scheme kres" where
  "fsinit s = bnd (readsb s) (\<lambda>s. panic_if (sb_magic (sb s) \<noteq> FSMAGIC) ''invalid file system'' (
     bnd (initlog (sb_logstart (sb s)) s) ireclaim))"

record stat =
  st_dev :: u32
  st_ino :: u32
  st_type :: u16
  st_nlink :: u16
  st_size :: u64

definition stati :: "inode \<Rightarrow> stat" where
  "stati i = \<lparr>st_dev = i_dev i, st_ino = i_inum i, st_type = i_type i, st_nlink = i_nlink i, st_size = ucast (i_size i)\<rparr>"

text \<open>
  \<^verbatim>\<open>readi\<close> and \<^verbatim>\<open>writei\<close> move bytes between blocks and a memory of type \<open>'m\<close>. \<open>out dst bs m\<close> is
  \<^verbatim>\<open>either_copyout\<close> of the bytes \<open>bs\<close> of a buffer to \<open>dst\<close>; \<open>inp src k\<close> is \<^verbatim>\<open>either_copyin\<close> of \<open>k\<close> bytes
  from \<open>src\<close>, with the bytes it stored. Offsets do not wrap after the initial test.
\<close>

type_synonym 'm copier = "u64 \<Rightarrow> u8 list \<Rightarrow> 'm \<Rightarrow> (int \<times> 'm) kres"

function readi_loop :: "'m copier \<Rightarrow> nat \<Rightarrow> u64 \<Rightarrow> nat \<Rightarrow> nat \<Rightarrow> nat \<Rightarrow> 'z fsys_scheme \<Rightarrow> 'm \<Rightarrow> (int \<times> 'z fsys_scheme \<times> 'm) kres" where
  "readi_loop out ip dst off n tot s m =
     (if tot < n then
        bnd (bmap ip (off div BSIZE) s) (\<lambda>(addr, s).
        if addr = 0 then Inr (int tot, s, m)
        else bnd (bread (i_dev (ino s ip)) addr s) (\<lambda>(bp, s).
          let k = min (n - tot) (BSIZE - off mod BSIZE) in
          bnd (out dst (get_at (off mod BSIZE) k (get_data bp s)) m) (\<lambda>(r, m).
          bnd (brelse bp s) (\<lambda>s.
          if r = -1 then Inr (-1, s, m)
          else readi_loop out ip (dst + of_nat k) (off + k) n (tot + k) s m))))
      else Inr (int tot, s, m))"
  by pat_completeness auto
termination
  by (relation "measure (\<lambda>(out, ip, dst, off, n, tot, s, m). n - tot)") (auto simp: BSIZE_def min_def)

declare readi_loop.simps [simp del]

definition readi :: "'m copier \<Rightarrow> nat \<Rightarrow> u64 \<Rightarrow> u32 \<Rightarrow> u32 \<Rightarrow> 'z fsys_scheme \<Rightarrow> 'm \<Rightarrow> (int \<times> 'z fsys_scheme \<times> 'm) kres" where
  "readi out ip dst off n s m =
     (if off > i_size (ino s ip) \<or> off + n < off then Inr (0, s, m)
      else let n = (if off + n > i_size (ino s ip) then i_size (ino s ip) - off else n) in
        readi_loop out ip dst (unat off) (unat n) 0 s m)"

type_synonym copyin_fn = "u64 \<Rightarrow> nat \<Rightarrow> (int \<times> u8 list) kres"

function writei_loop :: "copyin_fn \<Rightarrow> nat \<Rightarrow> u64 \<Rightarrow> nat \<Rightarrow> nat \<Rightarrow> nat \<Rightarrow> 'z fsys_scheme \<Rightarrow> (nat \<times> nat \<times> 'z fsys_scheme) kres" where
  "writei_loop inp ip src off n tot s =
     (if tot < n then
        bnd (bmap ip (off div BSIZE) s) (\<lambda>(addr, s).
        if addr = 0 then Inr (tot, off, s)
        else bnd (bread (i_dev (ino s ip)) addr s) (\<lambda>(bp, s).
          let k = min (n - tot) (BSIZE - off mod BSIZE) in
          bnd (inp src k) (\<lambda>(r, bs).
          bnd (log_write bp (set_data bp (put_at (off mod BSIZE) bs (get_data bp s)) s)) (\<lambda>s.
          bnd (brelse bp s) (\<lambda>s.
          if r = -1 then Inr (tot, off, s)
          else writei_loop inp ip (src + of_nat k) (off + k) n (tot + k) s)))))
      else Inr (tot, off, s))"
  by pat_completeness auto
termination
  by (relation "measure (\<lambda>(inp, ip, src, off, n, tot, s). n - tot)") (auto simp: BSIZE_def min_def)

declare writei_loop.simps [simp del]

definition writei :: "copyin_fn \<Rightarrow> nat \<Rightarrow> u64 \<Rightarrow> u32 \<Rightarrow> u32 \<Rightarrow> 'z fsys_scheme \<Rightarrow> (int \<times> 'z fsys_scheme) kres" where
  "writei inp ip src off n s =
     (if off > i_size (ino s ip) \<or> off + n < off then Inr (-1, s)
      else if unat (off + n) > MAXFILE * BSIZE then Inr (-1, s)
      else bnd (writei_loop inp ip src (unat off) (unat n) 0 s) (\<lambda>(tot, off, s).
        let s = (if off > unat (i_size (ino s ip)) then upd_inode ip (\<lambda>i. i\<lparr>i_size := of_nat off\<rparr>) s else s) in
        bnd (iupdate ip s) (\<lambda>s. Inr (int tot, s))))"

end
