(* ===== verification/Balloc.thy ===== *)
theory Balloc
  imports Fs
begin

text \<open>
  The block allocator of the file system: \<^verbatim>\<open>balloc\<close> and \<^verbatim>\<open>bfree\<close> on the free bitmap, inside a transaction.
\<close>

section \<open>Blocks in a transaction\<close>

lemma more_fs:
  assumes "logsys.more s' = logsys.more (s :: 'z fsys_scheme)"
  shows "sb s' = sb s" "inodes s' = inodes s"
  using assms by (cases s; cases s'; simp)+

text \<open>The blocks that the held buffers do not hold, and room for \<open>k\<close> more logged blocks.\<close>

definition unheld :: "'z bsys_scheme \<Rightarrow> nat set \<Rightarrow> u32 \<Rightarrow> bool" where
  "unheld s H b \<longleftrightarrow> (\<forall>i\<in>H. b_blockno (bufs s ! i) \<noteq> b)"

definition room :: "'z logsys_scheme \<Rightarrow> nat set \<Rightarrow> nat \<Rightarrow> bool" where
  "room s H k \<longleftrightarrow> card H + length (lh s) + k \<le> NBUF"

text \<open>A step inside a transaction that leaves everything but the view of blocks alone.\<close>

definition frame :: "nat set \<Rightarrow> 'z fsys_scheme \<Rightarrow> 'z fsys_scheme \<Rightarrow> bool" where
  "frame H s s' \<longleftrightarrow> sb s' = sb s \<and> inodes s' = inodes s \<and> start s' = start s \<and> outstanding s' = outstanding s \<and> disk s' = disk s \<and>
     (\<forall>i\<in>H. b_blockno (bufs s' ! i) = b_blockno (bufs s ! i))"

lemma frame_refl [simp]: "frame H s s"
  by (simp add: frame_def)

lemma frame_trans: "frame H s s' \<Longrightarrow> frame H s' s'' \<Longrightarrow> frame H s s''"
  by (simp add: frame_def)

lemma frame_unheld: "frame H s s' \<Longrightarrow> unheld s' H b = unheld s H b"
  by (auto simp: frame_def unheld_def)

lemma room_card:
  assumes "txn s H P" "room s H 1"
  shows "card (H \<union> P) < NBUF" "length (lh s) < LOGBLOCKS"
proof -
  have "card (H \<union> P) \<le> card H + card P" by (rule card_Un_le)
  then show "card (H \<union> P) < NBUF" using assms card_pinned [OF assms(1)] by (simp add: room_def)
  show "length (lh s) < LOGBLOCKS" using assms(2) by (simp add: room_def NBUF_def LOGBLOCKS_def)
qed

lemma room_mono: "room s H k \<Longrightarrow> k' \<le> k \<Longrightarrow> room s H k'"
  by (simp add: room_def)

lemma read_block:
  fixes s :: "'z fsys_scheme"
  assumes "txn s H P" "unheld s H b" "room s H 1"
  obtains i s1 s2 where "bread ROOTDEV b s = Inr (i, s1)" "get_data i s1 = view s b" "brelse i s1 = Inr s2" "txn s2 H P"
    "view s2 = view s" "frame H s s2" "lh s2 = lh s" "sb s1 = sb s" "inodes s1 = inodes s"
proof -
  obtain i s1 s2 where r: "bread ROOTDEV b s = Inr (i, s1)" "get_data i s1 = view s b" "brelse i s1 = Inr s2" "txn s2 H P"
    "view s2 = view s" "disk s2 = disk s" "hist s2 = hist s" "bsys.more s1 = bsys.more s" "bsys.more s2 = bsys.more s"
    "\<And>j. j \<in> H \<Longrightarrow> b_blockno (bufs s2 ! j) = b_blockno (bufs s ! j)"
    by (rule read_block_ok [OF assms(1), of b]) (use assms(2) room_card [OF assms(1,3)] in \<open>auto simp: unheld_def\<close>)
  show ?thesis
    by (rule that [OF r(1-5)])
      (use r(6,10) more_log [OF r(9)] more_fs [OF more_more [OF r(9)]] more_fs [OF more_more [OF r(8)]] in \<open>simp_all add: frame_def\<close>)
qed

lemma update_block:
  fixes s :: "'z fsys_scheme"
  assumes "txn s H P" "unheld s H b" "b \<notin> log_region (start s)" "room s H (Suc k)"
  obtains i s1 s2 s3 P' where "bread ROOTDEV b s = Inr (i, s1)" "get_data i s1 = view s b" "log_write i (set_data i d s1) = Inr s2"
    "brelse i s2 = Inr s3" "txn s3 H P'" "view s3 = (view s)(b := d)" "frame H s s3" "room s3 H k" "sb s1 = sb s" "inodes s1 = inodes s"
    "set (lh s3) = insert b (set (lh s))"
proof -
  obtain i s1 s2 s3 P' where r: "bread ROOTDEV b s = Inr (i, s1)" "get_data i s1 = view s b" "log_write i (set_data i d s1) = Inr s2"
    "brelse i s2 = Inr s3" "txn s3 H P'" "view s3 = (view s)(b := d)" "disk s3 = disk s" "hist s3 = hist s" "start s3 = start s"
    "bsys.more s1 = bsys.more s" "outstanding s3 = outstanding s" "length (lh s3) \<le> Suc (length (lh s))" "set (lh s3) = insert b (set (lh s))"
    "logsys.more s3 = logsys.more s" "\<And>j. j \<in> H \<Longrightarrow> b_blockno (bufs s3 ! j) = b_blockno (bufs s ! j)"
    by (rule update_block_ok [OF assms(1) _ assms(3), of d])
      (use assms(2) room_card [OF assms(1) room_mono [OF assms(4)]] in \<open>auto simp: unheld_def\<close>)
  show ?thesis
    by (rule that [OF r(1-6)])
      (use r(7-15) assms(4) more_fs [OF r(14)] more_fs [OF more_more [OF r(10)]] in \<open>simp_all add: frame_def room_def\<close>)
qed

section \<open>The free map\<close>

definition used :: "'z fsys_scheme \<Rightarrow> nat \<Rightarrow> bool" where
  "used s b \<longleftrightarrow> map_bit (view s (BBLOCK (of_nat b) (sb s))) (b mod BPB)"

definition nblocks :: "'z fsys_scheme \<Rightarrow> nat" where
  "nblocks s = unat (sb_size (sb s))"

text \<open>
  The blocks of the free map can be read and logged, and the free blocks are not among them and can be
  logged, too.
\<close>

definition map_ok :: "'z fsys_scheme \<Rightarrow> nat set \<Rightarrow> bool" where
  "map_ok s H \<longleftrightarrow>
     (\<forall>b<nblocks s. let m = BBLOCK (of_nat b) (sb s) in length (view s m) = BSIZE \<and> m \<notin> log_region (start s) \<and> unheld s H m) \<and>
     (\<forall>b<nblocks s. \<not> used s b \<longrightarrow> of_nat b \<notin> log_region (start s) \<and> unheld s H (of_nat b) \<and>
        (\<forall>c<nblocks s. of_nat b \<noteq> BBLOCK (of_nat c) (sb s)))"

lemma BBLOCK_same:
  assumes "b < 2 ^ 32" "b' < 2 ^ 32"
  shows "BBLOCK (of_nat b) p = BBLOCK (of_nat b') p \<longleftrightarrow> b div BPB = b' div BPB"
proof -
  have d: "unat ((of_nat b :: u32) div of_nat BPB) = b div BPB" if "b < 2 ^ 32" for b
  proof -
    have "unat (of_nat b :: u32) = b" using that by (simp add: unat_of_nat take_bit_nat_eq_self)
    moreover have "unat (of_nat BPB :: u32) = BPB" by (simp add: BPB_def BSIZE_def)
    ultimately show ?thesis by (simp only: unat_div)
  qed
  have "BBLOCK (of_nat b) p = BBLOCK (of_nat b') p \<longleftrightarrow> (of_nat b :: u32) div of_nat BPB = of_nat b' div of_nat BPB"
    by (simp only: BBLOCK_def add_right_cancel)
  then show ?thesis using d [OF assms(1)] d [OF assms(2)] by (simp only: word_unat_eq_iff)
qed

lemma nblocks_less: "nblocks s < 2 ^ 32"
  unfolding nblocks_def by (rule u32_bound)

lemma map_bit_set:
  assumes "length d = BSIZE" "i < BPB" "j < BPB"
  shows "map_bit (set_map_bit v i d) j = (if j = i then v else map_bit d j)"
proof -
  have l: "i div 8 < length d" "j div 8 < length d" using assms by (auto simp: BPB_def)
  have "j = i \<longleftrightarrow> j div 8 = i div 8 \<and> j mod 8 = i mod 8" by (metis div_mult_mod_eq)
  then show ?thesis using l
    by (auto simp: map_bit_def set_map_bit_def nth_list_update bit_set_bit_iff bit_unset_bit_iff)
qed

lemma length_set_map_bit [simp]: "length (set_map_bit v i d) = length d"
  by (simp add: set_map_bit_def)

lemma find_upt_Some:
  assumes "List.find Q [0..<n] = Some i"
  shows "i < n" "Q i" "\<And>j. j < i \<Longrightarrow> \<not> Q j"
  using assms by (auto simp: find_Some_iff)

text \<open>What an allocation of block \<open>b\<close> does to the blocks.\<close>

definition mark :: "bool \<Rightarrow> nat \<Rightarrow> 'z fsys_scheme \<Rightarrow> u32 \<Rightarrow> block" where
  "mark v b s = (view s)(BBLOCK (of_nat b) (sb s) := set_map_bit v (b mod BPB) (view s (BBLOCK (of_nat b) (sb s))))"

lemma bzero_ok:
  fixes s :: "'z fsys_scheme"
  assumes "txn s H P" "unheld s H b" "b \<notin> log_region (start s)" "room s H (Suc k)"
  obtains s' P' where "bzero b s = Inr s'" "txn s' H P'" "view s' = (view s)(b := replicate BSIZE 0)" "frame H s s'" "room s' H k"
proof -
  obtain i s1 s2 s3 P' where "bread ROOTDEV b s = Inr (i, s1)" "log_write i (set_data i (replicate BSIZE 0) s1) = Inr s2"
    "brelse i s2 = Inr s3" "txn s3 H P'" "view s3 = (view s)(b := replicate BSIZE 0)" "frame H s s3" "room s3 H k"
    by (rule update_block [OF assms, of "replicate BSIZE 0"])
  then show ?thesis by (intro that [of s3 P']) (simp_all add: bzero_def)
qed

lemma balloc_round:
  fixes s :: "'z fsys_scheme"
  assumes t: "txn s H P" and m: "map_ok s H" and r: "room s H (Suc (Suc k))" and b: "b < nblocks s" "b mod BPB = 0"
  shows "(\<exists>c s' P'. balloc_loop (b # bs) s = Inr (of_nat c, s') \<and> b \<le> c \<and> c < nblocks s \<and> \<not> used s c \<and> (\<forall>d. b \<le> d \<longrightarrow> d < c \<longrightarrow> used s d) \<and>
      txn s' H P' \<and> view s' = (mark True c s)(of_nat c := replicate BSIZE 0) \<and> frame H s s' \<and> room s' H k) \<or>
    (\<exists>s'. balloc_loop (b # bs) s = balloc_loop bs s' \<and> (\<forall>d. b \<le> d \<longrightarrow> d < b + BPB \<longrightarrow> d < nblocks s \<longrightarrow> used s d) \<and>
      txn s' H P \<and> view s' = view s \<and> frame H s s' \<and> lh s' = lh s)"
proof -
  let ?m = "BBLOCK (of_nat b) (sb s)" and ?n = "min BPB (nblocks s - b)"
  have mo: "length (view s ?m) = BSIZE" "?m \<notin> log_region (start s)" "unheld s H ?m" using m b by (auto simp: map_ok_def Let_def)
  have blk: "BBLOCK (of_nat (b + i)) (sb s) = ?m" "(b + i) mod BPB = i" if "i < ?n" for i
  proof -
    have "i < BPB" "b + i < 2 ^ 32" "b < 2 ^ 32" using that b nblocks_less [of s] by auto
    moreover from this have "(b + i) div BPB = b div BPB" using b(2) by (simp add: div_add1_eq [of b i BPB])
    ultimately show "BBLOCK (of_nat (b + i)) (sb s) = ?m" using BBLOCK_same by blast
    show "(b + i) mod BPB = i" using b(2) \<open>i < BPB\<close> by (metis add_0 mod_add_left_eq mod_less)
  qed
  have us: "used s (b + i) \<longleftrightarrow> map_bit (view s ?m) i" if "i < ?n" for i using blk [OF that] by (simp add: used_def)
  show ?thesis
  proof (cases "List.find (\<lambda>i. \<not> map_bit (view s ?m) i) [0..<?n]")
    case None
    then have a: "map_bit (view s ?m) i" if "i < ?n" for i using that by (auto simp: find_None_iff)
    obtain i s1 s2 where rd: "bread ROOTDEV ?m s = Inr (i, s1)" "get_data i s1 = view s ?m" "brelse i s1 = Inr s2" "txn s2 H P"
      "view s2 = view s" "frame H s s2" "lh s2 = lh s" "sb s1 = sb s"
      by (rule read_block [OF t mo(3) room_mono [OF r]]) auto
    have "balloc_loop (b # bs) s = balloc_loop bs s2" using None rd by (simp add: nblocks_def)
    moreover have "used s d" if "b \<le> d" "d < b + BPB" "d < nblocks s" for d
    proof -
      have "d - b < ?n" "b + (d - b) = d" using that by auto
      then show ?thesis using us a by metis
    qed
    ultimately show ?thesis using rd by blast
  next
    case (Some i)
    note f = find_upt_Some [OF Some]
    let ?c = "b + i" and ?d = "set_map_bit True i (view s ?m)"
    have c: "?c < nblocks s" "\<not> used s ?c" using f us by auto
    have free: "of_nat ?c \<notin> log_region (start s)" "unheld s H (of_nat ?c)" using m c unfolding map_ok_def by blast+
    obtain j s1 s2 s3 P' where up: "bread ROOTDEV ?m s = Inr (j, s1)" "get_data j s1 = view s ?m" "log_write j (set_data j ?d s1) = Inr s2"
      "brelse j s2 = Inr s3" "txn s3 H P'" "view s3 = (view s)(?m := ?d)" "frame H s s3" "room s3 H (Suc k)" "sb s1 = sb s"
      by (rule update_block [OF t mo(3,2) r, of ?d])
    obtain s' P'' where z: "bzero (of_nat ?c) s3 = Inr s'" "txn s' H P''" "view s' = (view s3)(of_nat ?c := replicate BSIZE 0)" "frame H s3 s'" "room s' H k"
      by (rule bzero_ok [OF up(5) _ _ up(8), of "of_nat ?c"]) (use free up(7) frame_unheld [OF up(7)] in \<open>auto simp: frame_def\<close>)
    have "balloc_loop (b # bs) s = Inr (of_nat ?c, s')" using Some up z by (simp add: nblocks_def)
    moreover have "used s d" if "b \<le> d" "d < ?c" for d
    proof -
      have "d - b < i" "b + (d - b) = d" using that by auto
      then show ?thesis using us f by (metis order.strict_trans)
    qed
    moreover have "view s' = (mark True ?c s)(of_nat ?c := replicate BSIZE 0)"
      using z(3) up(6) blk [of i] f(1) by (simp add: mark_def)
    ultimately show ?thesis using c z frame_trans [OF up(7) z(4)] by (intro disjI1 exI [of _ ?c] exI [of _ s'] exI [of _ P'']) simp
  qed
qed

lemma map_ok_cong:
  assumes "frame H s s'" "view s' = view s" "map_ok s H"
  shows "map_ok s' H"
proof -
  have "used s' b = used s b" "nblocks s' = nblocks s" "unheld s' H m = unheld s H m" for b m
    using assms(1,2) frame_unheld by (auto simp: used_def nblocks_def frame_def)
  then show ?thesis using assms by (simp add: map_ok_def frame_def Let_def)
qed

lemma balloc_loop_ok:
  fixes s :: "'z fsys_scheme"
  assumes "txn s H P" "map_ok s H" "room s H (Suc (Suc k))" "\<forall>b<j * BPB. b < nblocks s \<longrightarrow> used s b" "(n - 1) * BPB < nblocks s" "nblocks s \<le> n * BPB"
  shows "(\<exists>c s' P'. balloc_loop (map (\<lambda>k. k * BPB) [j..<n]) s = Inr (of_nat c, s') \<and> c < nblocks s \<and> \<not> used s c \<and> (\<forall>d<c. used s d) \<and>
      txn s' H P' \<and> view s' = (mark True c s)(of_nat c := replicate BSIZE 0) \<and> frame H s s' \<and> room s' H k) \<or>
    (\<exists>s'. balloc_loop (map (\<lambda>k. k * BPB) [j..<n]) s = Inr (0, s') \<and> (\<forall>d<nblocks s. used s d) \<and>
      txn s' H P \<and> view s' = view s \<and> frame H s s' \<and> lh s' = lh s)"
  using assms
proof (induction "n - j" arbitrary: j s)
  case 0
  then have "n \<le> j" by simp
  then have "n * BPB \<le> j * BPB" by (rule mult_le_mono1)
  then have "nblocks s \<le> j * BPB" using 0 by linarith
  then show ?case using 0 by (auto intro: exI [of _ s])
next
  case (Suc x)
  then have j: "j < n" and l: "[j..<n] = j # [Suc j..<n]" by (simp_all add: upt_conv_Cons)
  have "j * BPB \<le> (n - 1) * BPB" using j by (intro mult_le_mono1) simp
  then have b: "j * BPB < nblocks s" "(j * BPB) mod BPB = 0" using Suc.prems(5) by (rule le_less_trans, simp)
  from balloc_round [OF Suc.prems(1-3) b, of "map (\<lambda>k. k * BPB) [Suc j..<n]"] show ?case
  proof (elim disjE exE conjE)
    fix c s' P'
    assume "balloc_loop (j * BPB # map (\<lambda>k. k * BPB) [Suc j..<n]) s = Inr (of_nat c, s')" "c < nblocks s" "\<not> used s c"
      "\<forall>d. j * BPB \<le> d \<longrightarrow> d < c \<longrightarrow> used s d" "txn s' H P'" "view s' = (mark True c s)(of_nat c := replicate BSIZE 0)" "frame H s s'" "room s' H k"
    moreover from this have "\<forall>d<c. used s d" using Suc.prems(4) by (meson less_trans not_le)
    ultimately show ?thesis unfolding l by (intro disjI1 exI [of _ c] exI [of _ s'] exI [of _ P']) simp
  next
    fix s'
    assume e: "balloc_loop (j * BPB # map (\<lambda>k. k * BPB) [Suc j..<n]) s = balloc_loop (map (\<lambda>k. k * BPB) [Suc j..<n]) s'"
      and u: "\<forall>d. j * BPB \<le> d \<longrightarrow> d < j * BPB + BPB \<longrightarrow> d < nblocks s \<longrightarrow> used s d"
      and s': "txn s' H P" "view s' = view s" "frame H s s'" "lh s' = lh s"
    have same: "nblocks s' = nblocks s" "used s' = used s" "mark True c s' = mark True c s" for c
      using s' by (auto simp: nblocks_def used_def mark_def frame_def fun_eq_iff)
    have "\<forall>b<Suc j * BPB. b < nblocks s' \<longrightarrow> used s' b" using u Suc.prems(4) same by (auto simp: add.commute) (meson not_le)
    then have D: "(\<exists>c s'' P'. balloc_loop (map (\<lambda>k. k * BPB) [Suc j..<n]) s' = Inr (of_nat c, s'') \<and> c < nblocks s' \<and> \<not> used s' c \<and> (\<forall>d<c. used s' d) \<and>
      txn s'' H P' \<and> view s'' = (mark True c s')(of_nat c := replicate BSIZE 0) \<and> frame H s' s'' \<and> room s'' H k) \<or>
    (\<exists>s''. balloc_loop (map (\<lambda>k. k * BPB) [Suc j..<n]) s' = Inr (0, s'') \<and> (\<forall>d<nblocks s'. used s' d) \<and>
      txn s'' H P \<and> view s'' = view s' \<and> frame H s' s'' \<and> lh s'' = lh s')"
      using s'(1,4) map_ok_cong [OF s'(3,2) Suc.prems(2)] Suc.prems(3,5,6) Suc.hyps(2) same(1)
      by (intro Suc.hyps(1)) (simp_all add: room_def)
    have e': "balloc_loop (map (\<lambda>k. k * BPB) [j..<n]) s = balloc_loop (map (\<lambda>k. k * BPB) [Suc j..<n]) s'" using l e by simp
    from D [unfolded same s'(2,4)] show ?thesis
    proof (elim disjE exE conjE)
      fix c s'' P' assume "frame H s' s''" and *: "balloc_loop (map (\<lambda>k. k * BPB) [Suc j..<n]) s' = Inr (of_nat c, s'')" "c < nblocks s" "\<not> used s c"
        "\<forall>d<c. used s d" "txn s'' H P'" "view s'' = (mark True c s)(of_nat c := replicate BSIZE 0)" "room s'' H k"
      then have "frame H s s''" using frame_trans [OF s'(3)] by simp
      with * show ?thesis unfolding e' by (intro disjI1 exI [of _ c] exI [of _ s''] exI [of _ P'] conjI)
    next
      fix s'' assume "frame H s' s''" and *: "balloc_loop (map (\<lambda>k. k * BPB) [Suc j..<n]) s' = Inr (0, s'')" "\<forall>d<nblocks s. used s d"
        "txn s'' H P" "view s'' = view s" "lh s'' = lh s"
      then have "frame H s s''" using frame_trans [OF s'(3)] by simp
      with * show ?thesis unfolding e' by (intro disjI2 exI [of _ s''] conjI)
    qed
  qed
qed

lemma map_starts_eq:
  assumes "0 < n"
  shows "map_starts n = map (\<lambda>k. k * BPB) [0..<(n + BPB - 1) div BPB]" "((n + BPB - 1) div BPB - 1) * BPB < n" "n \<le> (n + BPB - 1) div BPB * BPB"
proof -
  have B: "0 < BPB" by (simp add: BPB_def BSIZE_def)
  show "map_starts n = map (\<lambda>k. k * BPB) [0..<(n + BPB - 1) div BPB]" by (simp add: map_starts_def)
  let ?q = "(n + BPB - 1) div BPB"
  have d: "?q * BPB + (n + BPB - 1) mod BPB = n + BPB - 1" "(n + BPB - 1) mod BPB < BPB" using B by auto
  show "n \<le> ?q * BPB" using d B by linarith
  have "0 < ?q" using assms B by (simp add: div_greater_zero_iff)
  then have "(?q - 1) * BPB = ?q * BPB - BPB" by (simp add: diff_mult_distrib)
  then show "(?q - 1) * BPB < n" using d B assms by linarith
qed

lemma balloc_ok:
  fixes s :: "'z fsys_scheme"
  assumes "txn s H P" "map_ok s H" "room s H (Suc (Suc k))" "0 < nblocks s"
  shows "(\<exists>b s' P'. balloc s = Inr (of_nat b, s') \<and> b < nblocks s \<and> \<not> used s b \<and> (\<forall>c<b. used s c) \<and>
      txn s' H P' \<and> view s' = (mark True b s)(of_nat b := replicate BSIZE 0) \<and> frame H s s' \<and> room s' H k) \<or>
    (\<exists>s'. balloc s = Inr (0, s') \<and> (\<forall>b<nblocks s. used s b) \<and> txn s' H P \<and> view s' = view s \<and> frame H s s' \<and> lh s' = lh s)"
proof -
  note m = map_starts_eq [OF assms(4)]
  have "balloc s = balloc_loop (map (\<lambda>k. k * BPB) [0..<(nblocks s + BPB - 1) div BPB]) s" by (simp add: balloc_def m(1) flip: nblocks_def)
  then show ?thesis using balloc_loop_ok [OF assms(1-3), of 0, OF _ m(2,3)] by simp
qed

lemma set_map_bit_undo: "\<not> map_bit d i \<Longrightarrow> i div 8 < length d \<Longrightarrow> set_map_bit False i (set_map_bit True i d) = d"
proof -
  assume a: "\<not> map_bit d i" "i div 8 < length d"
  have "unset_bit (i mod 8) (set_bit (i mod 8) (d ! (i div 8))) = d ! (i div 8)"
    by (rule bit_word_eqI) (use a(1) in \<open>auto simp: map_bit_def bit_unset_bit_iff bit_set_bit_iff\<close>)
  then show ?thesis using a(2) by (simp add: set_map_bit_def)
qed

lemma bfree_ok:
  fixes s :: "'z fsys_scheme"
  assumes t: "txn s H P" and b: "BBLOCK (of_nat b) (sb s) \<notin> log_region (start s)" "unheld s H (BBLOCK (of_nat b) (sb s))" "b < 2 ^ 32"
    and r: "room s H (Suc k)"
  shows "used s b \<Longrightarrow> \<exists>s' P'. bfree (of_nat b) s = Inr s' \<and> txn s' H P' \<and> view s' = mark False b s \<and> frame H s s' \<and> room s' H k"
    and "\<not> used s b \<Longrightarrow> bfree (of_nat b) s = Inl (Panic ''freeing free block'')"
proof -
  let ?m = "BBLOCK (of_nat b) (sb s)" and ?i = "b mod BPB"
  have u: "unat (of_nat b :: u32) mod BPB = ?i" using b(3) by (simp add: unat_of_nat take_bit_nat_eq_self)
  obtain j s1 s2 s3 P' where up: "bread ROOTDEV ?m s = Inr (j, s1)" "get_data j s1 = view s ?m"
    "log_write j (set_data j (set_map_bit False ?i (view s ?m)) s1) = Inr s2" "brelse j s2 = Inr s3" "txn s3 H P'"
    "view s3 = (view s)(?m := set_map_bit False ?i (view s ?m))" "frame H s s3" "room s3 H k"
    by (rule update_block [OF t b(2,1) r, of "set_map_bit False ?i (view s ?m)"])
  show "\<exists>s' P'. bfree (of_nat b) s = Inr s' \<and> txn s' H P' \<and> view s' = mark False b s \<and> frame H s s' \<and> room s' H k" if "used s b"
    using up u that by (intro exI [of _ s3] exI [of _ P']) (simp add: bfree_def used_def mark_def panic_if_def)
  show "bfree (of_nat b) s = Inl (Panic ''freeing free block'')" if "\<not> used s b"
    using up(1,2) u that by (simp add: bfree_def used_def panic_if_def)
qed

text \<open>What the code after an allocation sees of the free map.\<close>

lemma used_after:
  assumes "view s' = (mark v b s)(of_nat b := z)" "frame H s s'" "b < nblocks s" "c < nblocks s" "map_ok s H" "\<not> used s b"
  shows "used s' c = (if c = b then v else used s c)" "length (view s' (BBLOCK (of_nat b) (sb s'))) = BSIZE"
proof -
  let ?m = "\<lambda>c. BBLOCK (of_nat c) (sb s)"
  have ne: "of_nat b \<noteq> ?m c" "of_nat b \<noteq> ?m b" and l: "length (view s (?m b)) = BSIZE"
    using assms(3-6) unfolding map_ok_def Let_def by blast+
  have v: "view s' (?m c) = (if c div BPB = b div BPB then set_map_bit v (b mod BPB) (view s (?m b)) else view s (?m c))"
    using ne assms(1) BBLOCK_same [of c b "sb s"] assms(3,4) nblocks_less [of s] by (simp add: mark_def)
  have i: "b mod BPB < BPB" "c mod BPB < BPB" by (simp_all add: BPB_def BSIZE_def)
  have "c = b \<longleftrightarrow> c div BPB = b div BPB \<and> c mod BPB = b mod BPB" by (metis div_mult_mod_eq)
  moreover have "?m c = ?m b" if "c div BPB = b div BPB" using BBLOCK_same [of c b "sb s"] that assms(3,4) nblocks_less [of s] by simp
  ultimately show "used s' c = (if c = b then v else used s c)"
    using v map_bit_set [OF l i, of v] assms(2) by (auto simp: used_def frame_def)
  show "length (view s' (BBLOCK (of_nat b) (sb s'))) = BSIZE" using ne(2) assms(1,2) l by (simp add: frame_def mark_def)
qed

section \<open>Properties\<close>

text \<open>
  C13. Inside a transaction with room for two more blocks, \<^verbatim>\<open>balloc\<close> returns the first block that the free
  map shows as free, after marking it used and clearing it; the free map and that block are all that
  changes. When every block is used it returns 0 and changes no block. It never panics and never waits.
\<close>

theorem balloc_first_free:
  fixes s :: "'z fsys_scheme"
  assumes "txn s H P" "map_ok s H" "room s H 2" "0 < nblocks s"
  shows "(\<exists>b s' P'. balloc s = Inr (of_nat b, s') \<and> b < nblocks s \<and> \<not> used s b \<and> (\<forall>c<b. used s c) \<and>
      txn s' H P' \<and> view s' = (mark True b s)(of_nat b := replicate BSIZE 0) \<and> frame H s s') \<or>
    (\<exists>s'. balloc s = Inr (0, s') \<and> (\<forall>b<nblocks s. used s b) \<and> txn s' H P \<and> view s' = view s \<and> frame H s s')"
  using balloc_ok [OF assms(1,2), of 0] assms(3,4) by (simp add: numeral_2_eq_2) blast

text \<open>
  C24. \<^verbatim>\<open>bfree\<close> gives back what \<^verbatim>\<open>balloc\<close> took: after allocating a block and freeing it the free map is what
  it was and only the block itself has changed. Freeing it once more panics, and so does freeing any
  block that the free map shows as free.
\<close>

theorem bfree_undoes_balloc:
  fixes s :: "'z fsys_scheme"
  assumes "txn s H P" "map_ok s H" "room s H 4" "f < nblocks s" "\<not> used s f"
  shows "bfree (of_nat f) s = Inl (Panic ''freeing free block'') \<and>
    (\<exists>b s1 s2 P'. balloc s = Inr (of_nat b, s1) \<and> b \<le> f \<and> \<not> used s b \<and> used s1 b \<and> bfree (of_nat b) s1 = Inr s2 \<and> txn s2 H P' \<and> frame H s s2 \<and>
      view s2 = (view s)(of_nat b := replicate BSIZE 0) \<and> bfree (of_nat b) s2 = Inl (Panic ''freeing free block''))"
proof
  have n: "0 < nblocks s" "f < 2 ^ 32" using assms(4) nblocks_less [of s] by auto
  have mf: "BBLOCK (of_nat c) (sb s) \<notin> log_region (start s)" "unheld s H (BBLOCK (of_nat c) (sb s))" if "c < nblocks s" for c
    using assms(2) that unfolding map_ok_def Let_def by blast+
  show "bfree (of_nat f) s = Inl (Panic ''freeing free block'')"
    by (rule bfree_ok(2) [OF assms(1) mf [OF assms(4)] n(2) _ assms(5), of 0]) (use assms(3) in \<open>simp add: room_def\<close>)
  have r: "room s H (Suc (Suc 2))" using assms(3) by (simp add: numeral_eq_Suc)
  obtain b s1 P1 where b: "balloc s = Inr (of_nat b, s1)" "b < nblocks s" "\<not> used s b" "\<forall>c<b. used s c"
    and s1: "txn s1 H P1" "view s1 = (mark True b s)(of_nat b := replicate BSIZE 0)" "frame H s s1" "room s1 H 2"
    using balloc_ok [OF assms(1,2) r n(1)] assms(4,5) by auto
  have b32: "b < 2 ^ 32" using b(2) nblocks_less [of s] by simp
  let ?m = "BBLOCK (of_nat b) (sb s)"
  have ne: "of_nat b \<noteq> ?m" and l: "length (view s ?m) = BSIZE" using assms(2) b(2,3) unfolding map_ok_def Let_def by blast+
  have u1: "used s1 b" using used_after(1) [OF s1(2,3) b(2,2) assms(2) b(3)] by simp
  have m1: "BBLOCK (of_nat b) (sb s1) \<notin> log_region (start s1)" "unheld s1 H (BBLOCK (of_nat b) (sb s1))"
    using mf [OF b(2)] s1(3) frame_unheld [OF s1(3)] by (simp_all add: frame_def)
  obtain s2 P2 where s2: "bfree (of_nat b) s1 = Inr s2" "txn s2 H P2" "view s2 = mark False b s1" "frame H s1 s2" "room s2 H 1"
    using bfree_ok(1) [OF s1(1) m1 b32 _ u1, of 1] s1(4) by (auto simp: numeral_2_eq_2)
  have fr: "frame H s s2" by (rule frame_trans [OF s1(3) s2(4)])
  have bit: "\<not> map_bit (view s ?m) (b mod BPB)" "b mod BPB div 8 < length (view s ?m)"
    using b(3) l by (simp_all add: used_def less_mult_imp_div_less [of _ BSIZE 8] BPB_def BSIZE_def)
  have v2: "view s2 = (view s)(of_nat b := replicate BSIZE 0)"
    using s2(3) s1(2,3) ne set_map_bit_undo [OF bit] by (auto simp: mark_def frame_def fun_eq_iff)
  then have u2: "\<not> used s2 b" using b(3) ne fr by (simp add: used_def frame_def)
  have m2: "BBLOCK (of_nat b) (sb s2) \<notin> log_region (start s2)" "unheld s2 H (BBLOCK (of_nat b) (sb s2))"
    using mf [OF b(2)] fr frame_unheld [OF fr] by (simp_all add: frame_def)
  have "bfree (of_nat b) s2 = Inl (Panic ''freeing free block'')"
    by (rule bfree_ok(2) [OF s2(2) m2 b32 _ u2, of 0]) (use s2(5) in simp)
  moreover have "b \<le> f" using b(4) assms(5) by (meson not_le)
  ultimately show "\<exists>b s1 s2 P'. balloc s = Inr (of_nat b, s1) \<and> b \<le> f \<and> \<not> used s b \<and> used s1 b \<and> bfree (of_nat b) s1 = Inr s2 \<and> txn s2 H P' \<and> frame H s s2 \<and>
      view s2 = (view s)(of_nat b := replicate BSIZE 0) \<and> bfree (of_nat b) s2 = Inl (Panic ''freeing free block'')"
    using b(1,3) u1 s2(1,2) fr v2 by (intro exI conjI)
qed

text \<open>A disk of 200 blocks with the log at block 2, the inodes from block 33, the free map in block 46.\<close>

definition super0 :: superblock where
  "super0 = \<lparr>sb_magic = FSMAGIC, sb_size = 200, sb_nblocks = 152, sb_ninodes = 200, sb_nlog = 31, sb_logstart = 2, sb_inodestart = 33, sb_bmapstart = 46\<rparr>"

definition bitmap0 :: block where
  "bitmap0 = replicate 6 255 @ replicate (BSIZE - 6) 0"

definition fsys_on :: "(u32 \<Rightarrow> block) \<Rightarrow> inode list \<Rightarrow> fsys" where
  "fsys_on d is = binit \<lparr>bufs = [], lru = [], disk = d, hist = [], curpid = 5,
     start = 2, outstanding = 1, committing = False, ncommit = 0, lh = [], sb = super0, inodes = is\<rparr>"

lemma fsys_on_fields [simp]:
  "txn (fsys_on d is) {} {}" "view (fsys_on d is) = d" "start (fsys_on d is) = 2" "sb (fsys_on d is) = super0" "inodes (fsys_on d is) = is"
  "lh (fsys_on d is) = []" "unheld (fsys_on d is) {} b" "curpid (fsys_on d is) = 5" "outstanding (fsys_on d is) = 1"
  unfolding txn_def fsys_on_def unheld_def by (simp_all add: binit_ok) (simp_all add: binit_def)

lemma length_bitmap0: "length bitmap0 = BSIZE"
  by (simp add: bitmap0_def BSIZE_def)

lemma bitmap0_bits: "i < BPB \<Longrightarrow> map_bit bitmap0 i \<longleftrightarrow> i < 48"
proof -
  assume "i < BPB"
  then have i: "i div 8 < BSIZE" "i mod 8 < 8" by (simp_all add: BPB_def less_mult_imp_div_less)
  have "bit (255 :: u8) k" if "k < 8" for k using that by (auto simp: eval_nat_numeral less_Suc_eq)
  moreover have "i < 48 \<longleftrightarrow> i div 8 < 6" by auto
  ultimately show ?thesis using i by (simp add: map_bit_def bitmap0_def nth_append)
qed

lemma fsys_on_map:
  assumes "d 46 = bitmap0"
  shows "nblocks (fsys_on d is) = 200" "b < 200 \<Longrightarrow> used (fsys_on d is) b \<longleftrightarrow> b < 48" "map_ok (fsys_on d is) {}"
proof -
  show n: "nblocks (fsys_on d is) = 200" by (simp add: nblocks_def super0_def)
  have m: "BBLOCK (of_nat b) super0 = 46" "b mod BPB = b" "b < BPB" if "b < 200" for b
  proof -
    show "b mod BPB = b" "b < BPB" using that by (simp_all add: BPB_def BSIZE_def)
    have "BBLOCK (of_nat b) super0 = BBLOCK (of_nat 0) super0" using that by (subst BBLOCK_same) (simp_all add: BPB_def BSIZE_def)
    then show "BBLOCK (of_nat b) super0 = 46" by (simp add: BBLOCK_def super0_def)
  qed
  show u: "used (fsys_on d is) b \<longleftrightarrow> b < 48" if "b < 200" for b using m [OF that] assms by (simp add: used_def bitmap0_bits)
  have "(46 :: u32) \<notin> log_region 2" by (rule after_log) simp
  moreover have "(of_nat b :: u32) \<notin> log_region 2 \<and> of_nat b \<noteq> (46 :: u32)" if "b < 200" "\<not> b < 48" for b
    using that after_log [of "of_nat b"] by (simp add: unat_of_nat take_bit_nat_eq_self word_unat_eq_iff)
  ultimately show "map_ok (fsys_on d is) {}" using assms length_bitmap0 unfolding map_ok_def n Let_def by (simp add: m u)
qed

theorem balloc_first_free_witness:
  "\<exists>s'. balloc (fsys_on ((\<lambda>_. replicate BSIZE 7)(46 := bitmap0)) []) = Inr (48, s') \<and> view s' 48 = replicate BSIZE 0 \<and> used s' 48 \<and> \<not> used s' 49"
proof -
  let ?d = "(\<lambda>_. replicate BSIZE 7)(46 := bitmap0)" let ?s = "fsys_on ?d []"
  have "?d 46 = bitmap0" by simp
  note f = fsys_on_map [where d = ?d and ?is = "[]", OF this]
  have r: "room ?s {} 2" by (simp add: room_def NBUF_def MAXOPBLOCKS_def)
  have "\<not> used ?s 48" using f by simp
  moreover from this have "\<not> (\<forall>b<nblocks ?s. used ?s b)" using f(1) by (auto intro: exI [of _ 48])
  moreover have "0 < nblocks ?s" using f(1) by simp
  ultimately obtain b s' where b: "balloc ?s = Inr (of_nat b, s')" "b < nblocks ?s" "\<not> used ?s b" "\<forall>c<b. used ?s c"
    and v: "view s' = (mark True b ?s)(of_nat b := replicate BSIZE 0)" and fr: "frame {} ?s s'"
    using balloc_first_free [OF fsys_on_fields(1) f(3) r] by blast
  have "b = 48" using b f(1) f(2) [of b] f(2) [of 48] by (metis \<open>\<not> used ?s 48\<close> linorder_neqE_nat)
  moreover have "map_bit (set_map_bit True 48 bitmap0) 48" "\<not> map_bit (set_map_bit True 48 bitmap0) 49"
    by (simp_all add: map_bit_set bitmap0_bits length_bitmap0 BPB_def BSIZE_def)
  ultimately show ?thesis using b v fr
    by (auto simp: mark_def used_def frame_def BBLOCK_def super0_def BPB_def BSIZE_def)
qed

theorem bfree_undoes_balloc_witness:
  "\<exists>b s1 s2. balloc (fsys_on ((\<lambda>_. replicate BSIZE 0)(46 := bitmap0)) []) = Inr (of_nat b, s1) \<and> b \<le> 50 \<and> bfree (of_nat b) s1 = Inr s2 \<and>
     view s2 = (\<lambda>_. replicate BSIZE 0)(46 := bitmap0)"
proof -
  let ?d = "(\<lambda>_. replicate BSIZE 0)(46 := bitmap0)" let ?s = "fsys_on ?d []"
  have "?d 46 = bitmap0" by simp
  note f = fsys_on_map [where d = ?d and ?is = "[]", OF this]
  have r: "room ?s {} 4" by (simp add: room_def NBUF_def MAXOPBLOCKS_def)
  have "50 < nblocks ?s" "\<not> used ?s 50" using f(1) f(2) [of 50] by simp_all
  from bfree_undoes_balloc [OF fsys_on_fields(1) f(3) r this] obtain b s1 s2 where
    b: "balloc ?s = Inr (of_nat b, s1)" "b \<le> 50" "bfree (of_nat b) s1 = Inr s2" "view s2 = (view ?s)(of_nat b := replicate BSIZE 0)"
    "bfree (of_nat b) s2 = Inl (Panic ''freeing free block'')" "\<not> used ?s b" by blast
  have "unat (of_nat b :: u32) = b" using b(2) by (simp add: unat_of_nat take_bit_nat_eq_self)
  then have "(of_nat b :: u32) \<noteq> 46" using b(2,6) f(2) [of b] by auto
  then show ?thesis using b(1-4) by (intro exI [of _ b] exI [of _ s1] exI [of _ s2]) (auto simp: fun_eq_iff)
qed

end
