(* ===== verification/Inode.thy ===== *)
theory Inode
  imports Balloc
begin

text \<open>
  Inodes on disk and in the inode table: what \<^verbatim>\<open>iupdate\<close> writes and \<^verbatim>\<open>ilock\<close> reads.
\<close>

section \<open>The inode table\<close>

lemma upd_inode_fields [simp]:
  "sb (upd_inode ip f s) = sb s" "start (upd_inode ip f s) = start s" "lh (upd_inode ip f s) = lh s" "bufs (upd_inode ip f s) = bufs s"
  "disk (upd_inode ip f s) = disk s" "outstanding (upd_inode ip f s) = outstanding s" "curpid (upd_inode ip f s) = curpid s"
  "length (inodes (upd_inode ip f s)) = length (inodes s)" "hist (upd_inode ip f s) = hist s"
  by (simp_all add: upd_inode_def)

lemma inode_upd [simp]:
  "ip < length (inodes s) \<Longrightarrow> inodes (upd_inode ip f s) ! jp = (if jp = ip then f (inodes s ! ip) else inodes s ! jp)"
  by (simp add: upd_inode_def nth_list_update)

lemma inodes_txn [simp]:
  "txn (upd_inode ip f s) H P = txn s H P" "view (upd_inode ip f s) = view s" "room (upd_inode ip f s) H k = room s H k"
  "unheld (upd_inode ip f s) H b = unheld s H b"
  by (simp_all add: upd_inode_def txn_def bc_def view_def room_def unheld_def fun_eq_iff split: option.split)

lemma set_inodes_txn [simp]:
  "txn (s\<lparr>inodes := x\<rparr>) H P = txn s H P" "view (s\<lparr>inodes := x\<rparr>) = view s" "room (s\<lparr>inodes := x\<rparr>) H k = room s H k"
  "unheld (s\<lparr>inodes := x\<rparr>) H b = unheld s H b"
  by (simp_all add: txn_def bc_def view_def room_def unheld_def fun_eq_iff split: option.split)

lemma brelse_inodes: "brelse j s = Inr s' \<Longrightarrow> brelse j (s\<lparr>inodes := x\<rparr>) = Inr (s'\<lparr>inodes := x\<rparr>)"
  by (cases s) (auto simp: brelse_def upd_buf_def panic_if_def Let_def split: if_splits)

section \<open>Inodes on disk\<close>

lemma get16_put_words_before:
  "off + 4 * length ws \<le> length d \<Longrightarrow> off' + 2 \<le> off \<Longrightarrow> get16 off' (put_words off ws d) = get16 off' d"
  by (induction ws arbitrary: off d) (simp_all add: get16_put32)

lemma nth_put_other:
  "off + 2 \<le> length d \<Longrightarrow> j < length d \<Longrightarrow> j < off \<or> off + 2 \<le> j \<Longrightarrow> put16 off w d ! j = d ! j"
  "off + 4 \<le> length d \<Longrightarrow> j < length d \<Longrightarrow> j < off \<or> off + 4 \<le> j \<Longrightarrow> put32 off v d ! j = d ! j"
  "off + 4 * length ws \<le> length d \<Longrightarrow> j < length d \<Longrightarrow> j < off \<or> off + 4 * length ws \<le> j \<Longrightarrow> put_words off ws d ! j = d ! j"
proof -
  show "off + 2 \<le> length d \<Longrightarrow> j < length d \<Longrightarrow> j < off \<or> off + 2 \<le> j \<Longrightarrow> put16 off w d ! j = d ! j"
    by (auto simp: put16_def nth_put_at)
  show p: "off + 4 \<le> length d \<Longrightarrow> j < length d \<Longrightarrow> j < off \<or> off + 4 \<le> j \<Longrightarrow> put32 off v d ! j = d ! j" for off v d
    by (auto simp: put32_def nth_put_at)
  show "off + 4 * length ws \<le> length d \<Longrightarrow> j < length d \<Longrightarrow> j < off \<or> off + 4 * length ws \<le> j \<Longrightarrow> put_words off ws d ! j = d ! j"
    by (induction ws arbitrary: off d) (auto simp: p)
qed

text \<open>The part of an inode that lives on disk.\<close>

definition dfields :: "inode \<Rightarrow> inode \<Rightarrow> inode" where
  "dfields i j = j\<lparr>i_type := i_type i, i_major := i_major i, i_minor := i_minor i, i_nlink := i_nlink i, i_size := i_size i, i_addrs := i_addrs i\<rparr>"

definition disk_inode :: "'z fsys_scheme \<Rightarrow> u32 \<Rightarrow> inode" where
  "disk_inode s n = dinode_get (dino_off n) (view s (IBLOCK n (sb s))) empty_inode"

lemma dino_off_less: "dino_off n + DINODE \<le> BSIZE"
proof -
  have "unat n mod 16 < 16" by simp
  then show ?thesis unfolding dino_off_def IPB_def DINODE_def BSIZE_def by simp
qed

lemma dinode_get_put:
  assumes "length d = BSIZE" "length (i_addrs i) = NDIRECT + 1" "off + DINODE \<le> BSIZE"
  shows "dinode_get off (dinode_put i off d) j = dfields i j" "length (dinode_put i off d) = BSIZE"
proof -
  let ?d = "put32 (off + 8) (i_size i) (put16 (off + 6) (i_nlink i)
     (put16 (off + 4) (i_minor i) (put16 (off + 2) (i_major i) (put16 off (i_type i) d))))"
  have l: "length ?d = BSIZE" using assms by (simp add: DINODE_def)
  have w: "off + 12 + 4 * length (i_addrs i) \<le> length ?d" using assms l by (simp add: DINODE_def NDIRECT_def)
  show "length (dinode_put i off d) = BSIZE" using l w by (simp add: dinode_put_def)
  show "dinode_get off (dinode_put i off d) j = dfields i j"
    using assms l w get_words_put_words [OF w]
    by (simp add: dinode_get_def dinode_put_def dfields_def get16_put_words_before get32_put_words_before field_simps_bytes DINODE_def NDIRECT_def)
qed

lemma dinode_put_other:
  assumes "length d = BSIZE" "length (i_addrs i) = NDIRECT + 1" "off + DINODE \<le> BSIZE" "j < BSIZE" "j < off \<or> off + DINODE \<le> j"
  shows "dinode_put i off d ! j = d ! j"
  using assms unfolding dinode_put_def DINODE_def NDIRECT_def by (auto simp: nth_put_other)

lemma dinode_get_other:
  assumes "length d = BSIZE" "length (i_addrs i) = NDIRECT + 1" "off + DINODE \<le> BSIZE" "off' + DINODE \<le> BSIZE"
    "off' + DINODE \<le> off \<or> off + DINODE \<le> off'"
  shows "dinode_get off' (dinode_put i off d) j = dinode_get off' d j"
proof -
  let ?d = "dinode_put i off d"
  have l: "length ?d = BSIZE" by (rule dinode_get_put(2) [OF assms(1-3)])
  have g: "get_at (off' + x) n ?d = get_at (off' + x) n d" if "x + n \<le> DINODE" for x n
    using assms l that by (intro nth_equalityI) (auto simp: nth_get_at dinode_put_other)
  have "get_at off' 2 ?d = get_at off' 2 d" using g [of 0 2] by (simp add: DINODE_def)
  moreover have "get_at (off' + 2) 2 ?d = get_at (off' + 2) 2 d" by (rule g) (simp add: DINODE_def)
  moreover have "get_words (off' + 12) (NDIRECT + 1) ?d = get_words (off' + 12) (NDIRECT + 1) d"
    unfolding get_words_def get32_def add.assoc by (rule map_cong [OF refl]) (subst g, auto simp: DINODE_def NDIRECT_def)
  ultimately show ?thesis by (simp only: dinode_get_def get16_def get32_def) (simp add: g DINODE_def)
qed

lemma IBLOCK_same: "IBLOCK n p = IBLOCK m p \<longleftrightarrow> unat n div IPB = unat m div IPB"
proof -
  have "unat (of_nat IPB :: u32) = IPB" by (simp add: IPB_def BSIZE_def DINODE_def)
  moreover have "IBLOCK n p = IBLOCK m p \<longleftrightarrow> n div of_nat IPB = m div of_nat IPB" by (simp only: IBLOCK_def add_right_cancel)
  ultimately show ?thesis by (simp only: word_unat_eq_iff unat_div)
qed

lemma dino_off_apart:
  assumes "n \<noteq> m" "IBLOCK n p = IBLOCK m p"
  shows "dino_off n + DINODE \<le> dino_off m \<or> dino_off m + DINODE \<le> dino_off n"
proof -
  have "unat n mod IPB \<noteq> unat m mod IPB" using assms by (metis IBLOCK_same div_mult_mod_eq word_unat_eq_iff)
  then have "unat n mod IPB + 1 \<le> unat m mod IPB \<or> unat m mod IPB + 1 \<le> unat n mod IPB" by linarith
  then show ?thesis by (auto simp: dino_off_def DINODE_def)
qed

section \<open>Updating and locking\<close>

text \<open>An entry of the inode table that may be written back.\<close>

definition inode_ok :: "'z fsys_scheme \<Rightarrow> nat set \<Rightarrow> nat \<Rightarrow> bool" where
  "inode_ok s H ip \<longleftrightarrow> ip < length (inodes s) \<and> i_dev (ino s ip) = ROOTDEV \<and> length (i_addrs (ino s ip)) = NDIRECT + 1 \<and>
     (let b = IBLOCK (i_inum (ino s ip)) (sb s) in length (view s b) = BSIZE \<and> b \<notin> log_region (start s) \<and> unheld s H b)"

lemma iupdate_ok:
  fixes s :: "'z fsys_scheme"
  assumes t: "txn s H P" and i: "inode_ok s H ip" and r: "room s H (Suc k)"
  obtains s' P' where "iupdate ip s = Inr s'" "txn s' H P'" "frame H s s'" "room s' H k"
    "view s' = (view s)(IBLOCK (i_inum (ino s ip)) (sb s) := dinode_put (ino s ip) (dino_off (i_inum (ino s ip))) (view s (IBLOCK (i_inum (ino s ip)) (sb s))))"
    "\<And>n. disk_inode s' n = (if n = i_inum (ino s ip) then dfields (ino s ip) empty_inode else disk_inode s n)"
proof -
  let ?i = "ino s ip" let ?b = "IBLOCK (i_inum ?i) (sb s)" and ?o = "dino_off (i_inum ?i)"
  let ?d = "dinode_put ?i ?o (view s ?b)"
  have o: "length (view s ?b) = BSIZE" "?b \<notin> log_region (start s)" "unheld s H ?b" "i_dev ?i = ROOTDEV" "length (i_addrs ?i) = NDIRECT + 1"
    using i by (auto simp: inode_ok_def Let_def)
  obtain j s1 s2 s3 P' where up: "bread ROOTDEV ?b s = Inr (j, s1)" "get_data j s1 = view s ?b" "log_write j (set_data j ?d s1) = Inr s2"
    "brelse j s2 = Inr s3" "txn s3 H P'" "view s3 = (view s)(?b := ?d)" "frame H s s3" "room s3 H k" "inodes s1 = inodes s"
    by (rule update_block [OF t o(3,2) r, of ?d])
  have "disk_inode s3 n = (if n = i_inum ?i then dfields ?i empty_inode else disk_inode s n)" for n
  proof (cases "IBLOCK n (sb s) = ?b")
    case True
    then show ?thesis using up(6,7) dinode_get_put(1) [OF o(1,5) dino_off_less] dinode_get_other [OF o(1,5) dino_off_less dino_off_less] dino_off_apart
      by (auto simp: disk_inode_def frame_def)
  next
    case False
    then show ?thesis using up(6,7) by (auto simp: disk_inode_def frame_def)
  qed
  then show ?thesis using up o(4) by (intro that [of s3 P']) (simp_all add: iupdate_def)
qed

lemma ilock_ok:
  fixes s :: "'z fsys_scheme"
  assumes t: "txn s H P" and i: "ip < length (inodes s)" "i_dev (ino s ip) = ROOTDEV" "1 \<le> i_ref (ino s ip)" "\<not> sl_locked (i_lock (ino s ip))"
    and b: "unheld s H (IBLOCK (i_inum (ino s ip)) (sb s))" and r: "room s H 1"
  shows "i_valid (ino s ip) \<Longrightarrow> \<exists>lk. ilock ip s = Inr (upd_inode ip (\<lambda>i. i\<lparr>i_lock := lk\<rparr>) s) \<and> holdingsleep (curpid s) lk"
    and "\<not> i_valid (ino s ip) \<Longrightarrow> i_type (disk_inode s (i_inum (ino s ip))) \<noteq> 0 \<Longrightarrow>
      \<exists>s' lk. ilock ip s = Inr s' \<and> txn s' H P \<and> view s' = view s \<and> holdingsleep (curpid s) lk \<and> sb s' = sb s \<and>
        inodes s' = (inodes s)[ip := (dfields (disk_inode s (i_inum (ino s ip))) (ino s ip))\<lparr>i_lock := lk, i_valid := True\<rparr>]"
proof -
  let ?lk = "(i_lock (ino s ip))\<lparr>sl_locked := True, sl_pid := curpid s\<rparr>"
  have a: "acquiresleep (curpid s) (i_lock (ino s ip)) = Some ?lk" "holdingsleep (curpid s) ?lk"
    using i(4) by (simp_all add: acquiresleep_def holdingsleep_def)
  show "\<exists>lk. ilock ip s = Inr (upd_inode ip (\<lambda>i. i\<lparr>i_lock := lk\<rparr>) s) \<and> holdingsleep (curpid s) lk" if "i_valid (ino s ip)"
    using a i that by (auto simp: ilock_def panic_if_def Let_def)
  assume v: "\<not> i_valid (ino s ip)" and ty: "i_type (disk_inode s (i_inum (ino s ip))) \<noteq> 0"
  let ?s = "upd_inode ip (\<lambda>i. i\<lparr>i_lock := ?lk\<rparr>) s" let ?b = "IBLOCK (i_inum (ino s ip)) (sb s)"
  obtain j s1 s2 where rd: "bread ROOTDEV ?b ?s = Inr (j, s1)" "get_data j s1 = view ?s ?b" "brelse j s1 = Inr s2" "txn s2 H P"
    "view s2 = view ?s" "frame H ?s s2" "lh s2 = lh ?s" "sb s1 = sb ?s" "inodes s1 = inodes ?s"
    by (rule read_block [of ?s H P ?b]) (use t b r in auto)
  let ?d = "disk_inode s (i_inum (ino s ip))" and ?l = "(ino s ip)\<lparr>i_lock := ?lk\<rparr>"
  let ?f = "dinode_get (dino_off (i_inum (ino s ip))) (view s ?b)"
  have f: "?f ?l = dfields ?d ?l" by (simp add: dinode_get_def dfields_def disk_inode_def)
  have in1: "inodes s1 = (inodes s)[ip := ?l]" using rd(9) by (simp add: upd_inode_def)
  have "upd_inode ip ?f s1 = s1\<lparr>inodes := (inodes s)[ip := dfields ?d ?l]\<rparr>" using in1 i(1) f by (simp add: upd_inode_def)
  then have "brelse j (upd_inode ip ?f s1) = Inr (s2\<lparr>inodes := (inodes s)[ip := dfields ?d ?l]\<rparr>)" using brelse_inodes [OF rd(3)] by simp
  moreover have "ino s1 ip = ?l" using in1 i(1) by simp
  ultimately have "ilock ip s = Inr (s2\<lparr>inodes := (inodes s)[ip := (dfields ?d ?l)\<lparr>i_valid := True\<rparr>]\<rparr>)"
    using a rd(1,2) i v ty by (simp add: ilock_def panic_if_def Let_def dfields_def upd_inode_def)
  moreover have "(dfields ?d ?l)\<lparr>i_valid := True\<rparr> = (dfields ?d (ino s ip))\<lparr>i_lock := ?lk, i_valid := True\<rparr>" by (simp add: dfields_def)
  ultimately show "\<exists>s' lk. ilock ip s = Inr s' \<and> txn s' H P \<and> view s' = view s \<and> holdingsleep (curpid s) lk \<and> sb s' = sb s \<and>
        inodes s' = (inodes s)[ip := (dfields ?d (ino s ip))\<lparr>i_lock := lk, i_valid := True\<rparr>]"
    using rd(4,5,6) a(2) by (intro exI [of _ "s2\<lparr>inodes := (inodes s)[ip := (dfields ?d ?l)\<lparr>i_valid := True\<rparr>]\<rparr>"] exI [of _ ?lk]) (simp add: frame_def)
qed

section \<open>Properties\<close>

text \<open>
  C17. The copy of an inode on disk and the copy in the inode table agree: \<^verbatim>\<open>iupdate\<close> writes the entry \<open>ip\<close> to
  its place in its block and leaves every other inode on disk as it was; when another entry \<open>jp\<close> for the
  same inode is locked for the first time, \<^verbatim>\<open>ilock\<close> fills it with exactly the fields that \<open>ip\<close> had.
\<close>

theorem ilock_reads_iupdate:
  fixes s :: "'z fsys_scheme"
  assumes "txn s H P" "inode_ok s H ip" "room s H 2" "i_type (ino s ip) \<noteq> 0"
    "jp < length (inodes s)" "i_dev (ino s jp) = ROOTDEV" "i_inum (ino s jp) = i_inum (ino s ip)" "1 \<le> i_ref (ino s jp)"
    "\<not> sl_locked (i_lock (ino s jp))" "\<not> i_valid (ino s jp)"
  shows "\<exists>s1 s2 P' lk. iupdate ip s = Inr s1 \<and> (\<forall>n. n \<noteq> i_inum (ino s ip) \<longrightarrow> disk_inode s1 n = disk_inode s n) \<and>
    ilock jp s1 = Inr s2 \<and> txn s2 H P' \<and> view s2 = view s1 \<and>
    inodes s2 = (inodes s)[jp := (dfields (ino s ip) (ino s jp))\<lparr>i_lock := lk, i_valid := True\<rparr>]"
proof -
  have r: "room s H (Suc 1)" using assms(3) by (simp add: numeral_2_eq_2)
  obtain s1 P1 where u: "iupdate ip s = Inr s1" "txn s1 H P1" "frame H s s1" "room s1 H 1"
    "\<And>n. disk_inode s1 n = (if n = i_inum (ino s ip) then dfields (ino s ip) empty_inode else disk_inode s n)"
    by (rule iupdate_ok [OF assms(1,2) r]) blast
  have e: "inodes s1 = inodes s" "sb s1 = sb s" using u(3) by (simp_all add: frame_def)
  have "unheld s1 H (IBLOCK (i_inum (ino s1 jp)) (sb s1))"
    using assms(2,7) e frame_unheld [OF u(3)] by (simp add: inode_ok_def Let_def)
  with ilock_ok(2) [OF u(2), of jp] u(4,5) e assms(4-10) obtain s2 lk where
    "ilock jp s1 = Inr s2" "txn s2 H P1" "view s2 = view s1"
    "inodes s2 = (inodes s)[jp := (dfields (disk_inode s1 (i_inum (ino s ip))) (ino s jp))\<lparr>i_lock := lk, i_valid := True\<rparr>]"
    by (auto simp: dfields_def)
  moreover have "dfields (disk_inode s1 (i_inum (ino s ip))) (ino s jp) = dfields (ino s ip) (ino s jp)" using u(5) by (simp add: dfields_def)
  ultimately show ?thesis using u(1,5) by (intro exI [of _ s1] exI [of _ s2] exI [of _ P1] exI [of _ lk]) simp
qed

theorem ilock_reads_iupdate_witness:
  "\<exists>s1 s2. iupdate 0 (fsys_on (\<lambda>_. replicate BSIZE 0)
       [empty_inode\<lparr>i_dev := 1, i_inum := 21, i_ref := 1, i_valid := True, i_type := T_FILE, i_size := 77\<rparr>, empty_inode\<lparr>i_dev := 1, i_inum := 21, i_ref := 1\<rparr>]) = Inr s1 \<and>
     ilock 1 s1 = Inr s2 \<and> i_size (ino s2 1) = 77 \<and> i_type (ino s2 1) = T_FILE"
proof -
  let ?s = "fsys_on (\<lambda>_. replicate BSIZE 0)
       [empty_inode\<lparr>i_dev := 1, i_inum := 21, i_ref := 1, i_valid := True, i_type := T_FILE, i_size := 77\<rparr>, empty_inode\<lparr>i_dev := 1, i_inum := 21, i_ref := 1\<rparr>]"
  have "IBLOCK 21 super0 = 34" by (simp add: IBLOCK_def super0_def IPB_def BSIZE_def DINODE_def)
  moreover have "(34 :: u32) \<notin> log_region 2" by (rule after_log) simp
  ultimately have "inode_ok ?s {} 0" by (simp add: inode_ok_def ROOTDEV_def empty_inode_def)
  from ilock_reads_iupdate [OF fsys_on_fields(1) this, of 1] show ?thesis
    by (auto simp: room_def NBUF_def MAXOPBLOCKS_def T_FILE_def ROOTDEV_def empty_inode_def initsleeplock_def dfields_def)
qed

end
