(* ===== verification/Dir.thy ===== *)
theory Dir
  imports Fs
begin

text \<open>
  Directories and path names (the end of \<^verbatim>\<open>kernel/fs.c\<close>). A C string is the list of its bytes before the
  NUL; a name field of a directory entry is 14 bytes, NUL-padded.
\<close>

section \<open>Operations\<close>

definition DIRSIZ :: nat where
  "DIRSIZ = 14"

definition DIRENT :: nat where
  "DIRENT = 2 + DIRSIZ"

definition first_byte :: "u8 list \<Rightarrow> u8" where
  "first_byte s = (case s of [] \<Rightarrow> 0 | c # _ \<Rightarrow> c)"

primrec strncmp_list :: "nat \<Rightarrow> u8 list \<Rightarrow> u8 list \<Rightarrow> int" where
  "strncmp_list 0 p q = 0"
| "strncmp_list (Suc n) p q =
     (if first_byte p \<noteq> 0 \<and> first_byte p = first_byte q then strncmp_list n (tl p) (tl q)
      else uint (first_byte p) - uint (first_byte q))"

definition namecmp :: "u8 list \<Rightarrow> u8 list \<Rightarrow> int" where
  "namecmp s t = strncmp_list DIRSIZ s t"

text \<open>Copying to and from a local variable of the kernel, whose bytes are the memory.\<close>

definition to_var :: "u8 list copier" where
  "to_var dst bs v = Inr (0, put_at (unat dst) bs v)"

definition from_var :: "u8 list \<Rightarrow> copyin_fn" where
  "from_var v src k = Inr (0, get_at (unat src) k v)"

definition dir_offsets :: "u32 \<Rightarrow> u32 list" where
  "dir_offsets sz = map (\<lambda>k. of_nat (DIRENT * k)) [0..<(unat sz + DIRENT - 1) div DIRENT]"

primrec dirlookup_loop :: "nat \<Rightarrow> u8 list \<Rightarrow> u32 list \<Rightarrow> 'z fsys_scheme \<Rightarrow> ((nat \<times> u32) option \<times> 'z fsys_scheme) kres" where
  "dirlookup_loop dp name [] s = Inr (None, s)"
| "dirlookup_loop dp name (off # offs) s =
     bnd (readi to_var dp 0 off (of_nat DIRENT) s (replicate DIRENT 0)) (\<lambda>(r, s, de).
     panic_if (r \<noteq> int DIRENT) ''dirlookup read'' (
     if get16 0 de = 0 then dirlookup_loop dp name offs s
     else if namecmp name (drop 2 de) = 0 then
       bnd (iget (i_dev (ino s dp)) (ucast (get16 0 de)) s) (\<lambda>(ip, s). Inr (Some (ip, off), s))
     else dirlookup_loop dp name offs s))"

text \<open>The inode found, with the offset of its entry.\<close>

definition dirlookup :: "nat \<Rightarrow> u8 list \<Rightarrow> 'z fsys_scheme \<Rightarrow> ((nat \<times> u32) option \<times> 'z fsys_scheme) kres" where
  "dirlookup dp name s = panic_if (i_type (ino s dp) \<noteq> T_DIR) ''dirlookup not DIR'' (
     dirlookup_loop dp name (dir_offsets (i_size (ino s dp))) s)"

text \<open>The offset of the first free entry, or the end of the directory.\<close>

primrec free_entry :: "nat \<Rightarrow> u32 list \<Rightarrow> u32 \<Rightarrow> 'z fsys_scheme \<Rightarrow> (u32 \<times> 'z fsys_scheme) kres" where
  "free_entry dp [] end_off s = Inr (end_off, s)"
| "free_entry dp (off # offs) end_off s =
     bnd (readi to_var dp 0 off (of_nat DIRENT) s (replicate DIRENT 0)) (\<lambda>(r, s, de).
     panic_if (r \<noteq> int DIRENT) ''dirlink read'' (
     if get16 0 de = 0 then Inr (off, s) else free_entry dp offs (off + of_nat DIRENT) s))"

definition name_field :: "u8 list \<Rightarrow> u8 list" where
  "name_field name = take DIRSIZ (takeWhile (\<lambda>c. c \<noteq> 0) name @ replicate DIRSIZ 0)"

definition dirent_bytes :: "u8 list \<Rightarrow> u32 \<Rightarrow> u8 list" where
  "dirent_bytes name inum = le_bytes 2 (ucast inum :: u16) @ name_field name"

definition dirlink :: "nat \<Rightarrow> u8 list \<Rightarrow> u32 \<Rightarrow> 'z fsys_scheme \<Rightarrow> (int \<times> 'z fsys_scheme) kres" where
  "dirlink dp name inum s =
     bnd (dirlookup dp name s) (\<lambda>(found, s).
     case found of
       Some (ip, _) \<Rightarrow> bnd (iput ip s) (\<lambda>s. Inr (-1, s))
     | None \<Rightarrow>
        bnd (free_entry dp (dir_offsets (i_size (ino s dp))) 0 s) (\<lambda>(off, s).
        bnd (writei (from_var (dirent_bytes name inum)) dp 0 off (of_nat DIRENT) s) (\<lambda>(r, s).
        Inr (if r \<noteq> int DIRENT then -1 else 0, s))))"

definition skip_slashes :: "u8 list \<Rightarrow> u8 list" where
  "skip_slashes path = dropWhile (\<lambda>c. c = 47) path"

text \<open>The next element of a path, cut to 14 bytes, and what follows it.\<close>

definition skipelem :: "u8 list \<Rightarrow> (u8 list \<times> u8 list) option" where
  "skipelem path =
     (let path = skip_slashes path in
      if path = [] then None
      else Some (take DIRSIZ (takeWhile (\<lambda>c. c \<noteq> 47) path), skip_slashes (dropWhile (\<lambda>c. c \<noteq> 47) path)))"

lemma skipelem_shorter: "skipelem path = Some (name, rest) \<Longrightarrow> length rest < length path"
proof -
  assume a: "skipelem path = Some (name, rest)"
  let ?p = "skip_slashes path"
  have ne: "?p \<noteq> []" and r: "rest = skip_slashes (dropWhile (\<lambda>c. c \<noteq> 47) ?p)"
    using a by (auto simp: skipelem_def Let_def split: if_splits)
  then obtain c cs where p: "?p = c # cs" by (cases ?p) auto
  have "c \<noteq> 47" using p unfolding skip_slashes_def by (metis (full_types) dropWhile_eq_Cons_conv)
  then have "length rest \<le> length cs" unfolding r p
    by (simp add: skip_slashes_def) (meson le_trans length_dropWhile_le)
  also have "length cs < length path" using p length_dropWhile_le [of "\<lambda>c. c = 47" path] by (simp add: skip_slashes_def)
  finally show ?thesis .
qed

text \<open>\<open>cwd\<close> is \<^verbatim>\<open>myproc()->cwd\<close>. The result has the inode and the last element copied to \<^verbatim>\<open>name\<close>.\<close>

function namex_loop :: "nat \<Rightarrow> u8 list \<Rightarrow> bool \<Rightarrow> u8 list \<Rightarrow> 'z fsys_scheme \<Rightarrow> (nat option \<times> u8 list \<times> 'z fsys_scheme) kres" where
  "namex_loop ip path nameiparent name s =
     (case skipelem path of
        None \<Rightarrow> if nameiparent then bnd (iput ip s) (\<lambda>s. Inr (None, name, s)) else Inr (Some ip, name, s)
      | Some (name, path) \<Rightarrow>
         bnd (ilock ip s) (\<lambda>s.
         if i_type (ino s ip) \<noteq> T_DIR then bnd (iunlockput ip s) (\<lambda>s. Inr (None, name, s))
         else if nameiparent \<and> path = [] then bnd (iunlock ip s) (\<lambda>s. Inr (Some ip, name, s))
         else bnd (dirlookup ip name s) (\<lambda>(next, s).
           bnd (iunlockput ip s) (\<lambda>s.
           case next of None \<Rightarrow> Inr (None, name, s) | Some (ip', _) \<Rightarrow> namex_loop ip' path nameiparent name s))))"
  by pat_completeness auto
termination
  by (relation "measure (\<lambda>(ip, path, np, name, s). length path)") (auto dest: skipelem_shorter)

declare namex_loop.simps [simp del]

definition namex :: "nat \<Rightarrow> u8 list \<Rightarrow> bool \<Rightarrow> 'z fsys_scheme \<Rightarrow> (nat option \<times> u8 list \<times> 'z fsys_scheme) kres" where
  "namex cwd path nameiparent s =
     bnd (if first_byte path = 47 then iget ROOTDEV ROOTINO s else Inr (cwd, idup cwd s)) (\<lambda>(ip, s).
     namex_loop ip path nameiparent [] s)"

definition namei :: "nat \<Rightarrow> u8 list \<Rightarrow> 'z fsys_scheme \<Rightarrow> (nat option \<times> 'z fsys_scheme) kres" where
  "namei cwd path s = bnd (namex cwd path False s) (\<lambda>(ip, _, s). Inr (ip, s))"

definition nameiparent :: "nat \<Rightarrow> u8 list \<Rightarrow> 'z fsys_scheme \<Rightarrow> (nat option \<times> u8 list \<times> 'z fsys_scheme) kres" where
  "nameiparent cwd path s = namex cwd path True s"

end
