(* ===== verification/Content.thy ===== *)
theory Content
  imports Inode Dir
begin

text \<open>
  The content of files: the bytes that \<^verbatim>\<open>readi\<close> delivers and \<^verbatim>\<open>writei\<close> replaces, through the block map of the
  inode, and the directory entries in them.
\<close>

section \<open>The block map\<close>

definition blk :: "'z fsys_scheme \<Rightarrow> inode \<Rightarrow> nat \<Rightarrow> u32" where
  "blk s i bn = (if bn < NDIRECT then i_addrs i ! bn else get32 (4 * (bn - NDIRECT)) (view s (i_addrs i ! NDIRECT)))"

text \<open>The blocks of an inode that hold its first \<open>N\<close> blocks of content, with the indirect block if it is used.\<close>

definition file_blocks :: "'z fsys_scheme \<Rightarrow> inode \<Rightarrow> nat \<Rightarrow> u32 set" where
  "file_blocks s i N = blk s i ` {..<N} \<union> (if NDIRECT < N then {i_addrs i ! NDIRECT} else {})"

definition file_ok :: "'z fsys_scheme \<Rightarrow> nat set \<Rightarrow> nat \<Rightarrow> nat \<Rightarrow> bool" where
  "file_ok s H ip N \<longleftrightarrow> i_dev (ino s ip) = ROOTDEV \<and> N \<le> MAXFILE \<and>
     (\<forall>b\<in>file_blocks s (ino s ip) N. b \<noteq> 0 \<and> unheld s H b \<and> length (view s b) = BSIZE)"

lemma file_okD:
  assumes "file_ok s H ip N" "bn < N"
  shows "blk s (ino s ip) bn \<noteq> 0" "unheld s H (blk s (ino s ip) bn)" "length (view s (blk s (ino s ip) bn)) = BSIZE"
    "\<not> bn < NDIRECT \<Longrightarrow> i_addrs (ino s ip) ! NDIRECT \<noteq> 0" "\<not> bn < NDIRECT \<Longrightarrow> unheld s H (i_addrs (ino s ip) ! NDIRECT)"
    "\<not> bn < NDIRECT \<Longrightarrow> bn - NDIRECT < NINDIRECT" "i_dev (ino s ip) = ROOTDEV"
  using assms by (auto simp: file_ok_def file_blocks_def MAXFILE_def)

lemma blk_cong: "view s' = view s \<Longrightarrow> blk s' = blk s"
  by (simp add: blk_def fun_eq_iff)

lemma file_ok_cong: "frame H s s' \<Longrightarrow> view s' = view s \<Longrightarrow> file_ok s H ip N \<Longrightarrow> file_ok s' H ip N"
proof -
  assume fr: "frame H s s'" and v: "view s' = view s" and f: "file_ok s H ip N"
  have "inodes s' = inodes s" using fr by (simp add: frame_def)
  then show ?thesis using f v blk_cong [OF v] frame_unheld [OF fr] unfolding file_ok_def file_blocks_def by simp
qed

lemma bmap_ok:
  fixes s :: "'z fsys_scheme"
  assumes t: "txn s H P" and f: "file_ok s H ip N" and n: "bn < N" and r: "room s H 1"
  obtains s' where "bmap ip bn s = Inr (blk s (ino s ip) bn, s')" "txn s' H P" "view s' = view s" "frame H s s'" "lh s' = lh s"
proof (cases "bn < NDIRECT")
  case True
  then have "bmap ip bn s = Inr (blk s (ino s ip) bn, s)" using file_okD(1) [OF f n] by (simp add: bmap_def bmap_direct_def blk_def)
  then show ?thesis using that t by simp
next
  case False
  let ?a = "i_addrs (ino s ip) ! NDIRECT"
  note d = file_okD [OF f n]
  obtain i s1 s2 where rd: "bread ROOTDEV ?a s = Inr (i, s1)" "get_data i s1 = view s ?a" "brelse i s1 = Inr s2" "txn s2 H P"
    "view s2 = view s" "frame H s s2" "lh s2 = lh s"
    by (rule read_block [OF t d(5) [OF False] r])
  have "bmap ip bn s = Inr (blk s (ino s ip) bn, s2)"
    using False d(1,4,6,7) rd(1-3) by (simp add: bmap_def bmap_direct_def blk_def Let_def)
  then show ?thesis using that rd by simp
qed

section \<open>Reading\<close>

definition fbytes :: "'z fsys_scheme \<Rightarrow> inode \<Rightarrow> nat \<Rightarrow> nat \<Rightarrow> u8 list" where
  "fbytes s i off n = map (\<lambda>k. view s (blk s i (k div BSIZE)) ! (k mod BSIZE)) [off..<off + n]"

lemma length_fbytes [simp]: "length (fbytes s i off n) = n"
  by (simp add: fbytes_def)

lemma nth_fbytes: "k < n \<Longrightarrow> fbytes s i off n ! k = view s (blk s i ((off + k) div BSIZE)) ! ((off + k) mod BSIZE)"
  by (simp add: fbytes_def)

lemma fbytes_append: "fbytes s i off (n + m) = fbytes s i off n @ fbytes s i (off + n) m"
  using upt_add_eq_append [of off "off + n" m] by (simp add: fbytes_def add.assoc)

lemma fbytes_cong: "view s' = view s \<Longrightarrow> fbytes s' = fbytes s"
  using blk_cong [of s' s] by (intro ext) (simp add: fbytes_def)

lemma BSIZE_pos: "0 < BSIZE"
  by (simp add: BSIZE_def)

text \<open>A chunk that does not leave its block.\<close>

lemma fbytes_block:
  assumes "off mod BSIZE + k \<le> BSIZE" "length (view s (blk s i (off div BSIZE))) = BSIZE"
  shows "fbytes s i off k = get_at (off mod BSIZE) k (view s (blk s i (off div BSIZE)))"
proof (rule nth_equalityI)
  fix j assume "j < length (fbytes s i off k)"
  then have j: "j < k" by simp
  have "(off mod BSIZE + j) div BSIZE = 0" "(off mod BSIZE + j) mod BSIZE = off mod BSIZE + j" using j assms(1) by simp_all
  then have "(off + j) div BSIZE = off div BSIZE" "(off + j) mod BSIZE = off mod BSIZE + j"
    using div_mult_mod_eq [of off BSIZE] by (metis add.assoc add_cancel_right_right div_mult_self3 less_irrefl BSIZE_pos, metis mod_add_left_eq)
  then show "fbytes s i off k ! j = get_at (off mod BSIZE) k (view s (blk s i (off div BSIZE))) ! j"
    using j assms by (simp add: nth_fbytes nth_get_at)
qed (use assms in simp)

text \<open>Where \<^verbatim>\<open>either_copyout\<close> puts bytes: \<open>fits dst n m\<close> says that \<open>n\<close> bytes at \<open>dst\<close> can be written.\<close>

locale byte_sink =
  fixes out :: "'m copier" and put :: "u64 \<Rightarrow> u8 list \<Rightarrow> 'm \<Rightarrow> 'm" and fits :: "u64 \<Rightarrow> nat \<Rightarrow> 'm \<Rightarrow> bool"
  assumes out_put: "fits dst n m \<Longrightarrow> length bs \<le> n \<Longrightarrow> out dst bs m = Inr (0, put dst bs m)"
    and put_rest: "fits dst n m \<Longrightarrow> length bs \<le> n \<Longrightarrow> fits (dst + of_nat (length bs)) (n - length bs) (put dst bs m)"
    and put_append: "fits dst (length (as @ bs)) m \<Longrightarrow> put (dst + of_nat (length as)) bs (put dst as m) = put dst (as @ bs) m"
    and put_Nil: "fits dst 0 m \<Longrightarrow> put dst [] m = m"
begin

lemma readi_loop_ok:
  fixes s :: "'z fsys_scheme"
  assumes "txn s H P" "file_ok s H ip N" "room s H 1" "off + (n - tot) \<le> N * BSIZE" "fits dst (n - tot) m" "tot \<le> n"
  shows "\<exists>s'. readi_loop out ip dst off n tot s m = Inr (int n, s', put dst (fbytes s (ino s ip) off (n - tot)) m) \<and>
    txn s' H P \<and> view s' = view s \<and> frame H s s' \<and> lh s' = lh s"
  using assms
proof (induction "n - tot" arbitrary: off tot dst s m rule: less_induct)
  case less
  show ?case
  proof (cases "tot < n")
    case False
    then have "n - tot = 0" "tot = n" using less.prems(6) by auto
    then show ?thesis using less.prems(1,5) put_Nil by (subst readi_loop.simps) (simp add: fbytes_def)
  next
    case True
    define k where kd: "k = min (n - tot) (BSIZE - off mod BSIZE)"
    let ?i = "ino s ip" let ?b = "blk s ?i (off div BSIZE)"
    let ?bs = "get_at (off mod BSIZE) k (view s ?b)"
    have k: "0 < k" "k \<le> n - tot" "off mod BSIZE + k \<le> BSIZE" unfolding kd using True BSIZE_pos mod_less_divisor [of BSIZE off] by linarith+
    have bn: "off div BSIZE < N" using less.prems(4) True BSIZE_pos by (intro less_mult_imp_div_less) linarith
    obtain s1 where b: "bmap ip (off div BSIZE) s = Inr (?b, s1)" "txn s1 H P" "view s1 = view s" "frame H s s1" "lh s1 = lh s"
      by (rule bmap_ok [OF less.prems(1,2) bn less.prems(3)])
    have e1: "ino s1 ip = ?i" using b(4) by (simp add: frame_def)
    note d = file_okD [OF less.prems(2) bn]
    obtain j s2 s3 where rd: "bread ROOTDEV ?b s1 = Inr (j, s2)" "get_data j s2 = view s1 ?b" "brelse j s2 = Inr s3" "txn s3 H P"
      "view s3 = view s1" "frame H s1 s3" "lh s3 = lh s1"
      by (rule read_block [OF b(2), of ?b]) (use d(2) frame_unheld [OF b(4)] less.prems(3) b(5) in \<open>auto simp: room_def\<close>)
    have fr: "frame H s s3" by (rule frame_trans [OF b(4) rd(6)])
    have lb: "length ?bs = k" using k(3) d(3) by simp
    have o: "out dst ?bs m = Inr (0, put dst ?bs m)" using out_put [OF less.prems(5), of ?bs] lb k(2) by simp
    have step: "readi_loop out ip dst off n tot s m = readi_loop out ip (dst + of_nat k) (off + k) n (tot + k) s3 (put dst ?bs m)"
      using True b(1,3) d(1,7) e1 rd(1-3) o by (subst readi_loop.simps) (simp add: Let_def flip: kd)
    have "file_ok s3 H ip N" by (rule file_ok_cong [OF fr _ less.prems(2)]) (simp add: rd b)
    moreover have "fits (dst + of_nat k) (n - (tot + k)) (put dst ?bs m)" using put_rest [OF less.prems(5), of ?bs] lb k(2) by (simp add: diff_diff_eq)
    ultimately have "\<exists>s'. readi_loop out ip (dst + of_nat k) (off + k) n (tot + k) s3 (put dst ?bs m) =
        Inr (int n, s', put (dst + of_nat k) (fbytes s3 (ino s3 ip) (off + k) (n - (tot + k))) (put dst ?bs m)) \<and>
        txn s' H P \<and> view s' = view s3 \<and> frame H s3 s' \<and> lh s' = lh s3"
    proof (intro less.hyps rd(4))
      show "n - (tot + k) < n - tot" "tot + k \<le> n" "off + k + (n - (tot + k)) \<le> N * BSIZE" using k True less.prems(4) by linarith+
      show "room s3 H 1" using less.prems(3) rd(7) b(5) by (simp add: room_def)
    qed
    then obtain s4 where r4: "readi_loop out ip (dst + of_nat k) (off + k) n (tot + k) s3 (put dst ?bs m) =
        Inr (int n, s4, put (dst + of_nat k) (fbytes s3 (ino s3 ip) (off + k) (n - (tot + k))) (put dst ?bs m))"
      "txn s4 H P" "view s4 = view s3" "frame H s3 s4" "lh s4 = lh s3" by (elim exE conjE) (rule that)
    have "n - tot = k + (n - (tot + k))" using k(2) by linarith
    then have split: "fbytes s ?i off (n - tot) = ?bs @ fbytes s ?i (off + k) (n - (tot + k))"
      using fbytes_append [of s ?i off k "n - (tot + k)"] fbytes_block [OF k(3), of s ?i] d(3) by simp
    have "fbytes s3 (ino s3 ip) = fbytes s ?i" using rd(5) b(3) fr fbytes_cong [of s3 s] by (simp add: frame_def)
    moreover have "put (dst + of_nat k) (fbytes s ?i (off + k) (n - (tot + k))) (put dst ?bs m) = put dst (fbytes s ?i off (n - tot)) m"
    proof -
      have "length (?bs @ fbytes s ?i (off + k) (n - (tot + k))) = n - tot" unfolding split [symmetric] by simp
      then show ?thesis using put_append [of dst ?bs "fbytes s ?i (off + k) (n - (tot + k))" m] less.prems(5) by (simp only: lb split)
    qed
    ultimately have "readi_loop out ip dst off n tot s m = Inr (int n, s4, put dst (fbytes s ?i off (n - tot)) m)" using step r4(1) by simp
    then show ?thesis using r4(2-5) rd(5,7) b(3,5) frame_trans [OF fr r4(4)] by (intro exI [of _ s4]) simp
  qed
qed

lemma readi_ok:
  fixes s :: "'z fsys_scheme"
  assumes t: "txn s H P" and f: "file_ok s H ip N" and r: "room s H 1" and sz: "unat (i_size (ino s ip)) \<le> N * BSIZE"
    and off: "off \<le> i_size (ino s ip)" "unat off + unat n < 2 ^ 32" and fit: "fits dst (min (unat n) (unat (i_size (ino s ip)) - unat off)) m"
  obtains s' where "readi out ip dst off n s m = Inr (int (min (unat n) (unat (i_size (ino s ip)) - unat off)), s',
      put dst (fbytes s (ino s ip) (unat off) (min (unat n) (unat (i_size (ino s ip)) - unat off))) m)"
    "txn s' H P" "view s' = view s" "frame H s s'" "lh s' = lh s"
proof -
  let ?sz = "i_size (ino s ip)" let ?k = "min (unat n) (unat ?sz - unat off)"
  have le: "unat off \<le> unat ?sz" using off(1) by (simp add: word_le_nat_alt)
  have sum: "unat (off + n) = unat off + unat n" using off(2) by (simp add: unat_word_ariths)
  have k: "unat (if off + n > ?sz then ?sz - off else n) = ?k"
    using le sum unat_sub [OF off(1)] by (auto simp: word_less_nat_alt)
  have w: "\<not> (off > ?sz \<or> off + n < off)" using le sum by (simp add: word_less_nat_alt not_less)
  have "\<exists>s'. readi_loop out ip dst (unat off) ?k 0 s m = Inr (int ?k, s', put dst (fbytes s (ino s ip) (unat off) (?k - 0)) m) \<and>
      txn s' H P \<and> view s' = view s \<and> frame H s s' \<and> lh s' = lh s"
    by (rule readi_loop_ok [OF t f r]) (use fit le sz in auto)
  then obtain s' where s': "readi_loop out ip dst (unat off) ?k 0 s m = Inr (int ?k, s', put dst (fbytes s (ino s ip) (unat off) ?k) m)"
    "txn s' H P" "view s' = view s" "frame H s s'" "lh s' = lh s" by auto
  have "readi out ip dst off n s m = readi_loop out ip dst (unat off) ?k 0 s m"
    unfolding readi_def Let_def k using w by simp
  then show ?thesis using that s' by simp
qed

end

text \<open>A local variable of the kernel.\<close>

definition var_fits :: "u64 \<Rightarrow> nat \<Rightarrow> u8 list \<Rightarrow> bool" where
  "var_fits dst n v \<longleftrightarrow> unat dst + n \<le> length v \<and> length v < 2 ^ 64"

lemma put_at_append: "off + length (as @ bs) \<le> length d \<Longrightarrow> put_at (off + length as) bs (put_at off as d) = put_at off (as @ bs) d"
  by (rule nth_equalityI) (auto simp: nth_put_at nth_append)

lemma unat_add_of_nat: "unat (a :: u64) + n < 2 ^ 64 \<Longrightarrow> unat (a + of_nat n) = unat a + n"
  by (simp add: unat_word_ariths unat_of_nat take_bit_nat_eq_self)

interpretation var: byte_sink to_var "\<lambda>dst bs v. put_at (unat dst) bs v" var_fits
proof unfold_locales
  fix dst n m and bs :: "u8 list" assume a: "var_fits dst n m" "length bs \<le> n"
  then have "unat (dst + of_nat (length bs)) = unat dst + length bs" by (intro unat_add_of_nat) (simp add: var_fits_def)
  then show "var_fits (dst + of_nat (length bs)) (n - length bs) (put_at (unat dst) bs m)" using a by (simp add: var_fits_def)
next
  fix dst m and as bs :: "u8 list" assume a: "var_fits dst (length (as @ bs)) m"
  then have "unat (dst + of_nat (length as)) = unat dst + length as" by (intro unat_add_of_nat) (simp add: var_fits_def)
  then show "put_at (unat (dst + of_nat (length as))) bs (put_at (unat dst) as m) = put_at (unat dst) (as @ bs) m"
    using a put_at_append [of "unat dst" as bs m] by (simp add: var_fits_def)
qed (simp_all add: to_var_def put_at_def)

lemma readi_var:
  fixes s :: "'z fsys_scheme"
  assumes "txn s H P" "file_ok s H ip N" "room s H 1" "unat (i_size (ino s ip)) \<le> N * BSIZE" "unat off + n \<le> unat (i_size (ino s ip))" "n < 2 ^ 31"
  obtains s' where "readi to_var ip 0 off (of_nat n) s (replicate n 0) = Inr (int n, s', fbytes s (ino s ip) (unat off) n)"
    "txn s' H P" "view s' = view s" "frame H s s'" "lh s' = lh s"
proof -
  let ?sz = "i_size (ino s ip)"
  have n: "unat (of_nat n :: u32) = n" using assms(6) by (simp add: unat_of_nat take_bit_nat_eq_self)
  have mn: "min (unat (of_nat n :: u32)) (unat ?sz - unat off) = n" using assms(5) n by simp
  have o: "unat off + unat (of_nat n :: u32) < 2 ^ 32" using assms(5) n u32_bound [of ?sz] by simp
  have l: "off \<le> ?sz" using assms(5) by (simp add: word_le_nat_alt)
  have v: "var_fits 0 (min (unat (of_nat n :: u32)) (unat ?sz - unat off)) (replicate n 0)" using mn assms(6) by (simp add: var_fits_def)
  obtain s' where "readi to_var ip 0 off (of_nat n) s (replicate n 0) =
      Inr (int n, s', put_at (unat (0 :: u64)) (fbytes s (ino s ip) (unat off) n) (replicate n 0))"
    "txn s' H P" "view s' = view s" "frame H s s'" "lh s' = lh s"
    by (rule var.readi_ok [OF assms(1-4) l o v]) (simp add: mn)
  then show ?thesis using that by (simp add: put_at_def)
qed

section \<open>Directories\<close>

text \<open>The name in a field of 14 bytes ends at the first NUL, if there is one.\<close>

definition cut :: "u8 list \<Rightarrow> u8 list" where
  "cut nm = takeWhile (\<lambda>c. c \<noteq> 0) (take DIRSIZ nm)"

lemma strncmp_list_zero:
  "strncmp_list n p q = 0 \<longleftrightarrow> takeWhile (\<lambda>c. c \<noteq> 0) (take n p) = takeWhile (\<lambda>c. c \<noteq> 0) (take n q)"
proof (induction n arbitrary: p q)
  case (Suc n)
  show ?case using Suc.IH by (cases p; cases q) (auto simp: first_byte_def word_uint_eq_iff split: if_splits)
qed simp

lemma namecmp_zero: "namecmp s t = 0 \<longleftrightarrow> cut s = cut t"
  by (simp add: namecmp_def cut_def strncmp_list_zero)

definition dirent_at :: "'z fsys_scheme \<Rightarrow> inode \<Rightarrow> nat \<Rightarrow> u16 \<times> u8 list" where
  "dirent_at s i k = (let e = fbytes s i (DIRENT * k) DIRENT in (get16 0 e, cut (drop 2 e)))"

definition named :: "'z fsys_scheme \<Rightarrow> inode \<Rightarrow> u8 list \<Rightarrow> nat \<Rightarrow> bool" where
  "named s i name k \<longleftrightarrow> fst (dirent_at s i k) \<noteq> 0 \<and> snd (dirent_at s i k) = cut name"

definition found :: "'z fsys_scheme \<Rightarrow> u16 \<Rightarrow> nat \<Rightarrow> ((nat \<times> u32) option \<times> 'z fsys_scheme) kres" where
  "found s inum k = bnd (iget ROOTDEV (ucast inum) s) (\<lambda>(ip, s). Inr (Some (ip, of_nat (DIRENT * k)), s))"

lemma dirent_cong: "view s' = view s \<Longrightarrow> dirent_at s' = dirent_at s"
  using fbytes_cong [of s' s] by (intro ext) (simp add: dirent_at_def)

lemma named_cong: "view s' = view s \<Longrightarrow> named s' = named s"
  using dirent_cong [of s' s] by (intro ext) (simp add: named_def)

lemma dirlookup_loop_ok:
  fixes s :: "'z fsys_scheme"
  assumes "txn s H P" "file_ok s H dp N" "room s H 1" "unat (i_size (ino s dp)) \<le> N * BSIZE" "\<forall>k\<in>set ks. DIRENT * k + DIRENT \<le> unat (i_size (ino s dp))"
  shows "\<exists>s'. txn s' H P \<and> view s' = view s \<and> frame H s s' \<and> lh s' = lh s \<and>
    dirlookup_loop dp name (map (\<lambda>k. of_nat (DIRENT * k)) ks) s =
      (case List.find (named s (ino s dp) name) ks of None \<Rightarrow> Inr (None, s') | Some k \<Rightarrow> found s' (fst (dirent_at s (ino s dp) k)) k)"
  using assms
proof (induction ks arbitrary: s)
  case Nil
  then show ?case by (intro exI [of _ s]) simp
next
  case (Cons k ks)
  let ?off = "of_nat (DIRENT * k) :: u32" and ?e = "dirent_at s (ino s dp) k"
  have le: "DIRENT * k + DIRENT \<le> unat (i_size (ino s dp))" using Cons.prems(5) by simp
  then have o: "unat ?off = DIRENT * k" using u32_bound [of "i_size (ino s dp)"] by (simp add: unat_of_nat take_bit_nat_eq_self del: of_nat_mult)
  have le': "unat ?off + DIRENT \<le> unat (i_size (ino s dp))" using le o by simp
  have d31: "DIRENT < 2 ^ 31" by (simp add: DIRENT_def DIRSIZ_def)
  obtain s1 where r: "readi to_var dp 0 ?off (of_nat DIRENT) s (replicate DIRENT 0) = Inr (int DIRENT, s1, fbytes s (ino s dp) (unat ?off) DIRENT)"
    "txn s1 H P" "view s1 = view s" "frame H s s1" "lh s1 = lh s"
    by (rule readi_var [OF Cons.prems(1-4) le' d31])
  have dev: "i_dev (ino s1 dp) = ROOTDEV" using Cons.prems(2) r(4) by (simp add: file_ok_def frame_def)
  have same: "ino s1 dp = ino s dp" using r(4) by (simp add: frame_def)
  let ?rest = "map (\<lambda>k. of_nat (DIRENT * k) :: u32) ks"
  have step: "dirlookup_loop dp name (?off # ?rest) s =
      (if named s (ino s dp) name k then found s1 (fst ?e) k else dirlookup_loop dp name ?rest s1)"
    using r(1) dev o by (auto simp: named_def dirent_at_def Let_def namecmp_zero found_def panic_if_def)
  have "room s1 H 1" using Cons.prems(3) r(5) by (simp add: room_def)
  moreover have "file_ok s1 H dp N" by (rule file_ok_cong [OF r(4,3) Cons.prems(2)])
  ultimately have "\<exists>s2. txn s2 H P \<and> view s2 = view s1 \<and> frame H s1 s2 \<and> lh s2 = lh s1 \<and> dirlookup_loop dp name ?rest s1 =
      (case List.find (named s1 (ino s1 dp) name) ks of None \<Rightarrow> Inr (None, s2) | Some k \<Rightarrow> found s2 (fst (dirent_at s1 (ino s1 dp) k)) k)"
    by (intro Cons.IH r(2)) (use Cons.prems(4,5) same in simp_all)
  then obtain s2 where s2: "txn s2 H P" "view s2 = view s1" "frame H s1 s2" "lh s2 = lh s1"
    "dirlookup_loop dp name ?rest s1 = (case List.find (named s (ino s dp) name) ks of None \<Rightarrow> Inr (None, s2) | Some k \<Rightarrow> found s2 (fst (dirent_at s (ino s dp) k)) k)"
    unfolding same named_cong [OF r(3)] dirent_cong [OF r(3)] by (elim exE conjE) (rule that)
  show ?case
  proof (cases "named s (ino s dp) name k")
    case True
    then show ?thesis using r step by (intro exI [of _ s1]) simp
  next
    case False
    then show ?thesis using s2 r step frame_trans [OF r(4) s2(3)] by (intro exI [of _ s2]) simp
  qed
qed

section \<open>Properties\<close>

text \<open>
  C11. \<^verbatim>\<open>dirlookup\<close> searches the directory as a list of entries: it returns the inode of the first entry in use
  whose name, read up to a NUL or 14 bytes, equals the name looked for cut in the same way, with the
  offset of that entry, or nothing when there is no such entry. Reading changes no block.
\<close>

theorem dirlookup_first:
  fixes s :: "'z fsys_scheme"
  assumes "txn s H P" "file_ok s H dp N" "room s H 1" "unat (i_size (ino s dp)) \<le> N * BSIZE"
    "i_type (ino s dp) = T_DIR" "DIRENT dvd unat (i_size (ino s dp))"
  shows "\<exists>s'. txn s' H P \<and> view s' = view s \<and> frame H s s' \<and>
    dirlookup dp name s = (case List.find (\<lambda>k. fst (dirent_at s (ino s dp) k) \<noteq> 0 \<and> snd (dirent_at s (ino s dp) k) = cut name)
        [0..<unat (i_size (ino s dp)) div DIRENT] of
      None \<Rightarrow> Inr (None, s')
    | Some k \<Rightarrow> bnd (iget ROOTDEV (ucast (fst (dirent_at s (ino s dp) k))) s') (\<lambda>(ip, s''). Inr (Some (ip, of_nat (DIRENT * k)), s'')))"
proof -
  let ?sz = "unat (i_size (ino s dp))"
  obtain q where q: "?sz = DIRENT * q" using assms(6) by (elim dvdE)
  have D: "0 < DIRENT" by (simp add: DIRENT_def)
  have n: "(?sz + DIRENT - 1) div DIRENT = ?sz div DIRENT" unfolding q by (simp add: DIRENT_def DIRSIZ_def)
  have le: "\<forall>k\<in>set [0..<?sz div DIRENT]. DIRENT * k + DIRENT \<le> ?sz"
  proof
    fix k assume "k \<in> set [0..<?sz div DIRENT]"
    then have "k + 1 \<le> q" using D q by simp
    then have "DIRENT * (k + 1) \<le> DIRENT * q" by (rule mult_le_mono2)
    then show "DIRENT * k + DIRENT \<le> ?sz" using q by simp
  qed
  have nm: "named s (ino s dp) name = (\<lambda>k. fst (dirent_at s (ino s dp) k) \<noteq> 0 \<and> snd (dirent_at s (ino s dp) k) = cut name)"
    by (simp add: named_def fun_eq_iff)
  have e: "dirlookup dp name s = dirlookup_loop dp name (map (\<lambda>k. of_nat (DIRENT * k)) [0..<?sz div DIRENT]) s"
    unfolding dirlookup_def dir_offsets_def n using assms(5) by (simp add: panic_if_def del: of_nat_mult)
  from dirlookup_loop_ok [OF assms(1-4) le, of name] show ?thesis unfolding e nm found_def by (elim exE conjE) (intro exI conjI)
qed

definition dir0 :: block where
  "dir0 = dirent_bytes [46] 1 @ dirent_bytes [97] 7 @ replicate (BSIZE - 32) 0"

definition dirsys0 :: fsys where
  "dirsys0 = fsys_on ((\<lambda>_. replicate BSIZE 0)(50 := dir0))
     (empty_inode\<lparr>i_dev := 1, i_inum := 1, i_ref := 1, i_valid := True, i_type := T_DIR, i_size := 32, i_addrs := 50 # replicate 12 0\<rparr> # replicate 49 empty_inode)"

lemma dir0_entries: "length dir0 = BSIZE" "k < 2 \<Longrightarrow> get_at (16 * k) 16 dir0 = (if k = 0 then dirent_bytes [46] 1 else dirent_bytes [97] 7)"
proof -
  have l: "length (dirent_bytes nm n) = 16" for nm n by (simp add: dirent_bytes_def name_field_def DIRSIZ_def)
  show "length dir0 = BSIZE" by (simp add: dir0_def l BSIZE_def)
  show "get_at (16 * k) 16 dir0 = (if k = 0 then dirent_bytes [46] 1 else dirent_bytes [97] 7)" if "k < 2"
    using that by (auto simp: dir0_def get_at_def l less_2_cases_iff)
qed

lemma dirsys0_fields:
  "txn dirsys0 {} {}" "view dirsys0 50 = dir0" "room dirsys0 {} 1" "unheld dirsys0 {} b"
  "inodes dirsys0 = empty_inode\<lparr>i_dev := 1, i_inum := 1, i_ref := 1, i_valid := True, i_type := T_DIR, i_size := 32, i_addrs := 50 # replicate 12 0\<rparr> #
     replicate 49 empty_inode"
  unfolding dirsys0_def by (simp_all add: room_def NBUF_def MAXOPBLOCKS_def)

lemma dirent_bytes_fields:
  "get16 0 (dirent_bytes nm n) = ucast n" "drop 2 (dirent_bytes nm n) = name_field nm"
  using le_word_le_bytes [of 2 "ucast n :: u16"] by (simp_all add: dirent_bytes_def get16_def get_at_def)

lemma dirsys0_entries: "k < 2 \<Longrightarrow> dirent_at dirsys0 (ino dirsys0 0) k = (if k = 0 then (1, [46]) else (7, [97]))"
proof -
  assume k: "k < 2"
  have b: "(16 * k) div BSIZE = 0" "(16 * k) mod BSIZE = 16 * k" "16 * k + 16 \<le> BSIZE" using k by (auto simp: BSIZE_def less_2_cases_iff)
  have bl: "blk dirsys0 (ino dirsys0 0) 0 = 50" by (simp add: blk_def dirsys0_fields NDIRECT_def)
  have "fbytes dirsys0 (ino dirsys0 0) (16 * k) 16 = get_at (16 * k) 16 dir0"
    using fbytes_block [of "16 * k" 16 dirsys0 "ino dirsys0 0"] b bl dirsys0_fields(2) dir0_entries(1) by simp
  then have "fbytes dirsys0 (ino dirsys0 0) (DIRENT * k) DIRENT = (if k = 0 then dirent_bytes [46] 1 else dirent_bytes [97] 7)"
    using dir0_entries(2) [OF k] by (simp add: DIRENT_def DIRSIZ_def)
  then show ?thesis
    by (simp add: dirent_at_def dirent_bytes_fields cut_def name_field_def DIRSIZ_def)
qed

theorem dirlookup_first_witness:
  "\<exists>s'. dirlookup 0 [97] dirsys0 = Inr (Some (1, 16), s') \<and> i_inum (ino s' 1) = 7"
proof -
  let ?s = dirsys0 let ?i = "ino ?s 0"
  note d = dirsys0_fields
  have f: "file_ok ?s {} 0 1" unfolding file_ok_def file_blocks_def blk_def
    by (simp add: d ROOTDEV_def MAXFILE_def NDIRECT_def dir0_entries)
  have sz: "unat (i_size ?i) \<le> 1 * BSIZE" "i_type ?i = T_DIR" "DIRENT dvd unat (i_size ?i)" "unat (i_size ?i) div DIRENT = 2"
    by (simp_all add: d BSIZE_def DIRENT_def DIRSIZ_def)
  have "List.find (\<lambda>k. fst (dirent_at ?s ?i k) \<noteq> 0 \<and> snd (dirent_at ?s ?i k) = cut [97]) [0..<2] = Some 1"
    by (simp add: upt_rec dirsys0_entries cut_def DIRSIZ_def)
  then obtain s' where s': "frame {} ?s s'"
    "dirlookup 0 [97] ?s = bnd (iget ROOTDEV (ucast (fst (dirent_at ?s ?i 1))) s') (\<lambda>(ip, s''). Inr (Some (ip, of_nat (DIRENT * 1)), s''))"
    using dirlookup_first [OF d(1) f d(3) sz(1-3), of "[97]"] sz(4) by auto
  have in': "inodes s' = inodes ?s" using s'(1) by (simp add: frame_def)
  have n: "i_ref (ino s' ip) \<le> 0 \<or> i_inum (ino s' ip) = 1" if "ip < 50" for ip
    using that by (cases ip) (simp_all add: in' d empty_inode_def)
  have "List.find (\<lambda>ip. i_ref (ino s' ip) > 0 \<and> i_dev (ino s' ip) = ROOTDEV \<and> i_inum (ino s' ip) = 7) [0..<NINODE] = None"
    using n by (force simp: find_None_iff NINODE_def)
  moreover have "List.find (\<lambda>ip. i_ref (ino s' ip) = 0) [0..<NINODE] = Some 1"
    by (simp add: NINODE_def upt_conv_Cons [of 0 50] upt_conv_Cons [of "Suc 0" 50] in' d empty_inode_def)
  ultimately have "iget ROOTDEV 7 s' = Inr (1, upd_inode 1 (\<lambda>i. i\<lparr>i_dev := ROOTDEV, i_inum := 7, i_ref := 1, i_valid := False\<rparr>) s')"
    by (simp add: iget_def)
  moreover have "dirent_at ?s ?i 1 = (7, [97])" by (simp add: dirsys0_entries)
  ultimately have "dirlookup 0 [97] ?s = Inr (Some (1, 16), upd_inode 1 (\<lambda>i. i\<lparr>i_dev := ROOTDEV, i_inum := 7, i_ref := 1, i_valid := False\<rparr>) s')"
    using s'(2) by (simp add: DIRENT_def DIRSIZ_def)
  then show ?thesis using in' by (simp add: d)
qed

end
