(* ===== verification/Writing.thy ===== *)
theory Writing
  imports Content
begin

text \<open>
  Writing to files: what \<^verbatim>\<open>writei\<close> does to the content of an inode whose blocks are allocated, and that
  \<^verbatim>\<open>readi\<close> reads it back.
\<close>

section \<open>Bytes of a file\<close>

definition fbyte :: "'z fsys_scheme \<Rightarrow> inode \<Rightarrow> nat \<Rightarrow> u8" where
  "fbyte s i k = view s (blk s i (k div BSIZE)) ! (k mod BSIZE)"

lemma fbytes_fbyte: "fbytes s i off n = map (fbyte s i) [off..<off + n]"
  by (simp add: fbytes_def fbyte_def)

text \<open>The blocks of content are distinct, can be logged, and the indirect block is not one of them.\<close>

definition data_ok :: "'z fsys_scheme \<Rightarrow> inode \<Rightarrow> nat \<Rightarrow> bool" where
  "data_ok s i N \<longleftrightarrow> inj_on (blk s i) {..<N} \<and> blk s i ` {..<N} \<inter> log_region (start s) = {} \<and>
     (NDIRECT < N \<longrightarrow> i_addrs i ! NDIRECT \<notin> blk s i ` {..<N})"

definition written :: "'z fsys_scheme \<Rightarrow> 'z fsys_scheme \<Rightarrow> inode \<Rightarrow> nat \<Rightarrow> nat \<Rightarrow> u8 list \<Rightarrow> bool" where
  "written s s' i N off bs \<longleftrightarrow>
     (\<forall>k<N * BSIZE. fbyte s' i k = (if off \<le> k \<and> k < off + length bs then bs ! (k - off) else fbyte s i k)) \<and>
     (\<forall>b. b \<notin> blk s i ` {..<N} \<longrightarrow> view s' b = view s b) \<and> (\<forall>bn<N. blk s' i bn = blk s i bn) \<and>
     (\<forall>bn<N. length (view s (blk s i bn)) = BSIZE \<longrightarrow> length (view s' (blk s i bn)) = BSIZE)"

lemma written_refl: "written s s' i N off []" if "view s' = view s"
  using that blk_cong [OF that] by (auto simp: written_def fbyte_def)

lemma written_trans:
  assumes a: "written s s1 i N off as" and b: "written s1 s2 i N (off + length as) bs"
  shows "written s s2 i N off (as @ bs)"
proof -
  have e: "blk s1 i ` {..<N} = blk s i ` {..<N}" using a by (auto simp: written_def)
  show ?thesis using a b unfolding written_def e by (auto simp: nth_append)
qed

lemma written_blocks:
  assumes "written s s' i N off bs" "data_ok s i N"
  shows "blk s' i ` {..<N} = blk s i ` {..<N}" "NDIRECT < N \<Longrightarrow> view s' (i_addrs i ! NDIRECT) = view s (i_addrs i ! NDIRECT)"
  using assms by (auto simp: written_def data_ok_def)

lemma data_ok_written: "written s s' i N off bs \<Longrightarrow> data_ok s i N \<Longrightarrow> start s' = start s \<Longrightarrow> data_ok s' i N"
  using written_blocks [of s s' i N off bs] by (auto simp: data_ok_def written_def inj_on_def)

lemma file_ok_written:
  assumes w: "written s s' (ino s ip) N off bs" and d: "data_ok s (ino s ip) N" and f: "file_ok s H ip N" and fr: "frame H s s'"
  shows "file_ok s' H ip N"
proof -
  have i: "ino s' ip = ino s ip" using fr by (simp add: frame_def)
  have "file_blocks s' (ino s ip) N = file_blocks s (ino s ip) N" using written_blocks [OF w d] by (simp add: file_blocks_def)
  moreover have "length (view s' b) = BSIZE" if "b \<in> file_blocks s (ino s ip) N" for b
  proof -
    have l: "length (view s b) = BSIZE" using that f by (simp add: file_ok_def)
    show ?thesis
    proof (cases "b \<in> blk s (ino s ip) ` {..<N}")
      case True
      then show ?thesis using w l by (auto simp: written_def)
    next
      case False
      then show ?thesis using w l by (simp add: written_def)
    qed
  qed
  ultimately show ?thesis using f frame_unheld [OF fr] unfolding file_ok_def i by simp
qed

lemma div_mod_block: "k div BSIZE = (off :: nat) div BSIZE \<Longrightarrow> off mod BSIZE + n \<le> BSIZE \<Longrightarrow>
    (off \<le> k \<and> k < off + n) = (off mod BSIZE \<le> k mod BSIZE \<and> k mod BSIZE < off mod BSIZE + n)"
  using div_mult_mod_eq [of k BSIZE] div_mult_mod_eq [of off BSIZE] by (metis add_le_cancel_left add_less_cancel_left add.assoc)

lemma block_range: "off mod BSIZE + n \<le> BSIZE \<Longrightarrow> off \<le> k \<Longrightarrow> k < off + n \<Longrightarrow> k div BSIZE = off div BSIZE"
proof -
  assume a: "off mod BSIZE + n \<le> BSIZE" "off \<le> k" "k < off + n"
  then obtain j where j: "k = off + j" "j < n" by (metis add_less_cancel_left le_iff_add)
  have "(off mod BSIZE + j) div BSIZE = 0" using a(1) j(2) by simp
  then show ?thesis unfolding j(1) using div_mult_mod_eq [of off BSIZE]
    by (metis add.assoc add_cancel_right_right div_mult_self3 less_irrefl BSIZE_pos)
qed

lemma write_chunk:
  assumes d: "data_ok s i N" and bn: "off div BSIZE < N" and l: "off mod BSIZE + length bs \<le> BSIZE" "length (view s (blk s i (off div BSIZE))) = BSIZE"
    and v: "view s' = (view s)(blk s i (off div BSIZE) := put_at (off mod BSIZE) bs (view s (blk s i (off div BSIZE))))"
  shows "written s s' i N off bs"
proof -
  let ?b = "blk s i (off div BSIZE)"
  have b: "blk s' i n = blk s i n" if "n < N" for n
    using d bn that v by (auto simp: blk_def data_ok_def)
  have inj: "blk s i n = ?b \<longleftrightarrow> n = off div BSIZE" if "n < N" for n using d bn that by (auto simp: data_ok_def inj_on_def)
  have "fbyte s' i k = (if off \<le> k \<and> k < off + length bs then bs ! (k - off) else fbyte s i k)" if k: "k < N * BSIZE" for k
  proof -
    have n: "k div BSIZE < N" "k mod BSIZE < BSIZE" using k BSIZE_pos by (auto simp: less_mult_imp_div_less)
    show ?thesis
    proof (cases "k div BSIZE = off div BSIZE")
      case True
      have "k - off = k mod BSIZE - off mod BSIZE" if "off \<le> k"
        using div_mult_mod_eq [of k BSIZE] div_mult_mod_eq [of off BSIZE] True by (metis diff_cancel)
      then show ?thesis using b [OF n(1)] True v l n(2) div_mod_block [OF True l(1)]
        by (auto simp: fbyte_def nth_put_at)
    next
      case False
      then show ?thesis using b [OF n(1)] inj [OF n(1)] v block_range [OF l(1)] by (auto simp: fbyte_def)
    qed
  qed
  then show ?thesis using b v bn l by (auto simp: written_def)
qed

section \<open>The blocks a write touches\<close>

definition touched :: "nat \<Rightarrow> nat \<Rightarrow> nat" where
  "touched off n = (if n = 0 then 0 else (off + n - 1) div BSIZE - off div BSIZE + 1)"

lemma touched_step:
  assumes "0 < n" "k = min n (BSIZE - off mod BSIZE)"
  shows "touched off n = Suc (touched (off + k) (n - k))"
proof (cases "n \<le> BSIZE - off mod BSIZE")
  case True
  then have k: "k = n" "off mod BSIZE + n \<le> BSIZE" using assms BSIZE_pos mod_less_divisor [of BSIZE off] by auto
  then have "(off + n - 1) div BSIZE = off div BSIZE" using assms(1) by (intro block_range [of off n]) auto
  then show ?thesis using k assms(1) by (simp add: touched_def)
next
  case False
  then have k: "k = BSIZE - off mod BSIZE" "k < n" using assms(2) by auto
  have "off + k = (off div BSIZE + 1) * BSIZE" unfolding k(1) distrib_right using div_mult_mod_eq [of off BSIZE] mod_less_divisor [OF BSIZE_pos, of off] by linarith
  then have q: "(off + k) div BSIZE = off div BSIZE + 1" using BSIZE_pos by simp
  have "(off + k) div BSIZE \<le> (off + n - 1) div BSIZE" using k(2) by (intro div_le_mono) simp
  moreover have "off + k + (n - k) - 1 = off + n - 1" using k(2) by simp
  ultimately show ?thesis using k(2) q assms(1) by (simp add: touched_def)
qed

text \<open>A change to a block outside the file does not change its content.\<close>

lemma outside_file:
  assumes v: "view s' = (view s)(b := d)" and b: "b \<notin> file_blocks s i N" and a: "i_addrs j = i_addrs i"
  shows "bn < N \<Longrightarrow> blk s' j bn = blk s i bn" "k < N * BSIZE \<Longrightarrow> fbyte s' j k = fbyte s i k" "file_blocks s' j N = file_blocks s i N"
proof -
  show blk: "blk s' j bn = blk s i bn" if "bn < N" for bn using that v b a by (auto simp: blk_def file_blocks_def)
  show "file_blocks s' j N = file_blocks s i N" using blk a by (simp add: file_blocks_def)
  show "fbyte s' j k = fbyte s i k" if "k < N * BSIZE"
  proof -
    have n: "k div BSIZE < N" by (rule less_mult_imp_div_less [OF that])
    then have "blk s i (k div BSIZE) \<noteq> b" using b by (auto simp: file_blocks_def)
    then show ?thesis using blk [OF n] v by (simp add: fbyte_def)
  qed
qed

lemma written_put:
  assumes "written s s' i N off bs" "off + length bs \<le> N * BSIZE"
  shows "map (fbyte s' i) [0..<N * BSIZE] = put_at off bs (fbytes s i 0 (N * BSIZE))"
proof (rule nth_equalityI)
  show "length (map (fbyte s' i) [0..<N * BSIZE]) = length (put_at off bs (fbytes s i 0 (N * BSIZE)))" using assms(2) by simp
  show "map (fbyte s' i) [0..<N * BSIZE] ! k = put_at off bs (fbytes s i 0 (N * BSIZE)) ! k" if "k < length (map (fbyte s' i) [0..<N * BSIZE])" for k
    using that assms by (auto simp: nth_put_at fbytes_fbyte written_def)
qed

section \<open>writei\<close>

text \<open>Where \<^verbatim>\<open>either_copyin\<close> takes bytes from.\<close>

locale byte_source =
  fixes inp :: copyin_fn and get :: "u64 \<Rightarrow> nat \<Rightarrow> u8 list" and avail :: "u64 \<Rightarrow> nat \<Rightarrow> bool"
  assumes inp_get: "avail src n \<Longrightarrow> k \<le> n \<Longrightarrow> inp src k = Inr (0, get src k)"
    and length_get: "avail src n \<Longrightarrow> k \<le> n \<Longrightarrow> length (get src k) = k"
    and get_split: "avail src n \<Longrightarrow> k \<le> n \<Longrightarrow> get src n = get src k @ get (src + of_nat k) (n - k)"
    and avail_rest: "avail src n \<Longrightarrow> k \<le> n \<Longrightarrow> avail (src + of_nat k) (n - k)"
begin

lemma writei_loop_ok:
  fixes s :: "'z fsys_scheme"
  assumes "txn s H P" "file_ok s H ip N" "data_ok s (ino s ip) N" "room s H (touched off (n - tot) + r)" "off + (n - tot) \<le> N * BSIZE"
    "avail src (n - tot)" "tot \<le> n"
  shows "\<exists>s' P'. writei_loop inp ip src off n tot s = Inr (n, off + (n - tot), s') \<and> txn s' H P' \<and> frame H s s' \<and> room s' H r \<and>
    written s s' (ino s ip) N off (get src (n - tot))"
  using assms
proof (induction "n - tot" arbitrary: off tot src s P rule: less_induct)
  case less
  note t = less.prems(1) and f = less.prems(2) and d = less.prems(3) and rm = less.prems(4) and av = less.prems(6)
  show ?case
  proof (cases "tot < n")
    case False
    then have z: "n - tot = 0" "tot = n" using less.prems(7) by auto
    have "get src 0 = []" using length_get [OF av, of 0] by simp
    then have w: "written s s (ino s ip) N off (get src (n - tot))" unfolding z(1) using written_refl [of s s] by simp
    have "writei_loop inp ip src off n tot s = Inr (n, off + (n - tot), s)" using z by (subst writei_loop.simps) simp
    moreover have "room s H r" by (rule room_mono [OF rm]) simp
    ultimately show ?thesis using t w frame_refl by blast
  next
    case True
    define k where kd: "k = min (n - tot) (BSIZE - off mod BSIZE)"
    let ?i = "ino s ip" let ?b = "blk s ?i (off div BSIZE)" and ?bs = "get src k"
    let ?d = "put_at (off mod BSIZE) ?bs (view s ?b)"
    have k: "0 < k" "k \<le> n - tot" "off mod BSIZE + k \<le> BSIZE" unfolding kd using True BSIZE_pos mod_less_divisor [of BSIZE off] by linarith+
    have tc: "touched off (n - tot) = Suc (touched (off + k) (n - (tot + k)))"
      using touched_step [OF _ kd] True by (simp add: diff_diff_eq)
    have bn: "off div BSIZE < N" using less.prems(5) True BSIZE_pos by (intro less_mult_imp_div_less) linarith
    obtain s1 where b: "bmap ip (off div BSIZE) s = Inr (?b, s1)" "txn s1 H P" "view s1 = view s" "frame H s s1" "lh s1 = lh s"
      by (rule bmap_ok [OF t f bn room_mono [OF rm]]) (use tc in simp)
    note fd = file_okD [OF f bn]
    have nl: "?b \<notin> log_region (start s1)" using d bn b(4) by (auto simp: data_ok_def frame_def)
    have un: "unheld s1 H ?b" using fd(2) frame_unheld [OF b(4)] by simp
    have r1: "room s1 H (Suc (touched (off + k) (n - (tot + k)) + r))" using rm b(5) tc by (simp add: room_def)
    obtain j s2 s3 s4 P' where up: "bread ROOTDEV ?b s1 = Inr (j, s2)" "get_data j s2 = view s1 ?b" "log_write j (set_data j ?d s2) = Inr s3"
      "brelse j s3 = Inr s4" "txn s4 H P'" "view s4 = (view s1)(?b := ?d)" "frame H s1 s4" "room s4 H (touched (off + k) (n - (tot + k)) + r)"
      "inodes s2 = inodes s1"
      by (rule update_block [OF b(2) un nl r1, of ?d])
    have fr: "frame H s s4" by (rule frame_trans [OF b(4) up(7)])
    have i: "ino s1 ip = ?i" "ino s4 ip = ?i" using b(4) fr by (simp_all add: frame_def)
    have g: "inp src k = Inr (0, ?bs)" "length ?bs = k" using inp_get [OF av k(2)] length_get [OF av k(2)] by simp_all
    have w: "written s s4 ?i N off ?bs" by (rule write_chunk [OF d bn]) (use g(2) k(3) fd(3) up(6) b(3) in simp_all)
    have step: "writei_loop inp ip src off n tot s = writei_loop inp ip (src + of_nat k) (off + k) n (tot + k) s4"
      using True b(1,3) fd(1,7) i up(1-4) g by (subst writei_loop.simps) (simp add: Let_def flip: kd)
    have "\<exists>s' P'. writei_loop inp ip (src + of_nat k) (off + k) n (tot + k) s4 = Inr (n, off + k + (n - (tot + k)), s') \<and> txn s' H P' \<and>
        frame H s4 s' \<and> room s' H r \<and> written s4 s' (ino s4 ip) N (off + k) (get (src + of_nat k) (n - (tot + k)))"
    proof (rule less.hyps [OF _ up(5) file_ok_written [OF w d f fr] _ up(8)])
      show "n - (tot + k) < n - tot" "tot + k \<le> n" "off + k + (n - (tot + k)) \<le> N * BSIZE" using k True less.prems(5) by linarith+
      show "data_ok s4 (ino s4 ip) N" unfolding i by (rule data_ok_written [OF w d]) (use fr in \<open>simp add: frame_def\<close>)
      show "avail (src + of_nat k) (n - (tot + k))" using avail_rest [OF av k(2)] by (simp add: diff_diff_eq)
    qed
    then obtain s5 P5 where s5: "writei_loop inp ip (src + of_nat k) (off + k) n (tot + k) s4 = Inr (n, off + k + (n - (tot + k)), s5)" "txn s5 H P5"
      "frame H s4 s5" "room s5 H r" "written s4 s5 ?i N (off + k) (get (src + of_nat k) (n - (tot + k)))" unfolding i by (elim exE conjE) (rule that)
    have "written s s5 ?i N off (?bs @ get (src + of_nat k) (n - (tot + k)))" by (rule written_trans [OF w]) (use s5(5) g(2) in simp)
    moreover have "get src (n - tot) = ?bs @ get (src + of_nat k) (n - (tot + k))" using get_split [OF av k(2)] by (simp add: diff_diff_eq)
    moreover have "off + k + (n - (tot + k)) = off + (n - tot)" using k(2) by simp
    ultimately show ?thesis using step s5 frame_trans [OF fr s5(3)] by (intro exI [of _ s5] exI [of _ P5]) simp
  qed
qed

lemma writei_ok:
  fixes s :: "'z fsys_scheme"
  assumes t: "txn s H P" and f: "file_ok s H ip N" and d: "data_ok s (ino s ip) N" and io: "inode_ok s H ip"
    and ib: "IBLOCK (i_inum (ino s ip)) (sb s) \<notin> file_blocks s (ino s ip) N" and r: "room s H (touched (unat off) (unat n) + Suc r)"
    and off: "off \<le> i_size (ino s ip)" "unat off + unat n \<le> N * BSIZE" and av: "avail src (unat n)"
  shows "\<exists>s' P'. writei inp ip src off n s = Inr (int (unat n), s') \<and> txn s' H P' \<and> room s' H r \<and> file_ok s' H ip N \<and>
    ino s' ip = (ino s ip)\<lparr>i_size := of_nat (max (unat (i_size (ino s ip))) (unat off + unat n))\<rparr> \<and>
    fbytes s' (ino s' ip) 0 (N * BSIZE) = put_at (unat off) (get src (unat n)) (fbytes s (ino s ip) 0 (N * BSIZE)) \<and>
    disk_inode s' (i_inum (ino s ip)) = dfields (ino s' ip) empty_inode"
proof -
  let ?i = "ino s ip" let ?b = "IBLOCK (i_inum ?i) (sb s)" and ?bs = "get src (unat n)" and ?e = "unat off + unat n"
  let ?j = "?i\<lparr>i_size := of_nat (max (unat (i_size ?i)) ?e)\<rparr>"
  have no: "?e \<le> MAXFILE * BSIZE" "?e < 2 ^ 32" using f off(2) by (auto simp: file_ok_def MAXFILE_def NDIRECT_def NINDIRECT_def BSIZE_def)
  then have u: "unat (off + n) = ?e" by (simp add: unat_word_ariths)
  obtain s1 P1 where s1: "writei_loop inp ip src (unat off) (unat n) 0 s = Inr (unat n, ?e, s1)" "txn s1 H P1" "frame H s s1"
    "room s1 H (Suc r)" "written s s1 ?i N (unat off) ?bs"
    using writei_loop_ok [of s H P ip N "unat off" "unat n" 0 "Suc r" src] t f d r off(2) av by auto
  have fr: "ino s1 ip = ?i" "sb s1 = sb s" "inodes s1 = inodes s" "start s1 = start s" using s1(3) by (simp_all add: frame_def)
  let ?s2 = "if ?e > unat (i_size ?i) then upd_inode ip (\<lambda>i. i\<lparr>i_size := of_nat ?e\<rparr>) s1 else s1"
  have ip: "ip < length (inodes s)" using io by (simp add: inode_ok_def)
  have j: "ino ?s2 ip = ?j" using ip fr by (simp add: max_def)
  have s2: "txn ?s2 H P1" "view ?s2 = view s1" "room ?s2 H (Suc r)" "\<And>b. unheld ?s2 H b = unheld s H b" "sb ?s2 = sb s" "start ?s2 = start s"
    "length (inodes ?s2) = length (inodes s)" using s1 fr frame_unheld [OF s1(3)] by simp_all
  have vb: "view s1 ?b = view s ?b" using s1(5) ib by (auto simp: written_def file_blocks_def)
  have io2: "inode_ok ?s2 H ip" using io s2(4-7) vb unfolding inode_ok_def j s2(2) by (simp add: Let_def)
  obtain s3 P3 where s3: "iupdate ip ?s2 = Inr s3" "txn s3 H P3" "frame H ?s2 s3" "room s3 H r"
    "view s3 = (view s1)(?b := dinode_put ?j (dino_off (i_inum ?i)) (view s ?b))" "disk_inode s3 (i_inum ?i) = dfields ?j empty_inode"
    by (rule iupdate_ok [OF s2(1) io2 s2(3)]) (use j s2(2,5) vb in simp)
  have j3: "ino s3 ip = ?j" using s3(3) j by (simp add: frame_def)
  have f1: "file_ok s1 H ip N" by (rule file_ok_written [OF s1(5) d f s1(3)])
  have fb: "file_blocks s1 ?i N = file_blocks s ?i N" using written_blocks(1) [OF s1(5) d] by (simp add: file_blocks_def)
  note out = outside_file [OF s3(5), of ?i N ?j, unfolded fb, OF ib]
  have "unheld s3 H b = unheld s1 H b" for b using frame_unheld [OF s3(3)] s2(4) frame_unheld [OF s1(3)] by simp
  then have "file_ok s3 H ip N" using f1 out(3) fb ib s3(5) unfolding file_ok_def j3 fr by auto
  moreover have "map (fbyte s3 ?j) [0..<N * BSIZE] = map (fbyte s1 ?i) [0..<N * BSIZE]" using out(2) by simp
  then have "fbytes s3 ?j 0 (N * BSIZE) = put_at (unat off) ?bs (fbytes s ?i 0 (N * BSIZE))"
    using written_put [OF s1(5)] off(2) length_get [OF av, of "unat n"] by (simp add: fbytes_fbyte)
  moreover have "writei inp ip src off n s = Inr (int (unat n), s3)"
    unfolding writei_def using off(1) no u s1(1) s3(1) fr by (simp add: Let_def not_less word_le_nat_alt word_less_nat_alt)
  ultimately show ?thesis using s3(2,4,6) j3 by (intro exI [of _ s3] exI [of _ P3]) simp
qed

end

interpretation var_src: byte_source "from_var v" "\<lambda>src n. get_at (unat src) n v" "\<lambda>src n. unat src + n \<le> length v \<and> length v < 2 ^ 64" for v
proof unfold_locales
  fix src :: u64 and n k assume a: "unat src + n \<le> length v \<and> length v < 2 ^ 64" and k: "k \<le> n"
  then have u: "unat (src + of_nat k) = unat src + k" by (intro unat_add_of_nat) simp
  show "get_at (unat src) n v = get_at (unat src) k v @ get_at (unat (src + of_nat k)) (n - k) v"
    unfolding u get_at_def using take_add [of k "n - k" "drop (unat src) v"] k by (simp add: add.commute)
  show "unat (src + of_nat k) + (n - k) \<le> length v \<and> length v < 2 ^ 64" using a k u by simp
qed (auto simp: from_var_def get_at_def)

text \<open>
  C5. Inside a transaction, when the first \<open>N\<close> blocks of a file are allocated, \<^verbatim>\<open>writei\<close> of a kernel buffer at an offset
  within the file that ends inside those blocks writes every byte: the content of the \<open>N\<close> blocks afterwards is the old one
  with the buffer put at the offset and nothing else changed, the size grows exactly to the end of the write if that is larger,
  the inode on disk is the one in memory, and \<^verbatim>\<open>readi\<close> at that offset delivers the buffer.
\<close>

theorem writei_readi:
  fixes s :: "'z fsys_scheme"
  assumes "txn s H P" "file_ok s H ip N" "data_ok s (ino s ip) N" "inode_ok s H ip"
    "IBLOCK (i_inum (ino s ip)) (sb s) \<notin> file_blocks s (ino s ip) N" "room s H (touched (unat off) (length bs) + 2)"
    "off \<le> i_size (ino s ip)" "unat (i_size (ino s ip)) \<le> N * BSIZE" "unat off + length bs \<le> N * BSIZE"
  shows "\<exists>s1 s2. writei (from_var bs) ip 0 off (of_nat (length bs)) s = Inr (int (length bs), s1) \<and>
    unat (i_size (ino s1 ip)) = max (unat (i_size (ino s ip))) (unat off + length bs) \<and> i_addrs (ino s1 ip) = i_addrs (ino s ip) \<and>
    fbytes s1 (ino s1 ip) 0 (N * BSIZE) = put_at (unat off) bs (fbytes s (ino s ip) 0 (N * BSIZE)) \<and>
    disk_inode s1 (i_inum (ino s ip)) = dfields (ino s1 ip) empty_inode \<and>
    readi to_var ip 0 off (of_nat (length bs)) s1 (replicate (length bs) 0) = Inr (int (length bs), s2, bs)"
proof -
  let ?i = "ino s ip" and ?m = "max (unat (i_size (ino s ip))) (unat off + length bs)"
  have NB: "N * BSIZE < 2 ^ 31" using assms(2) by (auto simp: file_ok_def MAXFILE_def NDIRECT_def NINDIRECT_def BSIZE_def)
  have n: "unat (of_nat (length bs) :: u32) = length bs" using assms(9) NB by (simp add: unat_of_nat take_bit_nat_eq_self)
  obtain s1 P1 where s1: "writei (from_var bs) ip 0 off (of_nat (length bs)) s = Inr (int (length bs), s1)" "txn s1 H P1" "room s1 H 1" "file_ok s1 H ip N"
    "ino s1 ip = ?i\<lparr>i_size := of_nat ?m\<rparr>" "fbytes s1 (ino s1 ip) 0 (N * BSIZE) = put_at (unat off) bs (fbytes s ?i 0 (N * BSIZE))"
    "disk_inode s1 (i_inum ?i) = dfields (ino s1 ip) empty_inode"
    using var_src.writei_ok [OF assms(1-5), of off "of_nat (length bs)" 1 0 bs] assms(6-9) NB unfolding n by (auto simp: get_at_def)
  have "?m < 2 ^ 32" using assms(8,9) NB by simp
  then have m: "unat (i_size (ino s1 ip)) = ?m" using s1(5) by (simp add: unat_of_nat take_bit_nat_eq_self)
  obtain s2 where s2: "readi to_var ip 0 off (of_nat (length bs)) s1 (replicate (length bs) 0) = Inr (int (length bs), s2, fbytes s1 (ino s1 ip) (unat off) (length bs))"
    by (rule readi_var [OF s1(2,4,3), of off "length bs"]) (use m assms(8,9) NB in auto)
  have "fbytes s1 (ino s1 ip) (unat off) (length bs) = bs"
  proof (rule nth_equalityI)
    fix k assume "k < length (fbytes s1 (ino s1 ip) (unat off) (length bs))"
    then have k: "k < length bs" "unat off + k < N * BSIZE" using assms(9) by auto
    have "fbytes s1 (ino s1 ip) 0 (N * BSIZE) ! (unat off + k) = bs ! k" unfolding s1(6) using k assms(9) by (simp add: nth_put_at)
    then show "fbytes s1 (ino s1 ip) (unat off) (length bs) ! k = bs ! k" using k by (simp add: nth_fbytes)
  qed simp
  then show ?thesis using s1(1,5-7) s2 m by (intro exI [of _ s1] exI [of _ s2]) simp
qed

text \<open>A file of 1023 bytes whose first two blocks are allocated.\<close>

definition filesys0 :: fsys where
  "filesys0 = fsys_on (\<lambda>_. replicate BSIZE 7)
     [empty_inode\<lparr>i_dev := 1, i_inum := 21, i_ref := 1, i_valid := True, i_type := T_FILE, i_size := 1023, i_addrs := 50 # 51 # replicate 11 0\<rparr>]"

lemma filesys0_ok:
  "file_ok filesys0 {} 0 2" "data_ok filesys0 (ino filesys0 0) 2" "inode_ok filesys0 {} 0"
  "IBLOCK (i_inum (ino filesys0 0)) (sb filesys0) \<notin> file_blocks filesys0 (ino filesys0 0) 2"
proof -
  have two: "{..<2} = {0, 1 :: nat}" by auto
  have b: "blk filesys0 (ino filesys0 0) 0 = 50" "blk filesys0 (ino filesys0 0) 1 = 51" by (simp_all add: filesys0_def blk_def NDIRECT_def)
  then have fb: "file_blocks filesys0 (ino filesys0 0) 2 = {50, 51}" unfolding file_blocks_def two by (simp add: NDIRECT_def)
  have ib: "IBLOCK 21 super0 = 34" by (simp add: IBLOCK_def super0_def IPB_def BSIZE_def DINODE_def)
  have lr: "(34 :: u32) \<notin> log_region 2" "(50 :: u32) \<notin> log_region 2" "(51 :: u32) \<notin> log_region 2" by (rule after_log, simp)+
  show "file_ok filesys0 {} 0 2" unfolding file_ok_def fb by (simp add: filesys0_def ROOTDEV_def MAXFILE_def NDIRECT_def)
  show "data_ok filesys0 (ino filesys0 0) 2" unfolding data_ok_def two using b lr by (simp add: NDIRECT_def) (simp add: filesys0_def)
  show "inode_ok filesys0 {} 0" using ib lr(1) by (simp add: filesys0_def inode_ok_def ROOTDEV_def NDIRECT_def)
  show "IBLOCK (i_inum (ino filesys0 0)) (sb filesys0) \<notin> file_blocks filesys0 (ino filesys0 0) 2" unfolding fb using ib by (simp add: filesys0_def)
qed

theorem writei_readi_witness:
  "\<exists>s1 s2. writei (from_var [1, 2, 3]) 0 0 1022 3 filesys0 = Inr (3, s1) \<and> i_size (ino s1 0) = 1025 \<and>
     readi to_var 0 0 1022 3 s1 [0, 0, 0] = Inr (3, s2, [1, 2, 3])"
proof -
  have "txn filesys0 {} {}" "room filesys0 {} (touched (unat (1022 :: u32)) (length [1, 2, 3 :: u8]) + 2)" "(1022 :: u32) \<le> i_size (ino filesys0 0)"
    "unat (i_size (ino filesys0 0)) \<le> 2 * BSIZE" "unat (1022 :: u32) + length [1, 2, 3 :: u8] \<le> 2 * BSIZE" "unat (i_size (ino filesys0 0)) = 1023"
    by (simp_all add: filesys0_def room_def touched_def NBUF_def MAXOPBLOCKS_def BSIZE_def)
  then obtain s1 s2 where s: "writei (from_var [1, 2, 3]) 0 0 1022 (of_nat (length [1, 2, 3 :: u8])) filesys0 = Inr (int (length [1, 2, 3 :: u8]), s1)"
    "unat (i_size (ino s1 0)) = 1025" "readi to_var 0 0 1022 (of_nat (length [1, 2, 3 :: u8])) s1 (replicate (length [1, 2, 3 :: u8]) 0) =
       Inr (int (length [1, 2, 3 :: u8]), s2, [1, 2, 3])"
    using writei_readi [OF _ filesys0_ok, of "{}" 1022 "[1, 2, 3]"] by auto
  moreover have "i_size (ino s1 0) = 1025" using s(2) by (simp add: word_unat_eq_iff)
  ultimately show ?thesis by (auto simp: numeral_3_eq_3)
qed

end
