(* ===== verification/Kalloc.thy ===== *)
theory Kalloc
  imports Kstring
begin

text \<open>
  The physical page allocator, \<^verbatim>\<open>kernel/kalloc.c\<close>: one free list per CPU, threaded through the
  free pages themselves, stealing between CPUs, and the reference counts that copy-on-write
  uses. The body of an acquire/release pair is one step of the model.
\<close>

section \<open>State\<close>

text \<open>
  \<open>freelist\<close> holds the head pointer of every \<^verbatim>\<open>kmem[i]\<close>; the rest of a list is in memory,
  the first word of each free page being \<^verbatim>\<open>run.next\<close>. \<open>kend\<close> is the linker symbol \<^verbatim>\<open>end\<close>,
  and \<open>tp\<close> the hart running the code (\<^verbatim>\<open>cpuid()\<close>).
\<close>

record kmem =
  mem :: memory
  freelist :: "u64 list"
  refcnt :: "nat \<Rightarrow> int"
  kend :: u64
  tp :: nat

definition NREF :: nat where
  "NREF = unat ((PHYSTOP - KERNBASE) div PGSIZE)"

definition ref_idx :: "u64 \<Rightarrow> nat" where
  "ref_idx pa = unat ((pa - KERNBASE) div PGSIZE)"

definition ref_get :: "u64 \<Rightarrow> 'z kmem_scheme \<Rightarrow> int kres" where
  "ref_get pa s = (if ref_idx pa < NREF then Inr (refcnt s (ref_idx pa))
                   else Inl (Undef ''refcnt: index out of range''))"

definition ref_set :: "u64 \<Rightarrow> int \<Rightarrow> 'z kmem_scheme \<Rightarrow> 'z kmem_scheme kres" where
  "ref_set pa c s = (if ref_idx pa < NREF then Inr (s\<lparr>refcnt := (refcnt s)(ref_idx pa := c)\<rparr>)
                     else Inl (Undef ''refcnt: index out of range''))"

text \<open>The locked sections of \<^verbatim>\<open>kfree\<close>, \<^verbatim>\<open>kalloc\<close> and \<^verbatim>\<open>ksteal\<close> on one CPU's list.\<close>

definition kmem_push :: "nat \<Rightarrow> u64 \<Rightarrow> 'z kmem_scheme \<Rightarrow> 'z kmem_scheme kres" where
  "kmem_push cpu r s =
     (if cpu < NCPU
      then Inr (s\<lparr>mem := st64 (mem s) r (freelist s ! cpu), freelist := (freelist s)[cpu := r]\<rparr>)
      else Inl (Undef ''kmem: index out of range''))"

definition kmem_pop :: "nat \<Rightarrow> 'z kmem_scheme \<Rightarrow> (u64 \<times> 'z kmem_scheme) kres" where
  "kmem_pop cpu s =
     (if cpu < NCPU
      then let r = freelist s ! cpu in
           if r \<noteq> 0 then Inr (r, s\<lparr>freelist := (freelist s)[cpu := ld64 (mem s) r]\<rparr>) else Inr (r, s)
      else Inl (Undef ''kmem: index out of range''))"

section \<open>Operations\<close>

definition kfree :: "u64 \<Rightarrow> 'z kmem_scheme \<Rightarrow> 'z kmem_scheme kres" where
  "kfree pa s =
     panic_if (pa mod PGSIZE \<noteq> 0 \<or> pa < kend s \<or> pa \<ge> PHYSTOP) ''kfree''
       (let s1 = s\<lparr>mem := memset (mem s) pa 1 4096\<rparr> in
        bnd (ref_get pa s1) (\<lambda>c.
        panic_if (c \<le> 0) ''kfree''
          (bnd (ref_set pa (c - 1) s1) (\<lambda>s2.
           if c - 1 > 0 then Inr s2 else kmem_push (tp s2) pa s2))))"

function ksteal_loop :: "nat \<Rightarrow> nat \<Rightarrow> 'z kmem_scheme \<Rightarrow> (u64 \<times> 'z kmem_scheme) kres" where
  "ksteal_loop cpu i s =
     (if i < NCPU then
        bnd (kmem_pop ((cpu + i) mod NCPU) s) (\<lambda>(r, s').
          if r \<noteq> 0 then Inr (r, s') else ksteal_loop cpu (Suc i) s')
      else Inr (0, s))"
  by pat_completeness auto
termination
  by (relation "measure (\<lambda>(cpu, i, s). NCPU - i)") auto

definition ksteal :: "nat \<Rightarrow> 'z kmem_scheme \<Rightarrow> (u64 \<times> 'z kmem_scheme) kres" where
  "ksteal cpu s = ksteal_loop cpu 1 s"

text \<open>
  In \<^verbatim>\<open>kalloc\<close> only the \<^verbatim>\<open>memset\<close> depends on the test of \<^verbatim>\<open>r\<close>: the braces are missing and the
  reference count is written for a null \<^verbatim>\<open>r\<close> as well.
\<close>

definition kalloc :: "'z kmem_scheme \<Rightarrow> (u64 \<times> 'z kmem_scheme) kres" where
  "kalloc s =
     bnd (kmem_pop (tp s) s) (\<lambda>(r0, s0).
     bnd (if r0 = 0 then ksteal (tp s) s0 else Inr (r0, s0)) (\<lambda>(r, s1).
     let s2 = (if r \<noteq> 0 then s1\<lparr>mem := memset (mem s1) r 5 4096\<rparr> else s1) in
     bnd (ref_set r 1 s2) (\<lambda>s3. Inr (r, s3))))"

text \<open>
  The loop of \<^verbatim>\<open>freerange\<close> has a single statement as its body, the initialisation of the
  count; \<^verbatim>\<open>kfree(p)\<close> follows the loop.
\<close>

function freerange_loop :: "u64 \<Rightarrow> u64 \<Rightarrow> 'z kmem_scheme \<Rightarrow> (u64 \<times> 'z kmem_scheme) kres" where
  "freerange_loop p pa_end s =
     (if p + PGSIZE \<le> pa_end \<and> p < p + PGSIZE then
        bnd (ref_set p 1 s) (\<lambda>s'. freerange_loop (p + PGSIZE) pa_end s')
      else if p + PGSIZE \<le> pa_end then Inl (Undef ''freerange: pointer overflow'')
      else Inr (p, s))"
  by pat_completeness auto
termination
  by (relation "measure (\<lambda>(p, e, s). 2 ^ 64 - unat p)")
     (use u64_bound in \<open>auto simp: word_less_nat_alt intro!: diff_less_mono2\<close>)

definition freerange :: "u64 \<Rightarrow> u64 \<Rightarrow> 'z kmem_scheme \<Rightarrow> 'z kmem_scheme kres" where
  "freerange pa_start pa_end s =
     bnd (freerange_loop (PGROUNDUP pa_start) pa_end s) (\<lambda>(p, s'). kfree p s')"

definition kinit :: "'z kmem_scheme \<Rightarrow> 'z kmem_scheme kres" where
  "kinit s = freerange (kend s) PHYSTOP s"

definition kaddref :: "u64 \<Rightarrow> 'z kmem_scheme \<Rightarrow> 'z kmem_scheme kres" where
  "kaddref pa s =
     bnd (ref_get pa s) (\<lambda>c.
     if c \<ge> 2147483647 then Inl (Undef ''refcnt: signed overflow'') else ref_set pa (c + 1) s)"

definition kref :: "u64 \<Rightarrow> 'z kmem_scheme \<Rightarrow> int kres" where
  "kref pa s = ref_get pa s"

declare ksteal_loop.simps [simp del] freerange_loop.simps [simp del]


section \<open>Free lists in memory\<close>

definition valid_page :: "'z kmem_scheme \<Rightarrow> u64 \<Rightarrow> bool" where
  "valid_page s p \<longleftrightarrow> pg_aligned p \<and> kend s \<le> p \<and> p < PHYSTOP"

primrec chain :: "memory \<Rightarrow> u64 \<Rightarrow> u64 list \<Rightarrow> bool" where
  "chain m p [] \<longleftrightarrow> p = 0"
| "chain m p (x # xs) \<longleftrightarrow> p = x \<and> x \<noteq> 0 \<and> chain m (ld64 m x) xs"

text \<open>
  \<open>kalloc_rep s fr\<close>: the list of CPU \<open>c\<close> is the chain \<open>fr c\<close> of pages; no page is on two lists or
  twice on one; every listed page may be freed into the allocator and has no reference.
\<close>

definition kalloc_rep :: "'z kmem_scheme \<Rightarrow> (nat \<Rightarrow> u64 list) \<Rightarrow> bool" where
  "kalloc_rep s fr \<longleftrightarrow>
     KERNBASE \<le> kend s \<and> tp s < NCPU \<and> length (freelist s) = NCPU \<and>
     (\<forall>c<NCPU. chain (mem s) (freelist s ! c) (fr c) \<and> distinct (fr c)) \<and>
     (\<forall>c<NCPU. \<forall>d<NCPU. c \<noteq> d \<longrightarrow> set (fr c) \<inter> set (fr d) = {}) \<and>
     (\<forall>c<NCPU. \<forall>p\<in>set (fr c). valid_page s p \<and> refcnt s (ref_idx p) = 0)"

definition free_in :: "(nat \<Rightarrow> u64 list) \<Rightarrow> u64 set" where
  "free_in fr = (\<Union>c<NCPU. set (fr c))"

lemma valid_page_aligned: "valid_page s p \<Longrightarrow> pg_aligned p"
  by (simp add: valid_page_def)

lemma ref_idx_eq:
  assumes "KERNBASE \<le> p"
  shows "ref_idx p = (unat p - unat KERNBASE) div 4096"
  using assms by (simp add: ref_idx_def unat_div unat_sub riscv_consts word_le_nat_alt)

lemma NREF_eq [simp]: "NREF = 32768"
  by (simp add: NREF_def riscv_consts)

lemma ref_idx_less:
  assumes "KERNBASE \<le> p" "p < PHYSTOP"
  shows "ref_idx p < 32768"
proof -
  have "unat p - 0x80000000 < 32768 * 4096"
    using assms by (simp add: riscv_consts word_le_nat_alt word_less_nat_alt)
  then show ?thesis
    using assms by (simp add: ref_idx_eq riscv_consts less_mult_imp_div_less)
qed

lemma valid_page_ref_idx: "valid_page s p \<Longrightarrow> KERNBASE \<le> kend s \<Longrightarrow> ref_idx p < 32768"
  by (rule ref_idx_less) (auto simp: valid_page_def)

lemma ref_idx_inj:
  assumes "valid_page s p" "valid_page s q" "KERNBASE \<le> kend s"
  shows "ref_idx p = ref_idx q \<longleftrightarrow> p = q"
proof -
  have *: "\<exists>k. unat r = 4096 * (k + 0x80000) \<and> ref_idx r = k" if r: "valid_page s r" for r
  proof -
    obtain j where j: "unat r = 4096 * j"
      using r by (auto simp: valid_page_def elim: pg_alignedE)
    have "KERNBASE \<le> r" using r assms(3) by (auto simp: valid_page_def)
    moreover from this have "0x80000 \<le> j"
      using j by (simp add: riscv_consts word_le_nat_alt)
    ultimately show ?thesis
      using j by (intro exI [of _ "j - 0x80000"]) (simp add: ref_idx_eq riscv_consts)
  qed
  show ?thesis
    using * [OF assms(1)] * [OF assms(2)] by (metis unat_eqD)
qed

lemma chain_cong:
  assumes "\<And>x. x \<in> set xs \<Longrightarrow> ld64 m x = ld64 m' x"
  shows "chain m p xs = chain m' p xs"
  using assms by (induction xs arbitrary: p) auto

lemma chain_head_0: "chain m 0 xs \<longleftrightarrow> xs = []"
  by (cases xs) auto

lemma page_eq_head: "page_eq m m' p \<Longrightarrow> pg_aligned p \<Longrightarrow> ld64 m p = ld64 m' p"
  using page_eq_slot [of m m' p 0] by (simp add: slot_def)

lemma kalloc_rep_frame:
  assumes rep: "kalloc_rep s fr"
    and same: "freelist s' = freelist s" "kend s' = kend s" "tp s' = tp s"
    and pages: "\<And>p. p \<in> free_in fr \<Longrightarrow> page_eq (mem s) (mem s') p"
    and refs: "\<And>p. p \<in> free_in fr \<Longrightarrow> refcnt s' (ref_idx p) = refcnt s (ref_idx p)"
  shows "kalloc_rep s' fr"
proof -
  have free: "p \<in> free_in fr" if "c < NCPU" "p \<in> set (fr c)" for c p
    using that by (auto simp: free_in_def)
  have "chain (mem s) (freelist s ! c) (fr c) = chain (mem s') (freelist s ! c) (fr c)"
    if "c < NCPU" for c
  proof (rule chain_cong)
    fix x assume x: "x \<in> set (fr c)"
    then have "pg_aligned x"
      using rep that by (auto simp: kalloc_rep_def valid_page_def)
    then show "ld64 (mem s) x = ld64 (mem s') x"
      using pages [OF free [OF that x]] page_eq_head by blast
  qed
  then show ?thesis
    using rep same refs free by (simp add: kalloc_rep_def valid_page_def)
qed

lemma kalloc_rep_pop:
  assumes rep: "kalloc_rep s fr" and c: "c < NCPU" and fr: "fr c = p # ps"
  shows "kmem_pop c s = Inr (p, s\<lparr>freelist := (freelist s)[c := ld64 (mem s) p]\<rparr>)"
    and "kalloc_rep (s\<lparr>freelist := (freelist s)[c := ld64 (mem s) p]\<rparr>) (fr(c := ps))"
    and "p \<notin> free_in (fr(c := ps))" "free_in fr = insert p (free_in (fr(c := ps)))"
proof -
  have ch: "chain (mem s) (freelist s ! c) (p # ps)" "distinct (p # ps)"
    using rep c unfolding kalloc_rep_def fr [symmetric] by blast+
  then show "kmem_pop c s = Inr (p, s\<lparr>freelist := (freelist s)[c := ld64 (mem s) p]\<rparr>)"
    using c by (simp add: kmem_pop_def Let_def)
  have disj: "set (fr d) \<inter> set (p # ps) = {}" if "d < NCPU" "d \<noteq> c" for d
    using rep c that unfolding kalloc_rep_def fr [symmetric] by blast
  show "p \<notin> free_in (fr(c := ps))"
    using disj ch(2) by (auto simp: free_in_def split: if_splits)
  show "free_in fr = insert p (free_in (fr(c := ps)))"
    using c fr
    by (auto simp: free_in_def split: if_splits) (metis lessThan_iff set_ConsD)
  show "kalloc_rep (s\<lparr>freelist := (freelist s)[c := ld64 (mem s) p]\<rparr>) (fr(c := ps))"
    using rep c ch disj fr
    by (auto simp: kalloc_rep_def nth_list_update valid_page_def)
qed

lemma kalloc_rep_pop_empty:
  assumes "kalloc_rep s fr" "c < NCPU" "fr c = []"
  shows "kmem_pop c s = Inr (0, s)"
proof -
  have "chain (mem s) (freelist s ! c) []"
    using assms unfolding kalloc_rep_def by metis
  then show ?thesis using assms by (simp add: kmem_pop_def)
qed


section \<open>Behaviour of kalloc, kfree and kaddref\<close>

lemma kmem_pop_valid:
  assumes "kalloc_rep s fr" "c < NCPU" "fr c = p # ps"
  shows "valid_page s p" "refcnt s (ref_idx p) = 0" "p \<noteq> 0" "ref_idx p < 32768"
proof -
  have K: "KERNBASE \<le> kend s" using assms(1) by (simp add: kalloc_rep_def)
  have "p \<in> set (fr c)" using assms by simp
  then show v: "valid_page s p" and "refcnt s (ref_idx p) = 0"
    using assms(1,2) by (auto simp: kalloc_rep_def)
  show "ref_idx p < 32768" using valid_page_ref_idx [OF v K] .
  show "p \<noteq> 0" using v K by (auto simp: valid_page_def riscv_consts)
qed

text \<open>The order in which \<^verbatim>\<open>kalloc\<close> looks at the lists: the hart's own, then the following ones.\<close>

definition cpu_order :: "nat \<Rightarrow> nat list" where
  "cpu_order cpu = map (\<lambda>i. (cpu + i) mod NCPU) [0..<NCPU]"

lemma set_cpu_order: "cpu < NCPU \<Longrightarrow> set (cpu_order cpu) = {..<NCPU}"
proof -
  assume "cpu < NCPU"
  have "c \<in> set (cpu_order cpu)" if "c < NCPU" for c
  proof -
    have "(cpu + (c + NCPU - cpu) mod NCPU) mod NCPU = (cpu + (c + NCPU - cpu)) mod NCPU"
      by (rule mod_add_right_eq)
    also have "\<dots> = c" using that \<open>cpu < NCPU\<close> by simp
    finally show ?thesis
      using that unfolding cpu_order_def by (force intro: image_eqI [of _ _ "(c + NCPU - cpu) mod NCPU"])
  qed
  then show ?thesis by (auto simp: cpu_order_def NCPU_def)
qed

lemma ksteal_loop_spec:
  assumes "kalloc_rep s fr"
  shows "ksteal_loop cpu i s =
    (case find (\<lambda>c. fr c \<noteq> []) (map (\<lambda>j. (cpu + j) mod NCPU) [i..<NCPU]) of
       None \<Rightarrow> Inr (0, s) | Some c \<Rightarrow> kmem_pop c s)"
  using assms
proof (induction cpu i s rule: ksteal_loop.induct)
  case (1 cpu i s)
  show ?case
  proof (cases "i < NCPU")
    case False
    then show ?thesis by (simp add: ksteal_loop.simps)
  next
    case True
    let ?c = "(cpu + i) mod NCPU"
    have c: "?c < NCPU" by (simp add: NCPU_def)
    show ?thesis
    proof (cases "fr ?c")
      case Nil
      have pop: "kmem_pop ?c s = Inr (0, s)"
        using kalloc_rep_pop_empty [OF 1(2) c Nil] .
      with True have "ksteal_loop cpu i s = ksteal_loop cpu (Suc i) s"
        by (subst ksteal_loop.simps) simp
      with 1(1) [OF True pop refl] 1(2) show ?thesis
        using True Nil by (simp add: upt_rec [of i])
    next
      case (Cons p ps)
      have "p \<noteq> 0" using kmem_pop_valid(3) [OF 1(2) c Cons] .
      with True Cons kalloc_rep_pop(1) [OF 1(2) c Cons] show ?thesis
        by (subst ksteal_loop.simps) (simp add: upt_rec [of i])
    qed
  qed
qed

lemma kalloc_unfold:
  assumes rep: "kalloc_rep s fr"
  shows "kalloc s = (case find (\<lambda>c. fr c \<noteq> []) (cpu_order (tp s)) of
      None \<Rightarrow> Inl (Undef ''refcnt: index out of range'')
    | Some c \<Rightarrow> let p = hd (fr c) in
        Inr (p, s\<lparr>mem := memset (mem s) p 5 4096,
                  freelist := (freelist s)[c := ld64 (mem s) p],
                  refcnt := (refcnt s)(ref_idx p := 1)\<rparr>))"
proof -
  have tp: "tp s < NCPU" using rep by (simp add: kalloc_rep_def)
  have ord: "cpu_order (tp s) = tp s # map (\<lambda>i. (tp s + i) mod NCPU) [1..<NCPU]"
    using tp by (simp add: cpu_order_def upt_conv_Cons NCPU_def)
  have null: "ref_set 0 1 s = Inl (Undef ''refcnt: index out of range'')"
    by (simp add: ref_set_def ref_idx_def riscv_consts)
  have own: "bnd (kmem_pop (tp s) s)
      (\<lambda>(r0, s0). if r0 = 0 then ksteal (tp s) s0 else Inr (r0, s0)) =
    (case find (\<lambda>c. fr c \<noteq> []) (cpu_order (tp s)) of
       None \<Rightarrow> Inr (0, s) | Some c \<Rightarrow> kmem_pop c s)"
  proof (cases "fr (tp s)")
    case Nil
    then show ?thesis
      using kalloc_rep_pop_empty [OF rep tp Nil] ksteal_loop_spec [OF rep]
      by (simp add: ord ksteal_def)
  next
    case (Cons p ps)
    then show ?thesis
      using kalloc_rep_pop(1) [OF rep tp Cons] kmem_pop_valid(3) [OF rep tp Cons] by (simp add: ord)
  qed
  have "kalloc s = bnd (bnd (kmem_pop (tp s) s)
      (\<lambda>(r0, s0). if r0 = 0 then ksteal (tp s) s0 else Inr (r0, s0)))
      (\<lambda>(r, s1). let s2 = (if r \<noteq> 0 then s1\<lparr>mem := memset (mem s1) r 5 4096\<rparr> else s1) in
         bnd (ref_set r 1 s2) (\<lambda>s3. Inr (r, s3)))"
    by (simp add: kalloc_def bnd_assoc split_def)
  note unfolded = this [unfolded own]
  show ?thesis
  proof (cases "find (\<lambda>c. fr c \<noteq> []) (cpu_order (tp s))")
    case None
    then show ?thesis using unfolded null by simp
  next
    case (Some c)
    then have c: "c < NCPU" and "fr c \<noteq> []"
      using set_cpu_order [OF tp] unfolding find_Some_iff by (metis lessThan_iff nth_mem)+
    then obtain p ps where fr: "fr c = p # ps" by (meson list.exhaust)
    show ?thesis
      using unfolded Some fr kalloc_rep_pop(1) [OF rep c fr] kmem_pop_valid(3,4) [OF rep c fr]
      by (simp add: ref_set_def)
  qed
qed


lemma free_in_no_ref: "kalloc_rep s fr \<Longrightarrow> p \<in> free_in fr \<Longrightarrow> valid_page s p \<and> refcnt s (ref_idx p) = 0"
  by (auto simp: kalloc_rep_def free_in_def)

lemma kalloc_rep_Inr:
  assumes rep: "kalloc_rep s fr" and ok: "kalloc s = Inr (p, s')"
  obtains c ps where "c < NCPU" "fr c = p # ps" "kalloc_rep s' (fr(c := ps))"
    "valid_page s p" "refcnt s (ref_idx p) = 0" "p \<noteq> 0"
    "s' = s\<lparr>mem := memset (mem s) p 5 4096, freelist := (freelist s)[c := ld64 (mem s) p],
            refcnt := (refcnt s)(ref_idx p := 1)\<rparr>"
proof -
  have tp: "tp s < NCPU" and K: "KERNBASE \<le> kend s" using rep by (simp_all add: kalloc_rep_def)
  from ok obtain c where c: "find (\<lambda>c. fr c \<noteq> []) (cpu_order (tp s)) = Some c"
    by (auto simp: kalloc_unfold [OF rep] split: option.splits)
  then have cN: "c < NCPU" and "fr c \<noteq> []"
    using set_cpu_order [OF tp] unfolding find_Some_iff by (metis lessThan_iff nth_mem)+
  then obtain q ps where fr: "fr c = q # ps" by (meson list.exhaust)
  let ?s = "s\<lparr>freelist := (freelist s)[c := ld64 (mem s) p]\<rparr>"
  have p: "q = p" and s': "s' = s\<lparr>mem := memset (mem s) p 5 4096,
      freelist := (freelist s)[c := ld64 (mem s) p], refcnt := (refcnt s)(ref_idx p := 1)\<rparr>"
    using ok c fr by (auto simp: kalloc_unfold [OF rep] Let_def)
  note valid = kmem_pop_valid [OF rep cN fr, unfolded p]
  have pop: "kalloc_rep ?s (fr(c := ps))" "p \<notin> free_in (fr(c := ps))"
    using kalloc_rep_pop [OF rep cN fr] p by simp_all
  have "kalloc_rep s' (fr(c := ps))"
  proof (rule kalloc_rep_frame [OF pop(1)])
    fix q assume q: "q \<in> free_in (fr(c := ps))"
    with pop have "q \<noteq> p" "valid_page s q"
      using free_in_no_ref [OF pop(1) q] by (auto simp: valid_page_def)
    with valid K show "page_eq (mem ?s) (mem s') q" "refcnt s' (ref_idx q) = refcnt ?s (ref_idx q)"
      by (simp_all add: s' memset_page_eq valid_page_aligned ref_idx_inj)
  qed (simp_all add: s')
  with that cN fr p s' valid show ?thesis by blast
qed

lemma kalloc_rep_total:
  assumes rep: "kalloc_rep s fr" and "free_in fr \<noteq> {}"
  shows "\<exists>p s'. kalloc s = Inr (p, s')"
proof -
  have tp: "tp s < NCPU" using rep by (simp add: kalloc_rep_def)
  obtain c where "c < NCPU" "fr c \<noteq> []" using assms(2) by (auto simp: free_in_def)
  then have "find (\<lambda>c. fr c \<noteq> []) (cpu_order (tp s)) \<noteq> None"
    using set_cpu_order [OF tp] by (auto simp: find_None_iff)
  then show ?thesis by (auto simp: kalloc_unfold [OF rep] Let_def)
qed

lemma kalloc_rep_none:
  assumes rep: "kalloc_rep s fr" and "free_in fr = {}"
  shows "kalloc s = Inl (Undef ''refcnt: index out of range'')"
proof -
  have tp: "tp s < NCPU" using rep by (simp add: kalloc_rep_def)
  have "find (\<lambda>c. fr c \<noteq> []) (cpu_order (tp s)) = None"
    using set_cpu_order [OF tp] assms(2) by (auto simp: find_None_iff free_in_def)
  then show ?thesis by (simp add: kalloc_unfold [OF rep])
qed

text \<open>\<^verbatim>\<open>kfree\<close> of a page with references left, and of a page with one.\<close>

lemma pg_aligned_PGSIZE: "p mod PGSIZE \<noteq> 0 \<longleftrightarrow> \<not> pg_aligned p"
  by (simp add: pg_aligned_def PGSIZE_def)

lemma kfree_guard:
  "(pa mod PGSIZE \<noteq> 0 \<or> pa < kend s \<or> pa \<ge> PHYSTOP) \<longleftrightarrow> \<not> valid_page s pa"
  by (auto simp: valid_page_def pg_aligned_PGSIZE)

lemma kfree_shared:
  assumes rep: "kalloc_rep s fr" and p: "valid_page s p" "1 < refcnt s (ref_idx p)"
  defines "s' \<equiv> s\<lparr>mem := memset (mem s) p 1 4096,
                 refcnt := (refcnt s)(ref_idx p := refcnt s (ref_idx p) - 1)\<rparr>"
  shows "kfree p s = Inr s'" "kalloc_rep s' fr"
proof -
  have K: "KERNBASE \<le> kend s" using rep by (simp add: kalloc_rep_def)
  show "kfree p s = Inr s'"
    using p valid_page_ref_idx [OF p(1) K]
    unfolding kfree_def kfree_guard by (simp add: s'_def ref_get_def ref_set_def Let_def)
  show "kalloc_rep s' fr"
  proof (rule kalloc_rep_frame [OF rep])
    fix q assume q: "q \<in> free_in fr"
    with free_in_no_ref [OF rep q] p have "q \<noteq> p" "valid_page s q" by auto
    with p K show "page_eq (mem s) (mem s') q" "refcnt s' (ref_idx q) = refcnt s (ref_idx q)"
      by (simp_all add: s'_def memset_page_eq valid_page_aligned ref_idx_inj)
  qed (simp_all add: s'_def)
qed

lemma kalloc_rep_push:
  assumes rep: "kalloc_rep s fr" and p: "valid_page s p" "refcnt s (ref_idx p) = 0"
    and new: "p \<notin> free_in fr" and c: "c < NCPU"
  defines "s' \<equiv> s\<lparr>mem := st64 (mem s) p (freelist s ! c), freelist := (freelist s)[c := p]\<rparr>"
  shows "kmem_push c p s = Inr s'" "kalloc_rep s' (fr(c := p # fr c))"
proof -
  show "kmem_push c p s = Inr s'" using c by (simp add: kmem_push_def s'_def)
  have K: "KERNBASE \<le> kend s" using rep by (simp add: kalloc_rep_def)
  then have "p \<noteq> 0" using p by (auto simp: valid_page_def riscv_consts)
  have keep: "page_eq (mem s) (mem s') q" if "q \<in> free_in fr" for q
  proof -
    have "q \<noteq> p" "pg_aligned q" using that new free_in_no_ref [OF rep that] by (auto simp: valid_page_def)
    then show ?thesis
      using p page_eq_st64 [of p q 0 "mem s"] by (simp add: s'_def valid_page_def slot_def)
  qed
  have tail: "chain (mem s') h (fr d) = chain (mem s) h (fr d)" if "d < NCPU" for d h
  proof (rule chain_cong)
    fix x assume "x \<in> set (fr d)"
    with that have x: "x \<in> free_in fr" by (auto simp: free_in_def)
    then show "ld64 (mem s') x = ld64 (mem s) x"
      using keep [OF x] free_in_no_ref [OF rep x] page_eq_head page_eq_sym valid_page_aligned by metis
  qed
  have next_p: "ld64 (mem s') p = freelist s ! c" by (simp add: s'_def)
  have fl: "freelist s' ! d = (if d = c then p else freelist s ! d)" if "d < NCPU" for d
    using that c rep by (auto simp: s'_def kalloc_rep_def nth_list_update)
  have notin: "p \<notin> set (fr d)" if "d < NCPU" for d using new that by (auto simp: free_in_def)
  show "kalloc_rep s' (fr(c := p # fr c))"
    using rep p c \<open>p \<noteq> 0\<close> tail next_p fl notin
    unfolding kalloc_rep_def
    by (auto simp: s'_def valid_page_def)
qed


lemma free_in_push: "c < NCPU \<Longrightarrow> free_in (fr(c := p # fr c)) = insert p (free_in fr)"
  by (auto simp: free_in_def split: if_splits)

lemma kfree_last:
  assumes rep: "kalloc_rep s fr" and p: "valid_page s p" "refcnt s (ref_idx p) = 1"
  defines "s' \<equiv> s\<lparr>mem := st64 (memset (mem s) p 1 4096) p (freelist s ! tp s),
                 freelist := (freelist s)[tp s := p], refcnt := (refcnt s)(ref_idx p := 0)\<rparr>"
  shows "kfree p s = Inr s'" "kalloc_rep s' (fr(tp s := p # fr (tp s)))"
proof -
  let ?s = "s\<lparr>mem := memset (mem s) p 1 4096, refcnt := (refcnt s)(ref_idx p := 0)\<rparr>"
  have K: "KERNBASE \<le> kend s" and tp: "tp s < NCPU" using rep by (simp_all add: kalloc_rep_def)
  have new: "p \<notin> free_in fr" using free_in_no_ref [OF rep] p by fastforce
  have rep1: "kalloc_rep ?s fr"
  proof (rule kalloc_rep_frame [OF rep])
    fix q assume q: "q \<in> free_in fr"
    with free_in_no_ref [OF rep q] new have "q \<noteq> p" "valid_page s q" by auto
    with p K show "page_eq (mem s) (mem ?s) q" "refcnt ?s (ref_idx q) = refcnt s (ref_idx q)"
      by (simp_all add: memset_page_eq valid_page_aligned ref_idx_inj)
  qed simp_all
  have v: "valid_page ?s p" using p by (simp add: valid_page_def)
  have s': "s' = ?s\<lparr>mem := st64 (mem ?s) p (freelist ?s ! tp s), freelist := (freelist ?s)[tp s := p]\<rparr>"
    by (simp add: s'_def)
  have push: "kmem_push (tp s) p ?s = Inr s'"
    using kalloc_rep_push(1) [OF rep1 v _ new tp] unfolding s' by simp
  show "kalloc_rep s' (fr(tp s := p # fr (tp s)))"
    using kalloc_rep_push(2) [OF rep1 v _ new tp] unfolding s' by simp
  show "kfree p s = Inr s'"
    using p valid_page_ref_idx [OF p(1) K] push
    unfolding kfree_def kfree_guard by (simp add: ref_get_def ref_set_def Let_def)
qed

section \<open>The contract of the allocator\<close>

text \<open>
  What the users of the allocator rely on. \<open>inv s F\<close>: the state is well formed and \<open>F\<close> are the
  free pages; \<open>refs s p\<close>: the references counted for \<open>p\<close>.
\<close>

locale page_allocator =
  fixes alloc :: "'s \<Rightarrow> (u64 \<times> 's) kres"
    and free :: "u64 \<Rightarrow> 's \<Rightarrow> 's kres"
    and inv :: "'s \<Rightarrow> u64 set \<Rightarrow> bool"
    and refs :: "'s \<Rightarrow> u64 \<Rightarrow> int"
    and content :: "'s \<Rightarrow> memory"
    and page :: "'s \<Rightarrow> u64 \<Rightarrow> bool"
  assumes inv_finite: "inv s F \<Longrightarrow> finite F"
    and inv_page: "inv s F \<Longrightarrow> p \<in> F \<Longrightarrow> page s p \<and> refs s p = 0"
    and alloc_total: "inv s F \<Longrightarrow> F \<noteq> {} \<Longrightarrow> \<exists>p s'. alloc s = Inr (p, s')"
    and alloc_law: "inv s F \<Longrightarrow> alloc s = Inr (p, s') \<Longrightarrow>
      p \<in> F \<and> inv s' (F - {p}) \<and> page s' = page s \<and> refs s' p = 1 \<and>
      (\<forall>q. page s q \<longrightarrow> q \<noteq> p \<longrightarrow> refs s' q = refs s q \<and> page_eq (content s) (content s') q)"
    and free_law: "inv s F \<Longrightarrow> page s p \<Longrightarrow> refs s p = 1 \<Longrightarrow>
      \<exists>s'. free p s = Inr s' \<and> inv s' (insert p F) \<and> page s' = page s \<and> refs s' p = 0 \<and>
      (\<forall>q. page s q \<longrightarrow> q \<noteq> p \<longrightarrow> refs s' q = refs s q \<and> page_eq (content s) (content s') q)"
begin

primrec alloc_n :: "nat \<Rightarrow> 's \<Rightarrow> (u64 list \<times> 's) kres" where
  "alloc_n 0 s = Inr ([], s)"
| "alloc_n (Suc n) s = bnd (alloc s) (\<lambda>(p, s1). bnd (alloc_n n s1) (\<lambda>(ps, s2). Inr (p # ps, s2)))"

primrec free_all :: "u64 list \<Rightarrow> 's \<Rightarrow> 's kres" where
  "free_all [] s = Inr s"
| "free_all (p # ps) s = bnd (free p s) (free_all ps)"

lemma alloc_n_law:
  assumes "inv s F" "n \<le> card F"
  shows "\<exists>ps s'. alloc_n n s = Inr (ps, s') \<and> length ps = n \<and> distinct ps \<and> set ps \<subseteq> F \<and>
    inv s' (F - set ps) \<and> page s' = page s \<and> (\<forall>p\<in>set ps. refs s' p = 1) \<and>
    (\<forall>q. page s q \<longrightarrow> q \<notin> set ps \<longrightarrow> refs s' q = refs s q \<and> page_eq (content s) (content s') q)"
  using assms
proof (induction n arbitrary: s F)
  case 0
  then show ?case by simp
next
  case (Suc n)
  then have fin: "finite F" and "F \<noteq> {}" using inv_finite by auto
  then obtain p s1 where a: "alloc s = Inr (p, s1)" using alloc_total Suc.prems by blast
  note l1 = alloc_law [OF Suc.prems(1) a]
  have p: "page s p" using inv_page Suc.prems(1) l1 by blast
  have "n \<le> card (F - {p})" using Suc.prems l1 fin by simp
  then obtain ps s' where l2: "alloc_n n s1 = Inr (ps, s')" "length ps = n" "distinct ps"
      "set ps \<subseteq> F - {p}" "inv s' (F - {p} - set ps)" "page s' = page s1"
      "\<forall>p\<in>set ps. refs s' p = 1"
      "\<forall>q. page s1 q \<longrightarrow> q \<notin> set ps \<longrightarrow> refs s' q = refs s1 q \<and> page_eq (content s1) (content s') q"
    using Suc.IH [of s1 "F - {p}"] l1 by blast
  have "F - {p} - set ps = F - set (p # ps)" by auto
  moreover have "refs s' q = refs s q \<and> page_eq (content s) (content s') q"
    if "page s q" "q \<notin> set (p # ps)" for q
    using that l1 l2(8) page_eq_trans by (metis list.set_intros)
  ultimately show ?case
    using a l1 l2 p by (intro exI [of _ "p # ps"] exI [of _ s']) auto
qed

end


definition kalloc_inv :: "'z kmem_scheme \<Rightarrow> u64 set \<Rightarrow> bool" where
  "kalloc_inv s F \<longleftrightarrow> (\<exists>fr. kalloc_rep s fr \<and> free_in fr = F)"

definition page_refs :: "'z kmem_scheme \<Rightarrow> u64 \<Rightarrow> int" where
  "page_refs s p = refcnt s (ref_idx p)"

lemma kalloc_inv_KERNBASE: "kalloc_inv s F \<Longrightarrow> KERNBASE \<le> kend s"
  by (auto simp: kalloc_inv_def kalloc_rep_def)

lemma kalloc_inv_page: "kalloc_inv s F \<Longrightarrow> p \<in> F \<Longrightarrow> valid_page s p \<and> page_refs s p = 0"
  using free_in_no_ref by (auto simp: kalloc_inv_def page_refs_def)

lemma kalloc_inv_alloc:
  assumes "kalloc_inv s F" "kalloc s = Inr (p, s')"
  shows "p \<in> F" "kalloc_inv s' (F - {p})" "valid_page s' = valid_page s" "page_refs s' p = 1" "p \<noteq> 0"
    "\<And>q. valid_page s q \<Longrightarrow> q \<noteq> p \<Longrightarrow> page_refs s' q = page_refs s q \<and> page_eq (mem s) (mem s') q"
    "mem s' = memset (mem s) p 5 4096" "kend s' = kend s" "tp s' = tp s"
proof -
  obtain fr where rep: "kalloc_rep s fr" and F: "F = free_in fr"
    using assms(1) by (auto simp: kalloc_inv_def)
  have K: "KERNBASE \<le> kend s" using rep by (simp add: kalloc_rep_def)
  obtain c ps where c: "c < NCPU" "fr c = p # ps" "kalloc_rep s' (fr(c := ps))"
    "valid_page s p" "refcnt s (ref_idx p) = 0" "p \<noteq> 0"
    "s' = s\<lparr>mem := memset (mem s) p 5 4096, freelist := (freelist s)[c := ld64 (mem s) p],
            refcnt := (refcnt s)(ref_idx p := 1)\<rparr>"
    using kalloc_rep_Inr [OF rep assms(2)] .
  note pop = kalloc_rep_pop(3,4) [OF rep c(1,2)]
  show "p \<in> F" using pop F by simp
  show "kalloc_inv s' (F - {p})"
    using c(3) pop F by (auto simp: kalloc_inv_def intro!: exI [of _ "fr(c := ps)"])
  show "page_refs s' q = page_refs s q \<and> page_eq (mem s) (mem s') q" if "valid_page s q" "q \<noteq> p" for q
    using that c K by (simp add: page_refs_def memset_page_eq valid_page_aligned ref_idx_inj)
  show "valid_page s' = valid_page s" "page_refs s' p = 1" "p \<noteq> 0"
    "mem s' = memset (mem s) p 5 4096" "kend s' = kend s" "tp s' = tp s"
    using c by (simp_all add: page_refs_def valid_page_def fun_eq_iff)
qed

lemma kalloc_inv_total:
  assumes "kalloc_inv s F" "F \<noteq> {}"
  obtains p s' where "kalloc s = Inr (p, s')"
  using assms kalloc_rep_total unfolding kalloc_inv_def by blast

lemma kalloc_inv_free:
  assumes "kalloc_inv s F" "valid_page s p" "page_refs s p = 1"
  obtains s' where "kfree p s = Inr s'" "kalloc_inv s' (insert p F)" "valid_page s' = valid_page s"
    "page_refs s' p = 0" "kend s' = kend s" "tp s' = tp s"
    "\<And>q. valid_page s q \<Longrightarrow> q \<noteq> p \<Longrightarrow> page_refs s' q = page_refs s q \<and> page_eq (mem s) (mem s') q"
proof -
  obtain fr where rep: "kalloc_rep s fr" and F: "F = free_in fr"
    using assms(1) by (auto simp: kalloc_inv_def)
  have K: "KERNBASE \<le> kend s" and tp: "tp s < NCPU" using rep by (simp_all add: kalloc_rep_def)
  have 1: "refcnt s (ref_idx p) = 1" using assms(3) by (simp add: page_refs_def)
  let ?m = "memset (mem s) p 1 4096"
  let ?s = "s\<lparr>mem := st64 ?m p (freelist s ! tp s),
                 freelist := (freelist s)[tp s := p], refcnt := (refcnt s)(ref_idx p := 0)\<rparr>"
  note last = kfree_last [OF rep assms(2) 1]
  show ?thesis
  proof (rule that)
    show "kfree p s = Inr ?s" by (rule last(1))
    show "kalloc_inv ?s (insert p F)"
      using last(2) free_in_push [OF tp] F unfolding kalloc_inv_def by blast
    fix q assume q: "valid_page s q" "q \<noteq> p"
    have "page_eq (mem s) ?m q" "page_eq ?m (st64 ?m p (freelist s ! tp s)) q"
      using q assms(2) page_eq_st64 [of p q 0 ?m]
      by (simp_all add: memset_page_eq valid_page_aligned slot_def)
    then show "page_refs ?s q = page_refs s q \<and> page_eq (mem s) (mem ?s) q"
      using q assms(2) K by (auto simp: page_refs_def ref_idx_inj intro: page_eq_trans)
  qed (auto simp: page_refs_def valid_page_def fun_eq_iff)
qed

lemma kalloc_inv_finite: "kalloc_inv s F \<Longrightarrow> finite F"
  by (auto simp: kalloc_inv_def free_in_def)

interpretation kpages: page_allocator kalloc kfree kalloc_inv page_refs mem valid_page
proof unfold_locales
  fix s :: "'a kmem_scheme" and F p s'
  assume "kalloc_inv s F" "kalloc s = Inr (p, s')"
  from kalloc_inv_alloc [OF this] show "p \<in> F \<and> kalloc_inv s' (F - {p}) \<and> valid_page s' = valid_page s \<and>
      page_refs s' p = 1 \<and> (\<forall>q. valid_page s q \<longrightarrow> q \<noteq> p \<longrightarrow>
        page_refs s' q = page_refs s q \<and> page_eq (mem s) (mem s') q)" by blast
next
  fix s :: "'a kmem_scheme" and F p
  assume "kalloc_inv s F" "valid_page s p" "page_refs s p = 1"
  from kalloc_inv_free [OF this] show "\<exists>s'. kfree p s = Inr s' \<and> kalloc_inv s' (insert p F) \<and>
      valid_page s' = valid_page s \<and> page_refs s' p = 0 \<and> (\<forall>q. valid_page s q \<longrightarrow> q \<noteq> p \<longrightarrow>
        page_refs s' q = page_refs s q \<and> page_eq (mem s) (mem s') q)" by metis
qed (auto intro: kalloc_inv_finite elim: kalloc_inv_total dest: kalloc_inv_page)


section \<open>Initialisation\<close>

lemma freerange_loop_end:
  assumes "pg_aligned p" "KERNBASE \<le> p" "p \<le> PHYSTOP"
  shows "\<exists>s'. freerange_loop p PHYSTOP s = Inr (PHYSTOP, s') \<and> kend s' = kend s"
  using assms
proof (induction p PHYSTOP s rule: freerange_loop.induct)
  case (1 p s)
  obtain k where k: "unat p = 4096 * k" using 1(2) by (rule pg_alignedE)
  have le: "4096 * k \<le> 0x88000000" "0x80000000 \<le> 4096 * k"
    using 1(3,4) k by (simp_all add: riscv_consts word_le_nat_alt)
  then have up: "unat (p + PGSIZE) = 4096 * (k + 1)"
    using k by (simp add: riscv_consts unat_word_ariths)
  show ?case
  proof (cases "p = PHYSTOP")
    case True
    then show ?thesis by (subst freerange_loop.simps) (simp add: riscv_consts)
  next
    case False
    then have "p < PHYSTOP" using 1(4) by simp
    then have lt: "k < 0x88000"
      using k by (simp add: word_less_nat_alt riscv_consts)
    then have c: "p + PGSIZE \<le> PHYSTOP \<and> p < p + PGSIZE" and "KERNBASE \<le> p + PGSIZE" "pg_aligned (p + PGSIZE)"
      using up k le by (simp_all add: word_le_nat_alt word_less_nat_alt riscv_consts pg_aligned_unat)
    moreover have set: "ref_set p 1 s = Inr (s\<lparr>refcnt := (refcnt s)(ref_idx p := 1)\<rparr>)"
      using ref_idx_less [OF 1(3) \<open>p < PHYSTOP\<close>] by (simp add: ref_set_def)
    ultimately have "\<exists>s'. freerange_loop (p + PGSIZE) PHYSTOP (s\<lparr>refcnt := (refcnt s)(ref_idx p := 1)\<rparr>)
        = Inr (PHYSTOP, s') \<and> kend s' = kend s"
      using 1(1) [OF c set] by simp
    with c set show ?thesis by (subst freerange_loop.simps) simp
  qed
qed

section \<open>A concrete allocator\<close>

text \<open>One page, at 0x80200000, with \<open>r\<close> references; without a reference it is on hart 0's list.\<close>

definition one_page :: "int \<Rightarrow> kmem" where
  "one_page r = \<lparr>mem = (\<lambda>_. 0), freelist = (if r = 0 then [0x80200000] else [0]) @ replicate 7 0,
     refcnt = (\<lambda>_. 0)(ref_idx 0x80200000 := r), kend = 0x80100000, tp = 0\<rparr>"

lemma ld64_zero [simp]: "ld64 (\<lambda>_. 0) p = 0"
  by (simp add: ld64_def mem_read_def upt_conv_Cons)

lemma one_page_valid: "valid_page (one_page r) 0x80200000"
  by (simp add: one_page_def valid_page_def pg_aligned_def riscv_consts)

lemma one_page_rep: "kalloc_rep (one_page r) (\<lambda>c. if r = 0 \<and> c = 0 then [0x80200000] else [])"
proof -
  have "freelist (one_page r) ! c = (if r = 0 \<and> c = 0 then 0x80200000 else 0)" if "c < 8" for c
    using that by (cases c) (auto simp: one_page_def nth_append)
  then show ?thesis
    using one_page_valid [of r] by (auto simp: kalloc_rep_def NCPU_def) (auto simp: one_page_def riscv_consts)
qed

lemma one_page_inv: "kalloc_inv (one_page 0) {0x80200000}"
  using one_page_rep [of 0] unfolding kalloc_inv_def
  by (auto intro!: exI [of _ "\<lambda>c. if c = 0 then [0x80200000] else []"] simp: free_in_def riscv_consts)

section \<open>Properties\<close>

text \<open>
  C12. \<^verbatim>\<open>n\<close> successive calls of \<^verbatim>\<open>kalloc\<close> with at least \<^verbatim>\<open>n\<close> free pages all succeed: they return
  \<^verbatim>\<open>n\<close> different pages that were free, each with one reference; every other page keeps its
  content and its count, and the free lists stay well formed.
\<close>

theorem kalloc_n_distinct:
  assumes "kalloc_inv s F" "n \<le> card F"
  shows "\<exists>ps s'. kpages.alloc_n n s = Inr (ps, s') \<and> length ps = n \<and> distinct ps \<and> set ps \<subseteq> F \<and>
    kalloc_inv s' (F - set ps) \<and> (\<forall>p\<in>set ps. refcnt s' (ref_idx p) = 1) \<and>
    (\<forall>q. valid_page s q \<longrightarrow> q \<notin> set ps \<longrightarrow>
       refcnt s' (ref_idx q) = refcnt s (ref_idx q) \<and> page_eq (mem s) (mem s') q)"
  using kpages.alloc_n_law [OF assms] unfolding page_refs_def by blast

theorem kalloc_n_distinct_witness:
  "\<exists>s'. kpages.alloc_n 1 (one_page 0) = Inr ([0x80200000], s') \<and> kalloc_inv s' {}"
proof -
  obtain ps s' where "kpages.alloc_n 1 (one_page 0) = Inr (ps, s')" "length ps = 1"
      "set ps \<subseteq> {0x80200000}" "kalloc_inv s' ({0x80200000} - set ps)"
    using kalloc_n_distinct [OF one_page_inv, of 1] by auto
  moreover from this have "ps = [0x80200000]" by (auto simp: length_Suc_conv)
  ultimately show ?thesis by auto
qed

text \<open>
  C30. What \<^verbatim>\<open>kalloc\<close> does on every state whose lists are well formed: it takes the first page of
  the first non-empty list, starting at the running hart's and going round; it fills the page
  with 5 and counts one reference. When every list is empty it does not return 0: the write of
  the reference count of page 0 is outside the array.
\<close>

theorem kalloc_behaviour:
  assumes "kalloc_rep s fr"
  shows "kalloc s = (case find (\<lambda>c. fr c \<noteq> []) (map (\<lambda>i. (tp s + i) mod NCPU) [0..<NCPU]) of
      None \<Rightarrow> Inl (Undef ''refcnt: index out of range'')
    | Some c \<Rightarrow> let p = hd (fr c) in
        Inr (p, s\<lparr>mem := memset (mem s) p 5 4096,
                  freelist := (freelist s)[c := ld64 (mem s) p],
                  refcnt := (refcnt s)(ref_idx p := 1)\<rparr>))"
  using kalloc_unfold [OF assms] by (simp add: cpu_order_def)

theorem kalloc_behaviour_witness:
  "(\<exists>s'. kalloc (one_page 0) = Inr (0x80200000, s')) \<and>
   kalloc (one_page 1) = Inl (Undef ''refcnt: index out of range'')"
  using kalloc_behaviour [OF one_page_rep, of 0] kalloc_behaviour [OF one_page_rep, of 1]
  by (simp add: riscv_consts upt_conv_Cons one_page_def Let_def)

text \<open>
  C31. \<^verbatim>\<open>kfree\<close> on every branch. It panics exactly for an address that is not a page of the
  allocator or has no reference; with several references it only drops one; with one
  reference it puts the page at the head of the running hart's list, where it was not before.
\<close>

theorem kfree_behaviour:
  assumes "kalloc_rep s fr"
  shows "if \<not> valid_page s p \<or> refcnt s (ref_idx p) \<le> 0 then kfree p s = Inl (Panic ''kfree'')
    else \<exists>s'. kfree p s = Inr s' \<and> refcnt s' = (refcnt s)(ref_idx p := refcnt s (ref_idx p) - 1) \<and>
      p \<notin> free_in fr \<and>
      kalloc_rep s' (if refcnt s (ref_idx p) = 1 then fr(tp s := p # fr (tp s)) else fr)"
proof (cases "\<not> valid_page s p \<or> refcnt s (ref_idx p) \<le> 0")
  case True
  have "ref_idx p < 32768" if "valid_page s p"
    using that assms valid_page_ref_idx unfolding kalloc_rep_def by blast
  with True show ?thesis
    unfolding kfree_def kfree_guard by (auto simp: ref_get_def Let_def panic_if_def)
next
  case False
  then have v: "valid_page s p" and pos: "0 < refcnt s (ref_idx p)" by auto
  then have "p \<notin> free_in fr" using free_in_no_ref [OF assms] by fastforce
  moreover consider "refcnt s (ref_idx p) = 1" | "1 < refcnt s (ref_idx p)" using pos by linarith
  ultimately show ?thesis
    using False kfree_last [OF assms v] kfree_shared [OF assms v] by cases auto
qed

theorem kfree_behaviour_witness:
  "kfree 0x80200008 (one_page 1) = Inl (Panic ''kfree'') \<and>
   kfree 0x80200000 (one_page 0) = Inl (Panic ''kfree'') \<and>
   (\<exists>s'. kfree 0x80200000 (one_page 1) = Inr s' \<and> refcnt s' (ref_idx 0x80200000) = 0 \<and>
      kalloc_rep s' (\<lambda>c. if c = 0 then [0x80200000] else []))"
proof -
  have "\<not> valid_page (one_page 1) 0x80200008"
    by (simp add: valid_page_def pg_aligned_def)
  moreover have "tp (one_page 1) = 0" "refcnt (one_page r) (ref_idx 0x80200000) = r" for r
    by (simp_all add: one_page_def)
  moreover have "(\<lambda>c. [])(0 :: nat := [0x80200000]) = (\<lambda>c. if c = 0 then [0x80200000 :: u64] else [])" by auto
  ultimately show ?thesis
    using kfree_behaviour [OF one_page_rep, of 1 "0x80200008"] one_page_valid
      kfree_behaviour [OF one_page_rep, of 0 "0x80200000"]
      kfree_behaviour [OF one_page_rep, of 1 "0x80200000"] by auto
qed

text \<open>
  C35. Booting does not get past the allocator: \<^verbatim>\<open>kinit\<close> panics, because the loop of
  \<^verbatim>\<open>freerange\<close> covers only the count and \<^verbatim>\<open>kfree\<close> is called once, on \<^verbatim>\<open>PHYSTOP\<close>.
\<close>

theorem kinit_panics:
  assumes "KERNBASE \<le> kend s" "kend s \<le> PHYSTOP"
  shows "kinit s = Inl (Panic ''kfree'')"
proof -
  have up: "unat (PGROUNDUP (kend s)) = 4096 * ((unat (kend s) + 4095) div 4096)"
    using assms by (intro unat_PGROUNDUP) (simp add: riscv_consts word_le_nat_alt)
  then have "KERNBASE \<le> PGROUNDUP (kend s)" "PGROUNDUP (kend s) \<le> PHYSTOP"
    using assms by (simp_all add: riscv_consts word_le_nat_alt)
  then obtain s' where "freerange_loop (PGROUNDUP (kend s)) PHYSTOP s = Inr (PHYSTOP, s')"
    using freerange_loop_end [OF PGROUNDUP_aligned] by blast
  then show ?thesis by (simp add: kinit_def freerange_def kfree_def)
qed

theorem kinit_panics_witness: "kinit (one_page 0) = Inl (Panic ''kfree'')"
  by (rule kinit_panics) (simp_all add: one_page_def riscv_consts)

text \<open>
  C36. Dropping one of several references destroys the page for the remaining owners: \<^verbatim>\<open>kfree\<close>
  fills it with junk before it looks at the count.
\<close>

theorem kfree_junks_shared_page:
  assumes "kalloc_rep s fr" "valid_page s p" "1 < refcnt s (ref_idx p)" "in_page p x"
  shows "\<exists>s'. kfree p s = Inr s' \<and> 0 < refcnt s' (ref_idx p) \<and> mem s' x = 1"
  using kfree_shared [OF assms(1-3)] assms(3,4)
  by (auto simp: memset_apply in_page_def)

theorem kfree_junks_shared_page_witness:
  "\<exists>s'. kfree 0x80200000 (one_page 2) = Inr s' \<and> mem (one_page 2) 0x80200001 = 0 \<and> mem s' 0x80200001 = 1"
proof -
  have "1 < refcnt (one_page 2) (ref_idx 0x80200000)" "in_page 0x80200000 0x80200001"
    by (simp_all add: one_page_def in_page_def)
  from kfree_junks_shared_page [OF one_page_rep one_page_valid this]
  show ?thesis by (auto simp: one_page_def)
qed

end
