(* ===== verification/Pagetable.thy ===== *)
theory Pagetable
  imports Kalloc
begin

text \<open>
  The three-level page tables of \<^verbatim>\<open>kernel/vm.c\<close>, held in the byte memory of the machine:
  \<^verbatim>\<open>walk\<close>, \<^verbatim>\<open>mappages\<close>, \<^verbatim>\<open>uvmunmap\<close> and \<^verbatim>\<open>freewalk\<close> as the code has them, the tree of
  page-table pages they work on, and the map from virtual pages to entries it represents.
\<close>

unbundle bit_operations_syntax

section \<open>Operations\<close>

definition ld_pte :: "u64 \<Rightarrow> 'z kmem_scheme \<Rightarrow> u64 kres" where
  "ld_pte pte s = (if pte = 0 then Inl (Undef ''null pte'') else Inr (ld64 (mem s) pte))"

definition st_pte :: "u64 \<Rightarrow> u64 \<Rightarrow> 'z kmem_scheme \<Rightarrow> 'z kmem_scheme kres" where
  "st_pte pte v s = (if pte = 0 then Inl (Undef ''null pte'') else Inr (s\<lparr>mem := st64 (mem s) pte v\<rparr>))"

text \<open>A null result of \<^verbatim>\<open>walk\<close> is the pointer 0; \<open>level\<close> counts down as the loop of the code does.\<close>

primrec walk_loop :: "nat \<Rightarrow> u64 \<Rightarrow> u64 \<Rightarrow> bool \<Rightarrow> 'z kmem_scheme \<Rightarrow> (u64 \<times> 'z kmem_scheme) kres" where
  "walk_loop 0 pagetable va alloc s = Inr (slot pagetable (PX 0 va), s)"
| "walk_loop (Suc level) pagetable va alloc s =
     (let pte = slot pagetable (PX (Suc level) va); v = ld64 (mem s) pte in
      if v AND PTE_V \<noteq> 0 then walk_loop level (PTE2PA v) va alloc s
      else if \<not> alloc then Inr (0, s)
      else bnd (kalloc s) (\<lambda>(p, s1).
        if p = 0 then Inr (0, s1)
        else let s2 = s1\<lparr>mem := st64 (memset (mem s1) p 0 4096) pte (PA2PTE p OR PTE_V)\<rparr> in
             walk_loop level p va alloc s2))"

definition walk :: "u64 \<Rightarrow> u64 \<Rightarrow> bool \<Rightarrow> 'z kmem_scheme \<Rightarrow> (u64 \<times> 'z kmem_scheme) kres" where
  "walk pagetable va alloc s = panic_if (va \<ge> MAXVA) ''walk'' (walk_loop 2 pagetable va alloc s)"

definition walkaddr :: "u64 \<Rightarrow> u64 \<Rightarrow> 'z kmem_scheme \<Rightarrow> u64 kres" where
  "walkaddr pagetable va s =
     (if va \<ge> MAXVA then Inr 0
      else bnd (walk pagetable va False s) (\<lambda>(pte, s).
        if pte = 0 then Inr 0
        else let v = ld64 (mem s) pte in
             if v AND PTE_V = 0 then Inr 0
             else if v AND PTE_U = 0 then Inr 0
             else Inr (PTE2PA v)))"

lemma walk_bound: "walk pt a al s = Inr x \<Longrightarrow> unat a < 2 ^ 38"
  by (auto simp: walk_def kres_simps not_le word_less_nat_alt)

lemma unat_next_page: "unat (a :: u64) < 2 ^ 38 \<Longrightarrow> unat (a + PGSIZE) = unat a + 4096"
  by (simp add: unat_word_ariths PGSIZE_def)

text \<open>
  The loop of \<^verbatim>\<open>mappages\<close> leaves only at \<^verbatim>\<open>last\<close>; it ends in every case because \<^verbatim>\<open>walk\<close> panics
  above \<^verbatim>\<open>MAXVA\<close>. The result is \<^verbatim>\<open>0\<close> or \<^verbatim>\<open>-1\<close>.
\<close>

function mappages_loop :: "u64 \<Rightarrow> u64 \<Rightarrow> u64 \<Rightarrow> u64 \<Rightarrow> u64 \<Rightarrow> 'z kmem_scheme \<Rightarrow> (int \<times> 'z kmem_scheme) kres" where
  "mappages_loop pagetable a last_a pa perm s =
     bnd (walk pagetable a True s) (\<lambda>(pte, s1).
     if pte = 0 then Inr (-1, s1)
     else panic_if (ld64 (mem s1) pte AND PTE_V \<noteq> 0) ''mappages: remap''
       (let s2 = s1\<lparr>mem := st64 (mem s1) pte (PA2PTE pa OR perm OR PTE_V)\<rparr> in
        if a = last_a then Inr (0, s2)
        else mappages_loop pagetable (a + PGSIZE) last_a (pa + PGSIZE) perm s2))"
  by pat_completeness auto
termination
  by (relation "measure (\<lambda>(pt, a, last_a, pa, perm, s). 2 ^ 64 - unat a)")
     (auto dest!: walk_bound simp: unat_next_page)

definition mappages :: "u64 \<Rightarrow> u64 \<Rightarrow> u64 \<Rightarrow> u64 \<Rightarrow> u64 \<Rightarrow> 'z kmem_scheme \<Rightarrow> (int \<times> 'z kmem_scheme) kres" where
  "mappages pagetable va sz pa perm s =
     panic_if (va mod PGSIZE \<noteq> 0) ''mappages: va not aligned''
    (panic_if (sz mod PGSIZE \<noteq> 0) ''mappages: size not aligned''
    (panic_if (sz = 0) ''mappages: size''
      (mappages_loop pagetable va (va + sz - PGSIZE) pa perm s)))"

definition kvmmap :: "u64 \<Rightarrow> u64 \<Rightarrow> u64 \<Rightarrow> u64 \<Rightarrow> u64 \<Rightarrow> 'z kmem_scheme \<Rightarrow> 'z kmem_scheme kres" where
  "kvmmap kpgtbl va pa sz perm s =
     bnd (mappages kpgtbl va sz pa perm s) (\<lambda>(r, s'). panic_if (r \<noteq> 0) ''kvmmap'' (Inr s'))"

definition uvmcreate :: "'z kmem_scheme \<Rightarrow> (u64 \<times> 'z kmem_scheme) kres" where
  "uvmcreate s =
     bnd (kalloc s) (\<lambda>(p, s1).
     if p = 0 then Inr (0, s1) else Inr (p, s1\<lparr>mem := memset (mem s1) p 0 4096\<rparr>))"

function uvmunmap_loop :: "u64 \<Rightarrow> u64 \<Rightarrow> u64 \<Rightarrow> bool \<Rightarrow> 'z kmem_scheme \<Rightarrow> 'z kmem_scheme kres" where
  "uvmunmap_loop pagetable a end_va do_free s =
     (if a < end_va then
        bnd (walk pagetable a False s) (\<lambda>(pte, s0).
        if pte = 0 then uvmunmap_loop pagetable (a + PGSIZE) end_va do_free s0
        else let v = ld64 (mem s0) pte in
          if v AND PTE_V = 0 then uvmunmap_loop pagetable (a + PGSIZE) end_va do_free s0
          else bnd (if do_free then kfree (PTE2PA v) s0 else Inr s0) (\<lambda>s1.
               uvmunmap_loop pagetable (a + PGSIZE) end_va do_free (s1\<lparr>mem := st64 (mem s1) pte 0\<rparr>)))
      else Inr s)"
  by pat_completeness auto
termination
  by (relation "measure (\<lambda>(pt, a, e, f, s). unat e - unat a)")
     (auto dest!: walk_bound simp: unat_next_page word_less_nat_alt intro!: diff_less_mono2)

definition uvmunmap :: "u64 \<Rightarrow> u64 \<Rightarrow> u64 \<Rightarrow> bool \<Rightarrow> 'z kmem_scheme \<Rightarrow> 'z kmem_scheme kres" where
  "uvmunmap pagetable va npages do_free s =
     panic_if (va mod PGSIZE \<noteq> 0) ''uvmunmap: not aligned''
       (uvmunmap_loop pagetable va (va + npages * PGSIZE) do_free s)"

text \<open>In \<^verbatim>\<open>kvmunmap\<close> both tests jump to the store, which the first makes through a null pointer.\<close>

function kvmunmap_loop :: "u64 \<Rightarrow> u64 \<Rightarrow> u64 \<Rightarrow> 'z kmem_scheme \<Rightarrow> 'z kmem_scheme kres" where
  "kvmunmap_loop pagetable a end_va s =
     (if a < end_va then
        bnd (walk pagetable a False s) (\<lambda>(pte, s0).
        panic_if (pte \<noteq> 0 \<and> ld64 (mem s0) pte AND PTE_V \<noteq> 0 \<and> PTE_FLAGS (ld64 (mem s0) pte) = PTE_V)
          ''kvmunmap: not a leaf''
          (bnd (st_pte pte 0 s0) (\<lambda>s1. kvmunmap_loop pagetable (a + PGSIZE) end_va s1)))
      else Inr s)"
  by pat_completeness auto
termination
  by (relation "measure (\<lambda>(pt, a, e, s). unat e - unat a)")
     (auto dest!: walk_bound simp: unat_next_page word_less_nat_alt intro!: diff_less_mono2)

definition kvmunmap :: "u64 \<Rightarrow> u64 \<Rightarrow> u64 \<Rightarrow> 'z kmem_scheme \<Rightarrow> 'z kmem_scheme kres" where
  "kvmunmap pagetable va npages s =
     panic_if (va mod PGSIZE \<noteq> 0) ''kvmunmap: not aligned''
       (kvmunmap_loop pagetable va (va + npages * PGSIZE) s)"

definition ismapped :: "u64 \<Rightarrow> u64 \<Rightarrow> 'z kmem_scheme \<Rightarrow> bool kres" where
  "ismapped pagetable va s =
     bnd (walk pagetable va False s) (\<lambda>(pte, s).
     if pte = 0 then Inr False else Inr (ld64 (mem s) pte AND PTE_V \<noteq> 0))"

definition uvmclear :: "u64 \<Rightarrow> u64 \<Rightarrow> 'z kmem_scheme \<Rightarrow> 'z kmem_scheme kres" where
  "uvmclear pagetable va s =
     bnd (walk pagetable va False s) (\<lambda>(pte, s).
     panic_if (pte = 0) ''uvmclear''
       (Inr (s\<lparr>mem := st64 (mem s) pte (ld64 (mem s) pte AND NOT PTE_U)\<rparr>)))"

text \<open>
  \<^verbatim>\<open>freewalk\<close> recurses as deep as valid non-leaf entries lead it; \<open>fuel\<close> stands for the room on
  the kernel stack, three frames being what a page table of three levels needs.
\<close>

fun freewalk_entries :: "(u64 \<Rightarrow> 'z kmem_scheme \<Rightarrow> 'z kmem_scheme kres) \<Rightarrow> u64 \<Rightarrow> nat list \<Rightarrow>
    'z kmem_scheme \<Rightarrow> 'z kmem_scheme kres" where
  "freewalk_entries rec pagetable [] s = Inr s"
| "freewalk_entries rec pagetable (i # is) s =
     (let pte = ld64 (mem s) (slot pagetable i) in
      if pte AND PTE_V \<noteq> 0 \<and> pte AND (PTE_R OR PTE_W OR PTE_X) = 0 then
        bnd (rec (PTE2PA pte) s) (\<lambda>s1.
          freewalk_entries rec pagetable is (s1\<lparr>mem := st64 (mem s1) (slot pagetable i) 0\<rparr>))
      else if pte AND PTE_V \<noteq> 0 then Inl (Panic ''freewalk: leaf'')
      else freewalk_entries rec pagetable is s)"

primrec freewalk :: "nat \<Rightarrow> u64 \<Rightarrow> 'z kmem_scheme \<Rightarrow> 'z kmem_scheme kres" where
  "freewalk 0 pagetable s = Inl (Undef ''freewalk: stack overflow'')"
| "freewalk (Suc fuel) pagetable s =
     bnd (freewalk_entries (freewalk fuel) pagetable [0..<512] s) (kfree pagetable)"

declare mappages_loop.simps [simp del] uvmunmap_loop.simps [simp del] kvmunmap_loop.simps [simp del]

section \<open>The tree of page-table pages\<close>

definition pte_v :: "u64 \<Rightarrow> bool" where
  "pte_v v \<longleftrightarrow> v AND PTE_V \<noteq> 0"

definition pte_at :: "memory \<Rightarrow> u64 \<Rightarrow> nat \<Rightarrow> u64" where
  "pte_at m p i = ld64 m (slot p i)"

text \<open>\<open>pt_pages m n p\<close>: the pages of the table of level \<open>n\<close> at \<open>p\<close>; \<open>pt_tree\<close>: no page is shared.\<close>

primrec pt_pages :: "memory \<Rightarrow> nat \<Rightarrow> u64 \<Rightarrow> u64 set" where
  "pt_pages m 0 p = {p}"
| "pt_pages m (Suc n) p =
     insert p (\<Union>i\<in>{i. i < 512 \<and> pte_v (pte_at m p i)}. pt_pages m n (PTE2PA (pte_at m p i)))"

primrec pt_tree :: "memory \<Rightarrow> nat \<Rightarrow> u64 \<Rightarrow> bool" where
  "pt_tree m 0 p \<longleftrightarrow> True"
| "pt_tree m (Suc n) p \<longleftrightarrow>
     (\<forall>i<512. pte_v (pte_at m p i) \<longrightarrow>
        pt_tree m n (PTE2PA (pte_at m p i)) \<and> p \<notin> pt_pages m n (PTE2PA (pte_at m p i))) \<and>
     (\<forall>i<512. \<forall>j<512. i \<noteq> j \<longrightarrow> pte_v (pte_at m p i) \<longrightarrow> pte_v (pte_at m p j) \<longrightarrow>
        pt_pages m n (PTE2PA (pte_at m p i)) \<inter> pt_pages m n (PTE2PA (pte_at m p j)) = {})"

text \<open>The address of the last-level entry for \<open>va\<close>, and the entry when it is valid.\<close>

primrec pt_slot :: "memory \<Rightarrow> nat \<Rightarrow> u64 \<Rightarrow> u64 \<Rightarrow> u64 option" where
  "pt_slot m 0 p va = Some (slot p (PX 0 va))"
| "pt_slot m (Suc n) p va =
     (let v = pte_at m p (PX (Suc n) va) in if pte_v v then pt_slot m n (PTE2PA v) va else None)"

definition pt_get :: "memory \<Rightarrow> nat \<Rightarrow> u64 \<Rightarrow> u64 \<Rightarrow> u64 option" where
  "pt_get m n p va = (case pt_slot m n p va of
     None \<Rightarrow> None | Some a \<Rightarrow> if pte_v (ld64 m a) then Some (ld64 m a) else None)"

lemma pt_root_in_pages: "p \<in> pt_pages m n p"
  by (cases n) auto

lemma pt_pages_aligned: "pg_aligned p \<Longrightarrow> q \<in> pt_pages m n p \<Longrightarrow> pg_aligned q"
proof (induction n arbitrary: p)
  case (Suc n)
  then show ?case using Suc.IH [OF PTE2PA_aligned] by auto
qed simp

lemma pt_pages_child:
  "i < 512 \<Longrightarrow> pte_v (pte_at m p i) \<Longrightarrow> pt_pages m n (PTE2PA (pte_at m p i)) \<subseteq> pt_pages m (Suc n) p"
  by auto

lemma pte_at_cong: "page_eq m m' p \<Longrightarrow> pg_aligned p \<Longrightarrow> i < 512 \<Longrightarrow> pte_at m' p i = pte_at m p i"
  using page_eq_slot [of m m' p i] by (simp add: pte_at_def)

lemma pt_cong:
  assumes "pg_aligned p" "\<And>q. q \<in> pt_pages m n p \<Longrightarrow> page_eq m m' q"
  shows "pt_pages m' n p = pt_pages m n p \<and> pt_tree m' n p = pt_tree m n p \<and>
    pt_slot m' n p va = pt_slot m n p va"
  using assms
proof (induction n arbitrary: p)
  case 0
  then show ?case by simp
next
  case (Suc n)
  have e: "pte_at m' p i = pte_at m p i" if "i < 512" for i
    using Suc.prems that pt_root_in_pages by (intro pte_at_cong) auto
  have ih: "pt_pages m' n c = pt_pages m n c \<and> pt_tree m' n c = pt_tree m n c \<and>
      pt_slot m' n c va = pt_slot m n c va"
    if "i < 512" "pte_v (pte_at m p i)" "c = PTE2PA (pte_at m p i)" for i c
    using that Suc.prems(2) by (intro Suc.IH) auto
  have "pt_pages m' (Suc n) p = pt_pages m (Suc n) p"
    using e ih by auto
  moreover have "pt_tree m' (Suc n) p = pt_tree m (Suc n) p"
    using e ih by simp
  ultimately show ?case
    using e [OF PX_less] ih [OF PX_less] by (simp add: Let_def)
qed


definition same_idx :: "nat \<Rightarrow> u64 \<Rightarrow> u64 \<Rightarrow> bool" where
  "same_idx n va va' \<longleftrightarrow> (\<forall>l\<le>n. PX l va = PX l va')"

lemma same_idx_Suc: "same_idx (Suc n) va va' \<longleftrightarrow> PX (Suc n) va = PX (Suc n) va' \<and> same_idx n va va'"
  by (auto simp: same_idx_def le_Suc_eq)

lemma pt_slotE:
  assumes "pt_slot m n p va = Some a" "pg_aligned p"
  obtains q where "a = slot q (PX 0 va)" "q \<in> pt_pages m n p" "pg_aligned q"
proof -
  have "\<exists>q. a = slot q (PX 0 va) \<and> q \<in> pt_pages m n p"
    using assms
  proof (induction n arbitrary: p)
    case (Suc n)
    let ?v = "pte_at m p (PX (Suc n) va)"
    have v: "pte_v ?v" "pt_slot m n (PTE2PA ?v) va = Some a"
      using Suc.prems by (auto simp: Let_def split: if_splits)
    then obtain q where "a = slot q (PX 0 va)" "q \<in> pt_pages m n (PTE2PA ?v)"
      using Suc.IH [OF _ PTE2PA_aligned] by blast
    then show ?case using pt_pages_child [OF PX_less v(1)] by blast
  qed auto
  then show ?thesis using that pt_pages_aligned assms(2) by blast
qed

lemma pt_slot_same: "same_idx n va va' \<Longrightarrow> pt_slot m n p va = pt_slot m n p va'"
  by (induction n arbitrary: p) (auto simp: same_idx_Suc Let_def, simp add: same_idx_def)

lemma pt_slot_inj:
  assumes "pt_tree m n p" "pg_aligned p" "pt_slot m n p va = Some a" "pt_slot m n p va' = Some a"
  shows "same_idx n va va'"
  using assms
proof (induction n arbitrary: p)
  case 0
  then show ?case using slot_inj [OF _ _ PX_less PX_less, of p p 0 va 0 va'] by (simp add: same_idx_def)
next
  case (Suc n)
  let ?c = "\<lambda>va. PTE2PA (pte_at m p (PX (Suc n) va))"
  have c: "pte_v (pte_at m p (PX (Suc n) va))" "pt_slot m n (?c va) va = Some a"
      "pte_v (pte_at m p (PX (Suc n) va'))" "pt_slot m n (?c va') va' = Some a"
    using Suc.prems by (auto simp: Let_def split: if_splits)
  obtain q where q: "a = slot q (PX 0 va)" "q \<in> pt_pages m n (?c va)" "pg_aligned q"
    using c(2) PTE2PA_aligned by (rule pt_slotE)
  obtain q' where q': "a = slot q' (PX 0 va')" "q' \<in> pt_pages m n (?c va')" "pg_aligned q'"
    using c(4) PTE2PA_aligned by (rule pt_slotE)
  have "slot q (PX 0 va) = slot q' (PX 0 va')" using q(1) q'(1) by simp
  from slot_inj [OF q(3) q'(3) PX_less PX_less this] have "q = q'" by simp
  then have "PX (Suc n) va = PX (Suc n) va'"
    using Suc.prems(1) c q(2) q'(2) PX_less [of "Suc n"] unfolding pt_tree.simps by blast
  moreover have "same_idx n va va'"
    using Suc.IH [OF _ PTE2PA_aligned c(2)] c(4) Suc.prems(1) PX_less c(1) calculation by simp
  ultimately show ?case by (simp add: same_idx_Suc)
qed

lemma pt_store:
  assumes "pt_tree m n p" "pg_aligned p" "pt_slot m n p va = Some a"
  shows "pt_pages (st64 m a v) n p = pt_pages m n p \<and> pt_tree (st64 m a v) n p \<and>
    (\<forall>va'. pt_slot (st64 m a v) n p va' = pt_slot m n p va')"
  using assms
proof (induction n arbitrary: p)
  case 0
  then show ?case by simp
next
  case (Suc n)
  let ?m = "st64 m a v"
  let ?i = "PX (Suc n) va"
  let ?c = "\<lambda>i. PTE2PA (pte_at m p i)"
  have i: "?i < 512" "pte_v (pte_at m p ?i)" "pt_slot m n (?c ?i) va = Some a"
    using Suc.prems PX_less by (auto simp: Let_def split: if_splits)
  obtain q where q: "a = slot q (PX 0 va)" "q \<in> pt_pages m n (?c ?i)" "pg_aligned q"
    using i(3) PTE2PA_aligned by (rule pt_slotE)
  have eq: "page_eq m ?m r" if "r \<noteq> q" "pg_aligned r" for r
    unfolding q(1) using that q(3) PX_less by (intro page_eq_st64) auto
  have "p \<notin> pt_pages m n (?c ?i)" using Suc.prems(1) i by simp
  then have "p \<noteq> q" using q(2) by blast
  then have e: "pte_at ?m p j = pte_at m p j" if "j < 512" for j
    using eq [of p] Suc.prems(2) that pte_at_cong by blast
  have ch: "pt_pages ?m n (?c j) = pt_pages m n (?c j) \<and> pt_tree ?m n (?c j) \<and>
      (\<forall>va'. pt_slot ?m n (?c j) va' = pt_slot m n (?c j) va')"
    if j: "j < 512" "pte_v (pte_at m p j)" for j
  proof (cases "j = ?i")
    case True
    then show ?thesis using Suc.IH [OF _ PTE2PA_aligned i(3)] Suc.prems(1) i by simp
  next
    case False
    then have "pt_pages m n (?c j) \<inter> pt_pages m n (?c ?i) = {}"
      using Suc.prems(1) i(1,2) j unfolding pt_tree.simps by blast
    then have "page_eq m ?m r" if "r \<in> pt_pages m n (?c j)" for r
      using that q(2) eq [OF _ pt_pages_aligned [OF PTE2PA_aligned that]] by blast
    then show ?thesis
      using pt_cong [OF PTE2PA_aligned, of m n "pte_at m p j" ?m] Suc.prems(1) j by simp
  qed
  have "pt_pages ?m (Suc n) p = pt_pages m (Suc n) p" using e ch by auto
  moreover have "pt_tree ?m (Suc n) p" using Suc.prems(1) e ch by simp
  moreover have "pt_slot ?m (Suc n) p va' = pt_slot m (Suc n) p va'" for va'
    using e [OF PX_less] ch [OF PX_less] by (simp add: Let_def)
  ultimately show ?case by blast
qed

lemma pt_get_store:
  assumes "pt_tree m n p" "pg_aligned p" "pt_slot m n p va = Some a"
  shows "pt_get (st64 m a v) n p va' =
    (if same_idx n va va' then if pte_v v then Some v else None else pt_get m n p va')"
proof -
  note st = pt_store [OF assms, of v]
  show ?thesis
  proof (cases "same_idx n va va'")
    case True
    then have "pt_slot m n p va' = Some a" using pt_slot_same assms(3) by metis
    with True st show ?thesis by (simp add: pt_get_def)
  next
    case False
    show ?thesis
    proof (cases "pt_slot m n p va'")
      case None
      with False st show ?thesis by (simp add: pt_get_def)
    next
      case (Some b)
      with False have "a \<noteq> b" using pt_slot_inj [OF assms(1,2,3)] by metis
      moreover obtain q where q: "a = slot q (PX 0 va)" "pg_aligned q"
        using pt_slotE [OF assms(3,2)] by blast
      moreover obtain r where r: "b = slot r (PX 0 va')" "pg_aligned r"
        using pt_slotE [OF Some assms(2)] by blast
      ultimately have "\<not> (q = r \<and> PX 0 va = PX 0 va')" by auto
      then have "ld64 (st64 m a v) b = ld64 m b"
        unfolding q(1) r(1) by (subst ld64_st64_slot [OF q(2) r(2) PX_less PX_less]) auto
      with False Some st show ?thesis by (simp add: pt_get_def)
    qed
  qed
qed


lemma pt_get_0: "pt_get m 0 p va = (let v = pte_at m p (PX 0 va) in if pte_v v then Some v else None)"
  by (simp add: pt_get_def pte_at_def Let_def)

lemma pt_get_Suc: "pt_get m (Suc n) p va =
    (let v = pte_at m p (PX (Suc n) va) in if pte_v v then pt_get m n (PTE2PA v) va else None)"
  by (simp add: pt_get_def Let_def)

lemma pt_get_cong:
  assumes "pg_aligned p" "\<And>q. q \<in> pt_pages m n p \<Longrightarrow> page_eq m m' q"
  shows "pt_get m' n p va = pt_get m n p va"
proof (cases "pt_slot m n p va")
  case None
  then show ?thesis using pt_cong [where va = va, OF assms] by (simp add: pt_get_def)
next
  case (Some a)
  obtain q where q: "a = slot q (PX 0 va)" "q \<in> pt_pages m n p" "pg_aligned q"
    using pt_slotE [OF Some assms(1)] .
  have "ld64 m' a = ld64 m a"
    unfolding q(1) using page_eq_slot [OF assms(2) [OF q(2)] q(3) PX_less] by simp
  then show ?thesis using pt_cong [where va = va, OF assms] Some by (simp add: pt_get_def)
qed

lemma pte_v_0 [simp]: "\<not> pte_v 0"
  by (simp add: pte_v_def)

lemma pt_empty:
  assumes "\<And>j. j < 512 \<Longrightarrow> pte_at m c j = 0"
  shows "pt_tree m n c" "pt_pages m n c = {c}" "pt_get m n c va = None"
  using assms by (cases n; auto simp: pt_get_0 pt_get_Suc PX_less)+

text \<open>Linking a new empty table into a free entry.\<close>

lemma pt_link:
  assumes tree: "pt_tree m (Suc n) p" and p: "pg_aligned p" and i: "i < 512" "\<not> pte_v (pte_at m p i)"
    and c: "c \<notin> pt_pages m (Suc n) p"
    and rest: "\<And>q. q \<in> pt_pages m (Suc n) p \<Longrightarrow> q \<noteq> p \<Longrightarrow> page_eq m m' q"
    and same: "\<And>j. j < 512 \<Longrightarrow> j \<noteq> i \<Longrightarrow> pte_at m' p j = pte_at m p j"
    and link: "pte_v (pte_at m' p i)" "PTE2PA (pte_at m' p i) = c"
    and zero: "\<And>j. j < 512 \<Longrightarrow> pte_at m' c j = 0"
  shows "pt_tree m' (Suc n) p" "pt_pages m' (Suc n) p = insert c (pt_pages m (Suc n) p)"
    "\<And>va. pt_get m' (Suc n) p va = pt_get m (Suc n) p va"
proof -
  let ?c = "\<lambda>j. PTE2PA (pte_at m p j)"
  have eq: "page_eq m m' q" if "j < 512" "pte_v (pte_at m p j)" "q \<in> pt_pages m n (?c j)" for j q
  proof (rule rest)
    show "q \<in> pt_pages m (Suc n) p" using pt_pages_child that by blast
    have "p \<notin> pt_pages m n (?c j)" using tree that by simp
    then show "q \<noteq> p" using that by blast
  qed
  have old: "pt_pages m' n (?c j) = pt_pages m n (?c j) \<and> pt_tree m' n (?c j)"
    "pt_get m' n (?c j) va = pt_get m n (?c j) va"
    if j: "j < 512" "pte_v (pte_at m p j)" for j va
    using pt_cong [OF PTE2PA_aligned eq [OF j]] pt_get_cong [OF PTE2PA_aligned eq [OF j]] tree j
    by simp_all
  note new = pt_empty [of m' c, OF zero]
  have valid: "pte_v (pte_at m' p j) \<longleftrightarrow> j = i \<or> pte_v (pte_at m p j)" if "j < 512" for j
    using same [OF that] link by (cases "j = i") auto
  have cn: "c \<noteq> p" "\<And>j. j < 512 \<Longrightarrow> pte_v (pte_at m p j) \<Longrightarrow> c \<notin> pt_pages m n (?c j)"
    using c by auto
  show "pt_pages m' (Suc n) p = insert c (pt_pages m (Suc n) p)"
  proof -
    have "{j. j < 512 \<and> pte_v (pte_at m' p j)} = insert i {j. j < 512 \<and> pte_v (pte_at m p j)}"
      using valid i by auto
    moreover have "(\<Union>j\<in>{j. j < 512 \<and> pte_v (pte_at m p j)}. pt_pages m' n (PTE2PA (pte_at m' p j)))
        = (\<Union>j\<in>{j. j < 512 \<and> pte_v (pte_at m p j)}. pt_pages m n (?c j))"
    proof (rule SUP_cong)
      fix j assume "j \<in> {j. j < 512 \<and> pte_v (pte_at m p j)}"
      then show "pt_pages m' n (PTE2PA (pte_at m' p j)) = pt_pages m n (?c j)"
        using same [of j] old(1) [of j] i by (cases "j = i") simp_all
    qed simp
    ultimately show ?thesis using link new by auto
  qed
  have kid: "pt_pages m' n (PTE2PA (pte_at m' p j)) = (if j = i then {c} else pt_pages m n (?c j)) \<and>
      pt_tree m' n (PTE2PA (pte_at m' p j)) \<and> (j \<noteq> i \<longrightarrow> pte_v (pte_at m p j))"
    if "j < 512" "pte_v (pte_at m' p j)" for j
    using that same [of j] old(1) [of j] link new by (cases "j = i") simp_all
  have disj: "pt_pages m n (?c j) \<inter> pt_pages m n (?c k) = {}"
    if "j < 512" "k < 512" "j \<noteq> k" "pte_v (pte_at m p j)" "pte_v (pte_at m p k)" for j k
    using tree that unfolding pt_tree.simps by blast
  show "pt_tree m' (Suc n) p"
    unfolding pt_tree.simps
  proof (intro conjI allI impI)
    fix j assume j: "j < 512" "pte_v (pte_at m' p j)"
    show "pt_tree m' n (PTE2PA (pte_at m' p j))" using kid [OF j] by blast
    have "p \<notin> pt_pages m n (?c j)" if "pte_v (pte_at m p j)" using tree j that by simp
    then show "p \<notin> pt_pages m' n (PTE2PA (pte_at m' p j))"
      using kid [OF j] cn(1) by simp
  next
    fix j k :: nat
    assume jk: "j < 512" "k < 512" "j \<noteq> k" "pte_v (pte_at m' p j)" "pte_v (pte_at m' p k)"
    show "pt_pages m' n (PTE2PA (pte_at m' p j)) \<inter> pt_pages m' n (PTE2PA (pte_at m' p k)) = {}"
      using kid [OF jk(1,4)] kid [OF jk(2,5)] disj [OF jk(1,2,3)] cn(2) [OF jk(1)] cn(2) [OF jk(2)] jk(3)
      by (cases "j = i"; cases "k = i") simp_all
  qed
  show "pt_get m' (Suc n) p va = pt_get m (Suc n) p va" for va
    using same [OF PX_less, of "Suc n" va] old(2) [OF PX_less, of "Suc n" va va] link new(3) i
    by (cases "PX (Suc n) va = i") (simp_all add: pt_get_Suc Let_def)
qed


text \<open>A change confined to one child and to new pages \<open>N\<close>.\<close>

lemma pt_subtree_change:
  assumes tree: "pt_tree m (Suc n) p" and p: "pg_aligned p"
    and i: "i < 512" "pte_v (pte_at m p i)" "c = PTE2PA (pte_at m p i)"
    and out: "\<And>q. q \<in> pt_pages m (Suc n) p \<Longrightarrow> q \<notin> pt_pages m n c \<Longrightarrow> page_eq m m' q"
    and sub: "pt_tree m' n c" "pt_pages m' n c = pt_pages m n c \<union> N"
    and new: "N \<inter> pt_pages m (Suc n) p = {}"
  shows "pt_tree m' (Suc n) p" "pt_pages m' (Suc n) p = pt_pages m (Suc n) p \<union> N"
    "\<And>j. j < 512 \<Longrightarrow> pte_at m' p j = pte_at m p j"
    "(\<And>va. pt_get m' n c va = pt_get m n c va) \<Longrightarrow> pt_get m' (Suc n) p va = pt_get m (Suc n) p va"
proof -
  let ?c = "\<lambda>j. PTE2PA (pte_at m p j)"
  have pj: "p \<notin> pt_pages m n (?c j)" if "j < 512" "pte_v (pte_at m p j)" for j
    using tree that by simp
  show e: "pte_at m' p j = pte_at m p j" if "j < 512" for j
    using out [OF pt_root_in_pages] pj [OF i(1,2)] i(3) p that pte_at_cong by blast
  have sep: "pt_pages m n (?c j) \<inter> pt_pages m n (?c k) = {}"
    if "j < 512" "pte_v (pte_at m p j)" "k < 512" "pte_v (pte_at m p k)" "j \<noteq> k" for j k
    using tree that unfolding pt_tree.simps by blast
  have sub_p: "pt_pages m n (?c j) \<subseteq> pt_pages m (Suc n) p" if "j < 512" "pte_v (pte_at m p j)" for j
    using that by (rule pt_pages_child)
  have other: "pt_pages m' n (?c j) = pt_pages m n (?c j) \<and> pt_tree m' n (?c j) \<and>
      pt_get m' n (?c j) va = pt_get m n (?c j) va"
    if j: "j < 512" "pte_v (pte_at m p j)" "j \<noteq> i" for j va
  proof -
    have eq: "page_eq m m' q" if "q \<in> pt_pages m n (?c j)" for q
      using out [of q] sub_p [OF j(1,2)] sep [OF j(1,2) i(1,2) j(3)] that i(3) by blast
    show ?thesis
      using pt_cong [OF PTE2PA_aligned eq] pt_get_cong [OF PTE2PA_aligned eq] tree j by simp
  qed
  have kid: "pt_pages m' n (?c j) = pt_pages m n (?c j) \<union> (if j = i then N else {}) \<and> pt_tree m' n (?c j)"
    if "j < 512" "pte_v (pte_at m p j)" for j
    using sub other [OF that] i(3) by (cases "j = i") simp_all
  have "(\<Union>j\<in>{j. j < 512 \<and> pte_v (pte_at m' p j)}. pt_pages m' n (PTE2PA (pte_at m' p j))) =
      (\<Union>j\<in>{j. j < 512 \<and> pte_v (pte_at m p j)}. pt_pages m n (?c j) \<union> (if j = i then N else {}))"
    using e kid by (intro SUP_cong) auto
  then show "pt_pages m' (Suc n) p = pt_pages m (Suc n) p \<union> N"
    using i by (auto split: if_splits)
  show "pt_tree m' (Suc n) p"
    unfolding pt_tree.simps
  proof (intro conjI allI impI)
    fix j assume j: "j < 512" "pte_v (pte_at m' p j)"
    then have v: "pte_v (pte_at m p j)" using e by simp
    show "pt_tree m' n (PTE2PA (pte_at m' p j))" using kid [OF j(1) v] e [OF j(1)] by simp
    show "p \<notin> pt_pages m' n (PTE2PA (pte_at m' p j))"
      using kid [OF j(1) v] e [OF j(1)] pj [OF j(1) v] new by (simp split: if_splits)
  next
    fix j k :: nat
    assume jk: "j < 512" "k < 512" "j \<noteq> k" "pte_v (pte_at m' p j)" "pte_v (pte_at m' p k)"
    then have v: "pte_v (pte_at m p j)" "pte_v (pte_at m p k)" using e by simp_all
    show "pt_pages m' n (PTE2PA (pte_at m' p j)) \<inter> pt_pages m' n (PTE2PA (pte_at m' p k)) = {}"
      using kid [OF jk(1) v(1)] kid [OF jk(2) v(2)] e [OF jk(1)] e [OF jk(2)]
        sep [OF jk(1) v(1) jk(2) v(2) jk(3)] sub_p [OF jk(1) v(1)] sub_p [OF jk(2) v(2)] new jk(3)
      by (cases "j = i"; cases "k = i") auto
  qed
  show "pt_get m' (Suc n) p va = pt_get m (Suc n) p va" if "\<And>va. pt_get m' n c va = pt_get m n c va"
    using e [OF PX_less, of "Suc n" va] other [OF PX_less, of "Suc n" va va] that i
    by (cases "PX (Suc n) va = i") (simp_all add: pt_get_Suc Let_def)
qed

section \<open>Page tables and the allocator\<close>

lemma kalloc_inv_mem:
  assumes "kalloc_inv s F" "\<And>p. p \<in> F \<Longrightarrow> page_eq (mem s) m p"
  shows "kalloc_inv (s\<lparr>mem := m\<rparr>) F"
  using assms kalloc_rep_frame [where s' = "s\<lparr>mem := m\<rparr>"] unfolding kalloc_inv_def by fastforce

lemma valid_page_mem [simp]: "valid_page (s\<lparr>mem := m\<rparr>) = valid_page s"
  by (simp add: valid_page_def fun_eq_iff)

lemma page_refs_mem [simp]: "page_refs (s\<lparr>mem := m\<rparr>) = page_refs s"
  by (simp add: page_refs_def fun_eq_iff)

text \<open>
  A table together with the allocator: its pages form a tree, each is an allocated page with
  exactly one reference.
\<close>

definition pt_owned :: "'z kmem_scheme \<Rightarrow> nat \<Rightarrow> u64 \<Rightarrow> bool" where
  "pt_owned s n p \<longleftrightarrow> (\<forall>q\<in>pt_pages (mem s) n p. valid_page s q \<and> page_refs s q = 1)"

definition pt_inv :: "'z kmem_scheme \<Rightarrow> u64 set \<Rightarrow> nat \<Rightarrow> u64 \<Rightarrow> bool" where
  "pt_inv s F n p \<longleftrightarrow> kalloc_inv s F \<and> pt_tree (mem s) n p \<and> pt_owned s n p"

text \<open>The table may have taken the pages \<open>F - F'\<close>; every page outside the table is untouched.\<close>

definition pt_grow :: "'z kmem_scheme \<Rightarrow> u64 set \<Rightarrow> nat \<Rightarrow> u64 \<Rightarrow> 'z kmem_scheme \<Rightarrow> u64 set \<Rightarrow> bool" where
  "pt_grow s F n p s' F' \<longleftrightarrow> F' \<subseteq> F \<and> pt_inv s' F' n p \<and>
     pt_pages (mem s') n p = pt_pages (mem s) n p \<union> (F - F') \<and>
     valid_page s' = valid_page s \<and> kend s' = kend s \<and> tp s' = tp s \<and>
     (\<forall>q. valid_page s q \<longrightarrow> q \<notin> pt_pages (mem s') n p \<longrightarrow>
        page_refs s' q = page_refs s q \<and> page_eq (mem s) (mem s') q)"

lemma pt_inv_aligned: "pt_inv s F n p \<Longrightarrow> pg_aligned p"
  using pt_root_in_pages valid_page_aligned unfolding pt_inv_def pt_owned_def by blast

lemma pt_inv_owned:
  assumes "pt_inv s F n p" "q \<in> pt_pages (mem s) n p"
  shows "valid_page s q" "page_refs s q = 1" "q \<notin> F" "pg_aligned q" "q \<noteq> 0"
proof -
  show v: "valid_page s q" and r: "page_refs s q = 1"
    using assms by (auto simp: pt_inv_def pt_owned_def)
  have K: "kalloc_inv s F" using assms(1) by (simp add: pt_inv_def)
  show "q \<notin> F" using kalloc_inv_page [OF K, of q] r by auto
  show "pg_aligned q" using v by (rule valid_page_aligned)
  show "q \<noteq> 0" using kalloc_inv_KERNBASE [OF K] v by (auto simp: valid_page_def riscv_consts)
qed

lemma pt_grow_trans:
  assumes "pt_grow s F n p s1 F1" "pt_grow s1 F1 n p s2 F2"
  shows "pt_grow s F n p s2 F2"
proof -
  have "page_refs s2 q = page_refs s q \<and> page_eq (mem s) (mem s2) q"
    if "valid_page s q" "q \<notin> pt_pages (mem s2) n p" for q
  proof -
    have "page_refs s1 q = page_refs s q \<and> page_eq (mem s) (mem s1) q"
      using assms that unfolding pt_grow_def by blast
    moreover have "page_refs s2 q = page_refs s1 q \<and> page_eq (mem s1) (mem s2) q"
      using assms that unfolding pt_grow_def by metis
    ultimately show ?thesis using page_eq_trans by metis
  qed
  moreover have "pt_pages (mem s) n p \<union> (F - F1) \<union> (F1 - F2) = pt_pages (mem s) n p \<union> (F - F2)"
    using assms unfolding pt_grow_def by blast
  ultimately show ?thesis
    using assms unfolding pt_grow_def by auto
qed

lemma pt_grow_refl: "pt_inv s F n p \<Longrightarrow> pt_grow s F n p s F"
  by (simp add: pt_grow_def)

text \<open>What happens in one child happens in the table.\<close>

lemma pt_grow_child:
  assumes inv: "pt_inv s F (Suc n) p" and i: "i < 512" "pte_v (pte_at (mem s) p i)"
    and c: "c = PTE2PA (pte_at (mem s) p i)" and grow: "pt_grow s F n c s' F'"
  shows "pt_grow s F (Suc n) p s' F'" "pte_at (mem s') p i = pte_at (mem s) p i"
    "(\<And>va. pt_get (mem s') n c va = pt_get (mem s) n c va) \<Longrightarrow>
      pt_get (mem s') (Suc n) p va = pt_get (mem s) (Suc n) p va"
proof -
  let ?m = "mem s" and ?m' = "mem s'"
  have p: "pg_aligned p" using inv by (rule pt_inv_aligned)
  have tree: "pt_tree ?m (Suc n) p" using inv by (simp add: pt_inv_def)
  have g: "F' \<subseteq> F" "pt_inv s' F' n c" "pt_pages ?m' n c = pt_pages ?m n c \<union> (F - F')"
    "valid_page s' = valid_page s" "kend s' = kend s" "tp s' = tp s"
    using grow by (simp_all add: pt_grow_def)
  have out: "page_refs s' q = page_refs s q \<and> page_eq ?m ?m' q"
    if "valid_page s q" "q \<notin> pt_pages ?m' n c" for q
    using grow that unfolding pt_grow_def by blast
  have new: "(F - F') \<inter> pt_pages ?m (Suc n) p = {}" using pt_inv_owned(3) [OF inv] by blast
  have eq: "page_eq ?m ?m' q" if "q \<in> pt_pages ?m (Suc n) p" "q \<notin> pt_pages ?m n c" for q
    using out [OF pt_inv_owned(1) [OF inv that(1)]] that new g(3) by blast
  have tree': "pt_tree ?m' n c" using g(2) by (simp add: pt_inv_def)
  note sub = pt_subtree_change [OF tree p i c eq tree' g(3) new]
  show ei: "pte_at (mem s') p i = pte_at (mem s) p i" using sub(3) i by blast
  show "pt_get (mem s') (Suc n) p va = pt_get (mem s) (Suc n) p va"
    if "\<And>va. pt_get (mem s') n c va = pt_get (mem s) n c va"
    using sub(4) that by blast
  have "valid_page s' q \<and> page_refs s' q = 1" if q: "q \<in> pt_pages ?m' (Suc n) p" for q
  proof (cases "q \<in> pt_pages ?m' n c")
    case True
    then show ?thesis using pt_inv_owned [OF g(2)] by blast
  next
    case False
    then have "q \<in> pt_pages ?m (Suc n) p" using q sub(2) g(3) by blast
    then show ?thesis using pt_inv_owned [OF inv] out [of q] False g(4) by metis
  qed
  then have "pt_inv s' F' (Suc n) p"
    using g(2) sub(1) by (simp add: pt_inv_def pt_owned_def)
  moreover have "pt_pages ?m' n c \<subseteq> pt_pages ?m' (Suc n) p"
    using ei pt_pages_child [OF i(1), of ?m' p n] i(2) c by simp
  ultimately show "pt_grow s F (Suc n) p s' F'"
    using g sub(2) out unfolding pt_grow_def by blast
qed


lemma PTE2PA_link:
  assumes "valid_page s c"
  shows "PTE2PA (PA2PTE c OR PTE_V) = c" "pte_v (PA2PTE c OR PTE_V)"
proof -
  have "c < 2 ^ 54" using assms by (auto simp: valid_page_def riscv_consts word_less_nat_alt)
  then show "PTE2PA (PA2PTE c OR PTE_V) = c"
    using assms by (intro PTE2PA_PA2PTE) (auto simp: valid_page_def PTE_FLAGS_def riscv_consts)
  have "bit (PA2PTE c OR PTE_V) 0"
    by (simp add: bit_or_iff PTE_V_def bit_1_iff)
  then have "bit ((PA2PTE c OR PTE_V) AND PTE_V) 0"
    by (simp add: bit_and_iff PTE_V_def bit_1_iff)
  then show "pte_v (PA2PTE c OR PTE_V)" unfolding pte_v_def by (metis bit_0_eq bot_apply bot_bool_def)
qed

text \<open>Adding a page-table page.\<close>

lemma new_table_mem:
  assumes p: "pg_aligned p" and c: "pg_aligned c" "p \<noteq> c" and i: "i < 512"
    and m'_def: "m' = st64 (memset m c 0 4096) (slot p i) e"
  shows "j < 512 \<Longrightarrow> pte_at m' c j = 0" "pte_at m' p i = e"
    "j < 512 \<Longrightarrow> j \<noteq> i \<Longrightarrow> pte_at m' p j = pte_at m p j"
    "pg_aligned q \<Longrightarrow> q \<noteq> p \<Longrightarrow> q \<noteq> c \<Longrightarrow> page_eq m m' q"
proof -
  have e: "pte_at m' q j = (if q = p \<and> j = i then e else pte_at (memset m c 0 4096) q j)"
    if "j < 512" "pg_aligned q" for q j
    unfolding pte_at_def m'_def using ld64_st64_slot [OF p that(2) i that(1)] by auto
  show "pte_at m' p i = e" using e [OF i p] by simp
  show "pte_at m' c j = 0" if "j < 512"
    using e [OF that c(1)] ld64_memset_zero [OF c(1) that] c(2) by (simp add: pte_at_def)
  show "pte_at m' p j = pte_at m p j" if "j < 512" "j \<noteq> i"
    using e [OF that(1) p] pte_at_cong [OF memset_page_eq [OF c(1) p] p that(1)] c(2) that(2) by simp
  show "page_eq m m' q" if "pg_aligned q" "q \<noteq> p" "q \<noteq> c"
    unfolding m'_def
    using memset_page_eq [OF c(1) that(1)] page_eq_st64 [OF p that(1) _ i] that page_eq_trans by metis
qed

lemma pt_grow_link:
  assumes inv: "pt_inv s F (Suc n) p" and i: "i < 512" "\<not> pte_v (pte_at (mem s) p i)"
    and alloc: "kalloc s = Inr (c, s1)"
  defines "s2 \<equiv> s1\<lparr>mem := st64 (memset (mem s1) c 0 4096) (slot p i) (PA2PTE c OR PTE_V)\<rparr>"
  shows "pt_grow s F (Suc n) p s2 (F - {c})" "pt_inv s2 (F - {c}) n c"
    "pte_v (pte_at (mem s2) p i)" "PTE2PA (pte_at (mem s2) p i) = c"
    "\<And>va. pt_get (mem s2) (Suc n) p va = pt_get (mem s) (Suc n) p va"
proof -
  have K: "kalloc_inv s F" and tree: "pt_tree (mem s) (Suc n) p" using inv by (simp_all add: pt_inv_def)
  note al = kalloc_inv_alloc [OF K alloc]
  have c: "valid_page s c" "pg_aligned c" using kalloc_inv_page [OF K al(1)] valid_page_aligned by auto
  have cp: "c \<notin> pt_pages (mem s) (Suc n) p" using pt_inv_owned(3) [OF inv] al(1) by blast
  have p: "pg_aligned p" "valid_page s p" "p \<noteq> c" "p \<notin> F"
    using pt_inv_owned [OF inv pt_root_in_pages] cp pt_root_in_pages by blast+
  have m2: "mem s2 = st64 (memset (mem s1) c 0 4096) (slot p i) (PA2PTE c OR PTE_V)"
    by (simp add: s2_def)
  note nt = new_table_mem [OF p(1) c(2) p(3) i(1) m2]
  have eq: "page_eq (mem s) (mem s2) q" if "valid_page s q" "q \<noteq> c" "q \<noteq> p" for q
    using al(6) [OF that(1,2)] nt(4) [OF valid_page_aligned [OF that(1)]] that page_eq_trans by blast
  have same: "pte_at (mem s2) p j = pte_at (mem s) p j" if "j < 512" "j \<noteq> i" for j
    using nt(3) [OF that] pte_at_cong [OF _ p(1) that(1)] al(6) [OF p(2,3)] by simp
  show link: "pte_v (pte_at (mem s2) p i)" "PTE2PA (pte_at (mem s2) p i) = c"
    using nt(2) PTE2PA_link [OF c(1)] by simp_all
  have rest: "page_eq (mem s) (mem s2) q" if "q \<in> pt_pages (mem s) (Suc n) p" "q \<noteq> p" for q
    using eq [of q] pt_inv_owned(1) [OF inv that(1)] that cp by blast
  have lk: "pt_tree (mem s2) (Suc n) p" "pt_pages (mem s2) (Suc n) p = insert c (pt_pages (mem s) (Suc n) p)"
    "pt_get (mem s2) (Suc n) p va = pt_get (mem s) (Suc n) p va" for va
    using pt_link [OF tree p(1) i cp rest same link nt(1)] by blast+
  show "pt_get (mem s2) (Suc n) p va = pt_get (mem s) (Suc n) p va" for va by (rule lk(3))
  have vs: "valid_page s2 = valid_page s" "page_refs s2 = page_refs s1" "kend s2 = kend s" "tp s2 = tp s"
    using al by (simp_all add: s2_def)
  have "page_eq (mem s1) (mem s2) q" if "q \<in> F - {c}" for q
    using that nt(4) [of q] kalloc_inv_page [OF K, of q] valid_page_aligned p(4) by blast
  then have K2: "kalloc_inv s2 (F - {c})"
    using kalloc_inv_mem [OF al(2)] by (simp add: s2_def)
  show "pt_inv s2 (F - {c}) n c"
    using K2 pt_empty [of "mem s2" c n, OF nt(1)] c al(4) vs by (simp add: pt_inv_def pt_owned_def)
  have "page_refs s2 q = 1 \<and> valid_page s2 q" if "q \<in> pt_pages (mem s2) (Suc n) p" for q
    using that pt_inv_owned(1,2) [OF inv, of q] c(1) al(4) al(6) [of q] vs unfolding lk(2)
    by (cases "q = c") auto
  then have "pt_inv s2 (F - {c}) (Suc n) p" using K2 lk(1) by (simp add: pt_inv_def pt_owned_def)
  moreover have "F - (F - {c}) = {c}" using al(1) by blast
  ultimately show "pt_grow s F (Suc n) p s2 (F - {c})"
    using lk(2) vs al(6) eq unfolding pt_grow_def by auto
qed


section \<open>What walk does\<close>

lemma walk_loop_lookup:
  "walk_loop n p va False s = Inr (case pt_slot (mem s) n p va of None \<Rightarrow> 0 | Some a \<Rightarrow> a, s)"
  by (induction n arbitrary: p) (simp_all add: Let_def pte_at_def pte_v_def)

lemma pt_slot_nonzero:
  assumes "pt_inv s F n p" "pt_slot (mem s) n p va = Some a"
  shows "a \<noteq> 0"
proof -
  obtain q where q: "a = slot q (PX 0 va)" "q \<in> pt_pages (mem s) n p" "pg_aligned q"
    using pt_slotE [OF assms(2) pt_inv_aligned [OF assms(1)]] .
  have "unat a = unat q + 8 * PX 0 va" using unat_slot [OF q(3) PX_less, of 0] q(1) by simp
  moreover have "unat q \<noteq> 0" using pt_inv_owned(5) [OF assms(1) q(2)] by (simp add: unat_eq_zero)
  ultimately show ?thesis by auto
qed

lemma walk_loop_alloc:
  assumes "pt_inv s F n p" "walk_loop n p va True s = Inr (pte, s')"
  shows "\<exists>F'. pt_grow s F n p s' F' \<and> card (F - F') \<le> n \<and> pt_slot (mem s') n p va = Some pte \<and>
    (\<forall>va'. pt_get (mem s') n p va' = pt_get (mem s) n p va')"
  using assms
proof (induction n arbitrary: p s F)
  case 0
  then show ?case using pt_grow_refl [OF 0(1)] by auto
next
  case (Suc n)
  let ?i = "PX (Suc n) va"
  let ?v = "pte_at (mem s) p ?i"
  show ?case
  proof (cases "pte_v ?v")
    case True
    let ?c = "PTE2PA ?v"
    have "walk_loop n ?c va True s = Inr (pte, s')"
      using Suc.prems(2) True by (simp add: Let_def pte_at_def pte_v_def)
    moreover have "pt_inv s F n ?c"
      using Suc.prems(1) True pt_pages_child [OF PX_less True] PX_less [of "Suc n" va]
      by (auto simp: pt_inv_def pt_owned_def)
    ultimately obtain F' where F': "pt_grow s F n ?c s' F'" "pt_slot (mem s') n ?c va = Some pte"
        "\<And>va'. pt_get (mem s') n ?c va' = pt_get (mem s) n ?c va'" "card (F - F') \<le> n"
      using Suc.IH by blast
    from pt_grow_child [OF Suc.prems(1) PX_less True refl F'(1)] F'(2,3,4) True
    show ?thesis by (auto simp: Let_def intro!: exI [of _ F'])
  next
    case False
    then obtain c s1 where c: "kalloc s = Inr (c, s1)"
      using Suc.prems(2) by (auto simp: Let_def pte_at_def pte_v_def kres_simps split: if_splits)
    have K: "kalloc_inv s F" using Suc.prems(1) by (simp add: pt_inv_def)
    define s2 where "s2 = s1\<lparr>mem := st64 (memset (mem s1) c 0 4096) (slot p ?i) (PA2PTE c OR PTE_V)\<rparr>"
    note lk = pt_grow_link [OF Suc.prems(1) PX_less False c, folded s2_def]
    have "walk_loop n c va True s2 = Inr (pte, s')"
      using Suc.prems(2) False c kalloc_inv_alloc(5) [OF K c]
      by (simp add: Let_def pte_at_def pte_v_def s2_def)
    then obtain F' where F': "pt_grow s2 (F - {c}) n c s' F'" "pt_slot (mem s') n c va = Some pte"
        "\<And>va'. pt_get (mem s') n c va' = pt_get (mem s2) n c va'" "card (F - {c} - F') \<le> n"
      using Suc.IH [OF lk(2)] by blast
    have "card (F - F') \<le> card (insert c (F - {c} - F'))"
      using kalloc_inv_finite [OF K] by (intro card_mono) auto
    then have taken: "card (F - F') \<le> Suc n"
      using F'(4) kalloc_inv_finite [OF K] by (simp add: card_insert_if split: if_splits)
    have inv2: "pt_inv s2 (F - {c}) (Suc n) p" using lk(1) by (simp add: pt_grow_def)
    note ch = pt_grow_child [OF inv2 PX_less lk(3) lk(4) [symmetric] F'(1)]
    have "pt_slot (mem s') (Suc n) p va = Some pte"
      using ch(2) lk(3,4) F'(2) by (simp add: Let_def)
    moreover have "pt_get (mem s') (Suc n) p va' = pt_get (mem s) (Suc n) p va'" for va'
      using ch(3) [OF F'(3)] lk(5) by simp
    ultimately show ?thesis using pt_grow_trans [OF lk(1) ch(1)] taken by blast
  qed
qed

lemma walk_loop_total:
  assumes "pt_inv s F n p" "n \<le> card F"
  shows "\<exists>pte s'. walk_loop n p va True s = Inr (pte, s')"
  using assms
proof (induction n arbitrary: p s F)
  case (Suc n)
  let ?v = "pte_at (mem s) p (PX (Suc n) va)"
  have K: "kalloc_inv s F" using Suc.prems(1) by (simp add: pt_inv_def)
  show ?case
  proof (cases "pte_v ?v")
    case True
    have "pt_inv s F n (PTE2PA ?v)"
      using Suc.prems(1) True pt_pages_child [OF PX_less True] PX_less [of "Suc n" va]
      by (auto simp: pt_inv_def pt_owned_def)
    then show ?thesis
      using Suc.IH [of s F "PTE2PA ?v"] Suc.prems(2) True by (simp add: Let_def pte_at_def pte_v_def)
  next
    case False
    obtain c s1 where c: "kalloc s = Inr (c, s1)"
      using kalloc_inv_total [OF K] Suc.prems(2) by fastforce
    note al = kalloc_inv_alloc [OF K c]
    note lk = pt_grow_link [OF Suc.prems(1) PX_less False c]
    have "n \<le> card (F - {c})" using Suc.prems(2) al(1) kalloc_inv_finite [OF K] by simp
    with Suc.IH [OF lk(2)] show ?thesis
      using False c al(5) by (simp add: Let_def pte_at_def pte_v_def)
  qed
qed simp


lemma pt_grow_store:
  assumes inv: "pt_inv s F n p" and slot: "pt_slot (mem s) n p va = Some a"
  shows "pt_grow s F n p (s\<lparr>mem := st64 (mem s) a v\<rparr>) F"
proof -
  let ?s = "s\<lparr>mem := st64 (mem s) a v\<rparr>"
  have p: "pg_aligned p" using inv by (rule pt_inv_aligned)
  have K: "kalloc_inv s F" and tree: "pt_tree (mem s) n p" using inv by (simp_all add: pt_inv_def)
  note st = pt_store [OF tree p slot, of v]
  obtain q where q: "a = slot q (PX 0 va)" "q \<in> pt_pages (mem s) n p" "pg_aligned q"
    using pt_slotE [OF slot p] .
  have eq: "page_eq (mem s) (st64 (mem s) a v) r" if "valid_page s r" "r \<notin> pt_pages (mem s) n p" for r
    unfolding q(1) using q that valid_page_aligned PX_less by (intro page_eq_st64) auto
  have "page_eq (mem s) (st64 (mem s) a v) r" if "r \<in> F" for r
    using that eq kalloc_inv_page [OF K] pt_inv_owned(3) [OF inv] by blast
  then have "kalloc_inv ?s F" by (rule kalloc_inv_mem [OF K])
  then have "pt_inv ?s F n p"
    using st inv by (simp add: pt_inv_def pt_owned_def)
  then show ?thesis using st eq by (simp add: pt_grow_def)
qed

lemma same_idx_page:
  assumes "va < MAXVA" "va' < MAXVA"
  shows "same_idx 2 va va' \<longleftrightarrow> PGROUNDDOWN va = PGROUNDDOWN va'"
proof
  assume "same_idx 2 va va'"
  then show "PGROUNDDOWN va = PGROUNDDOWN va'"
    using PX_inj [OF assms] by (simp add: same_idx_def)
next
  assume "PGROUNDDOWN va = PGROUNDDOWN va'"
  then show "same_idx 2 va va'"
    unfolding same_idx_def by (metis PX_PGROUNDDOWN)
qed

text \<open>The map from virtual addresses below \<^verbatim>\<open>MAXVA\<close> to valid entries that a root table stands for.\<close>

definition pt_map :: "'z kmem_scheme \<Rightarrow> u64 \<Rightarrow> u64 \<Rightarrow> u64 option" where
  "pt_map s pagetable va = pt_get (mem s) 2 pagetable va"

lemma walk_lookup:
  "va < MAXVA \<Longrightarrow> walk pt va False s =
     Inr (case pt_slot (mem s) 2 pt va of None \<Rightarrow> 0 | Some a \<Rightarrow> a, s)"
  by (auto simp: walk_def walk_loop_lookup panic_if_def)

lemma walk_lookup_map:
  assumes "pt_inv s F 2 pt" "va < MAXVA"
  obtains pte where "walk pt va False s = Inr (pte, s)"
    "pt_map s pt va = (if pte \<noteq> 0 \<and> pte_v (ld64 (mem s) pte) then Some (ld64 (mem s) pte) else None)"
    "pte \<noteq> 0 \<Longrightarrow> pt_slot (mem s) 2 pt va = Some pte"
proof (cases "pt_slot (mem s) 2 pt va")
  case None
  then show ?thesis using that [of 0] walk_lookup [OF assms(2), of pt s] by (simp add: pt_map_def pt_get_def)
next
  case (Some a)
  then show ?thesis
    using that [of a] walk_lookup [OF assms(2), of pt s] pt_slot_nonzero [OF assms(1) Some]
    by (simp add: pt_map_def pt_get_def)
qed

lemma walk_alloc_map:
  assumes "pt_inv s F 2 pt" "walk pt va True s = Inr (pte, s')"
  obtains F' where "pt_grow s F 2 pt s' F'" "card (F - F') \<le> 2"
    "pt_slot (mem s') 2 pt va = Some pte" "pte \<noteq> 0" "pt_map s' pt = pt_map s pt" "va < MAXVA"
    "pt_map s pt va = (if pte_v (ld64 (mem s') pte) then Some (ld64 (mem s') pte) else None)"
proof -
  have va: "va < MAXVA" and w: "walk_loop 2 pt va True s = Inr (pte, s')"
    using assms(2) by (auto simp: walk_def kres_simps)
  obtain F' where F': "pt_grow s F 2 pt s' F'" "pt_slot (mem s') 2 pt va = Some pte"
      "\<And>va'. pt_get (mem s') 2 pt va' = pt_get (mem s) 2 pt va'" "card (F - F') \<le> 2"
    using walk_loop_alloc [OF assms(1) w] by blast
  have inv': "pt_inv s' F' 2 pt" using F'(1) by (simp add: pt_grow_def)
  have same: "pt_map s' pt = pt_map s pt" using F'(3) by (simp add: pt_map_def fun_eq_iff)
  have "pt_map s' pt va = (if pte_v (ld64 (mem s') pte) then Some (ld64 (mem s') pte) else None)"
    using F'(2) by (simp add: pt_map_def pt_get_def)
  then show ?thesis
    using that [OF F'(1,4,2) pt_slot_nonzero [OF inv' F'(2)] same va] same by simp
qed

lemma pt_map_store:
  assumes "pt_inv s F 2 pt" "pt_slot (mem s) 2 pt va = Some a" "va < MAXVA" "va' < MAXVA"
  shows "pt_map (s\<lparr>mem := st64 (mem s) a v\<rparr>) pt va' =
    (if PGROUNDDOWN va = PGROUNDDOWN va' then if pte_v v then Some v else None else pt_map s pt va')"
  using pt_get_store [OF _ pt_inv_aligned [OF assms(1)] assms(2)] assms(1) same_idx_page [OF assms(3,4)]
  by (simp add: pt_map_def pt_inv_def)

end
