(* ===== verification/Vm.thy ===== *)
theory Vm
  imports Pagetable
begin

text \<open>
  User address spaces, the rest of \<^verbatim>\<open>kernel/vm.c\<close>: growing and shrinking them, copying them on
  \<^verbatim>\<open>fork\<close> with copy-on-write, lazy allocation on a fault, and copies between the kernel and
  user memory. \<^verbatim>\<open>myproc()\<close> enters as the size and the page table of the running process.
\<close>

unbundle bit_operations_syntax

section \<open>Operations\<close>

lemma mappages_bound: "mappages pt a sz pa perm s = Inr x \<Longrightarrow> unat a < 2 ^ 38"
  by (auto simp: mappages_def mappages_loop.simps [of pt a] kres_simps dest!: walk_bound)

text \<open>The count of pages goes through an \<^verbatim>\<open>int\<close>.\<close>

definition uvmdealloc :: "u64 \<Rightarrow> u64 \<Rightarrow> u64 \<Rightarrow> 'z kmem_scheme \<Rightarrow> (u64 \<times> 'z kmem_scheme) kres" where
  "uvmdealloc pagetable oldsz newsz s =
     (if newsz \<ge> oldsz then Inr (oldsz, s)
      else if PGROUNDUP newsz < PGROUNDUP oldsz then
        let npages = ucast ((PGROUNDUP oldsz - PGROUNDUP newsz) div PGSIZE) :: u32 in
        bnd (uvmunmap pagetable (PGROUNDUP newsz) (scast npages) True s) (\<lambda>s'. Inr (newsz, s'))
      else Inr (newsz, s))"

function uvmalloc_loop :: "u64 \<Rightarrow> u64 \<Rightarrow> u64 \<Rightarrow> u64 \<Rightarrow> u64 \<Rightarrow> 'z kmem_scheme \<Rightarrow> (u64 \<times> 'z kmem_scheme) kres" where
  "uvmalloc_loop pagetable oldsz newsz xperm a s =
     (if a < newsz then
        bnd (kalloc s) (\<lambda>(pg, s1).
        if pg = 0 then bnd (uvmdealloc pagetable a oldsz s1) (\<lambda>(_, s2). Inr (0, s2))
        else bnd (mappages pagetable a PGSIZE pg (PTE_R OR PTE_U OR xperm)
                   (s1\<lparr>mem := memset (mem s1) pg 0 4096\<rparr>)) (\<lambda>(r, s2).
          if r \<noteq> 0 then
            bnd (kfree pg s2) (\<lambda>s3.
            bnd (uvmdealloc pagetable a oldsz s3) (\<lambda>(_, s4). Inr (0, s4)))
          else uvmalloc_loop pagetable oldsz newsz xperm (a + PGSIZE) s2))
      else Inr (newsz, s))"
  by pat_completeness auto
termination
  by (relation "measure (\<lambda>(pt, oldsz, newsz, xperm, a, s). unat newsz - unat a)")
     (auto dest!: mappages_bound simp: unat_next_page word_less_nat_alt intro!: diff_less_mono2)

definition uvmalloc :: "u64 \<Rightarrow> u64 \<Rightarrow> u64 \<Rightarrow> u64 \<Rightarrow> 'z kmem_scheme \<Rightarrow> (u64 \<times> 'z kmem_scheme) kres" where
  "uvmalloc pagetable oldsz newsz xperm s =
     (if newsz < oldsz then Inr (oldsz, s)
      else uvmalloc_loop pagetable (PGROUNDUP oldsz) newsz xperm (PGROUNDUP oldsz) s)"

definition uvmfree :: "u64 \<Rightarrow> u64 \<Rightarrow> 'z kmem_scheme \<Rightarrow> 'z kmem_scheme kres" where
  "uvmfree pagetable sz s =
     bnd (if sz > 0 then uvmunmap pagetable 0 (PGROUNDUP sz div PGSIZE) True s else Inr s)
       (freewalk 3 pagetable)"

text \<open>A writable entry of the parent loses \<^verbatim>\<open>PTE_W\<close> and gains \<^verbatim>\<open>PTE_COW\<close>.\<close>

definition cow_mark :: "u64 \<Rightarrow> 'z kmem_scheme \<Rightarrow> 'z kmem_scheme" where
  "cow_mark pte s =
     (if PTE_FLAGS (ld64 (mem s) pte) AND PTE_W \<noteq> 0 then
        let m1 = st64 (mem s) pte (ld64 (mem s) pte AND NOT PTE_W) in
        s\<lparr>mem := st64 m1 pte (ld64 m1 pte OR PTE_COW)\<rparr>
      else s)"

function uvmcopy_loop :: "u64 \<Rightarrow> u64 \<Rightarrow> u64 \<Rightarrow> u64 \<Rightarrow> 'z kmem_scheme \<Rightarrow> (int \<times> 'z kmem_scheme) kres" where
  "uvmcopy_loop old new sz i s =
     (if i < sz then
        bnd (walk old i False s) (\<lambda>(pte, s0).
        if pte = 0 then uvmcopy_loop old new sz (i + PGSIZE) s0
        else let v = ld64 (mem s0) pte in
          if v AND PTE_V = 0 then uvmcopy_loop old new sz (i + PGSIZE) s0
          else let pa = PTE2PA v; s1 = cow_mark pte s0 in
            bnd (mappages new i PGSIZE pa (PTE_FLAGS (ld64 (mem s1) pte)) s1) (\<lambda>(r, s2).
            if r \<noteq> 0 then bnd (uvmunmap new 0 (i div PGSIZE) True s2) (\<lambda>s3. Inr (-1, s3))
            else bnd (kaddref pa s2) (\<lambda>s3. uvmcopy_loop old new sz (i + PGSIZE) s3)))
      else Inr (0, s))"
  by pat_completeness auto
termination
  by (relation "measure (\<lambda>(old, new, sz, i, s). unat sz - unat i)")
     (auto dest!: walk_bound simp: unat_next_page word_less_nat_alt intro!: diff_less_mono2)

definition uvmcopy :: "u64 \<Rightarrow> u64 \<Rightarrow> u64 \<Rightarrow> 'z kmem_scheme \<Rightarrow> (int \<times> 'z kmem_scheme) kres" where
  "uvmcopy old new sz s = uvmcopy_loop old new sz 0 s"

definition vmfault :: "u64 \<Rightarrow> u64 \<Rightarrow> u64 \<Rightarrow> u64 \<Rightarrow> 'z kmem_scheme \<Rightarrow> (u64 \<times> 'z kmem_scheme) kres" where
  "vmfault p_sz p_pagetable pagetable va s =
     (if va \<ge> p_sz then Inr (0, s)
      else let va = PGROUNDDOWN va in
        bnd (ismapped pagetable va s) (\<lambda>b.
        if b then Inr (0, s)
        else bnd (kalloc s) (\<lambda>(pg, s1).
          if pg = 0 then Inr (0, s1)
          else bnd (mappages p_pagetable va PGSIZE pg (PTE_W OR PTE_U OR PTE_R)
                     (s1\<lparr>mem := memset (mem s1) pg 0 4096\<rparr>)) (\<lambda>(r, s2).
            if r \<noteq> 0 then bnd (kfree pg s2) (\<lambda>s3. Inr (0, s3)) else Inr (pg, s2)))))"

definition page_room :: "u64 \<Rightarrow> u64 \<Rightarrow> u64" where
  "page_room va len = (let n = PGSIZE - (va - PGROUNDDOWN va) in if n > len then len else n)"

lemma unat_page_room:
  "unat (page_room va len) = min (4096 - unat va mod 4096) (unat len)"
proof -
  have "unat (va - PGROUNDDOWN va) = unat va mod 4096"
    by (simp add: unat_sub_if' unat_PGROUNDDOWN minus_mult_div_eq_mod)
  then have "unat (PGSIZE - (va - PGROUNDDOWN va)) = 4096 - unat va mod 4096"
    by (simp add: unat_sub_if' PGSIZE_def)
  then show ?thesis
    by (auto simp: page_room_def Let_def word_less_nat_alt min_def)
qed

function copyout :: "u64 \<Rightarrow> u64 \<Rightarrow> u64 \<Rightarrow> u64 \<Rightarrow> u64 \<Rightarrow> u64 \<Rightarrow> 'z kmem_scheme \<Rightarrow> (int \<times> 'z kmem_scheme) kres" where
  "copyout p_sz p_pagetable pagetable dstva src len s =
     (if len > 0 then
        let va0 = PGROUNDDOWN dstva in
        if va0 \<ge> MAXVA then Inr (-1, s)
        else bnd (walkaddr pagetable va0 s) (\<lambda>a.
          bnd (if a = 0 then vmfault p_sz p_pagetable pagetable va0 s else Inr (a, s)) (\<lambda>(pa0, s1).
          if pa0 = 0 then Inr (-1, s1)
          else bnd (walk pagetable va0 False s1) (\<lambda>(pte, s2).
            bnd (ld_pte pte s2) (\<lambda>v.
            if v AND PTE_W = 0 then Inr (-1, s2)
            else let n = page_room dstva len in
              copyout p_sz p_pagetable pagetable (va0 + PGSIZE) (src + n) (len - n)
                (s2\<lparr>mem := memmove (mem s2) (pa0 + (dstva - va0)) src (ucast n)\<rparr>)))))
      else Inr (0, s))"
  by pat_completeness auto
termination
  by (relation "measure (\<lambda>(psz, ppt, pt, dstva, src, len, s). unat len)")
     (auto simp: unat_sub_if' unat_page_room word_less_nat_alt)

text \<open>The inner loop of \<^verbatim>\<open>copyinstr\<close>: whether a NUL was copied, the remaining bound and the cursors.\<close>

primrec copyinstr_page :: "nat \<Rightarrow> u64 \<Rightarrow> u64 \<Rightarrow> u64 \<Rightarrow> memory \<Rightarrow> bool \<times> u64 \<times> u64 \<times> memory" where
  "copyinstr_page 0 mx p dst m = (False, mx, dst, m)"
| "copyinstr_page (Suc n) mx p dst m =
     (if m p = 0 then (True, mx, dst, m(dst := 0))
      else copyinstr_page n (mx - 1) (p + 1) (dst + 1) (m(dst := m p)))"

lemma copyinstr_page_bound:
  "copyinstr_page n mx p dst m = (False, mx', dst', m') \<Longrightarrow> n \<le> unat mx \<Longrightarrow> unat mx' = unat mx - n"
proof (induction n arbitrary: mx p dst m)
  case (Suc n)
  then have "unat (mx - 1) = unat mx - 1" by (intro unat_minus_one) auto
  with Suc show ?case by (auto split: if_splits)
qed simp

function copyinstr :: "u64 \<Rightarrow> u64 \<Rightarrow> u64 \<Rightarrow> u64 \<Rightarrow> 'z kmem_scheme \<Rightarrow> (int \<times> 'z kmem_scheme) kres" where
  "copyinstr pagetable dst srcva mx s =
     (if mx > 0 then
        let va0 = PGROUNDDOWN srcva in
        bnd (walkaddr pagetable va0 s) (\<lambda>pa0.
        if pa0 = 0 then Inr (-1, s)
        else (case copyinstr_page (unat (page_room srcva mx)) mx (pa0 + (srcva - va0)) dst (mem s) of
            (True, mx', dst', m') \<Rightarrow> Inr (0, s\<lparr>mem := m'\<rparr>)
          | (False, mx', dst', m') \<Rightarrow> copyinstr pagetable dst' (va0 + PGSIZE) mx' (s\<lparr>mem := m'\<rparr>)))
      else Inr (-1, s))"
  by pat_completeness auto
termination
  by (relation "measure (\<lambda>(pt, dst, srcva, mx, s). unat mx)")
     (auto dest!: copyinstr_page_bound [OF sym] simp: unat_page_room word_less_nat_alt)

declare uvmalloc_loop.simps [simp del] uvmcopy_loop.simps [simp del] copyout.simps [simp del]
  copyinstr.simps [simp del]


section \<open>mappages\<close>

lemma pt_grow_inv: "pt_grow s F n p s' F' \<Longrightarrow> pt_inv s' F' n p"
  by (simp add: pt_grow_def)

lemma pt_grow_card:
  assumes "pt_grow s F n p s' F'" "pt_inv s F n p" "card (F - F') \<le> k"
  shows "card F \<le> card F' + k"
proof -
  have "finite F" using assms(2) kalloc_inv_finite by (auto simp: pt_inv_def)
  moreover have "F' \<subseteq> F" using assms(1) by (simp add: pt_grow_def)
  ultimately show ?thesis using assms(3) by (simp add: card_Diff_subset finite_subset)
qed

lemma pte_v_or: "pte_v (x OR y OR PTE_V)"
proof -
  have "bit ((x OR y OR PTE_V) AND PTE_V) 0"
    by (simp add: bit_simps PTE_V_def)
  then show ?thesis unfolding pte_v_def by (metis bit_0_eq bot_apply bot_bool_def)
qed

text \<open>One round of the loop of \<^verbatim>\<open>mappages\<close>.\<close>

lemma mappages_round:
  fixes pa perm :: u64
  assumes "pt_inv s F 2 pt" "walk pt a True s = Inr (pte, s1)" "pt_map s pt a = None"
  defines "v \<equiv> PA2PTE pa OR perm OR PTE_V"
  defines "s2 \<equiv> s1\<lparr>mem := st64 (mem s1) pte v\<rparr>"
  obtains F' where "pt_grow s F 2 pt s2 F'" "card (F - F') \<le> 2"
    "\<And>va. va < MAXVA \<Longrightarrow> pt_map s2 pt va = (if PGROUNDDOWN va = PGROUNDDOWN a then Some v else pt_map s pt va)"
proof -
  obtain F' where F': "pt_grow s F 2 pt s1 F'" "card (F - F') \<le> 2"
      "pt_slot (mem s1) 2 pt a = Some pte" "pte \<noteq> 0" "pt_map s1 pt = pt_map s pt" "a < MAXVA"
    using walk_alloc_map [OF assms(1,2)] by metis
  note inv1 = pt_grow_inv [OF F'(1)]
  have "pt_grow s1 F' 2 pt s2 F'"
    unfolding s2_def using pt_grow_store [OF inv1 F'(3)] .
  then have "pt_grow s F 2 pt s2 F'" using F'(1) pt_grow_trans by blast
  moreover have "pt_map s2 pt va = (if PGROUNDDOWN va = PGROUNDDOWN a then Some v else pt_map s pt va)"
    if "va < MAXVA" for va
    using pt_map_store [OF inv1 F'(3,6) that, of v] pte_v_or F'(5) by (auto simp: s2_def v_def)
  ultimately show ?thesis using that F'(2) by blast
qed

lemma mappages_loop_unfold:
  assumes "pt_inv s F 2 pt"
  shows "mappages_loop pt a last_a pa perm s =
    bnd (walk pt a True s) (\<lambda>(pte, s1).
      if pt_map s pt a \<noteq> None then Inl (Panic ''mappages: remap'')
      else let s2 = s1\<lparr>mem := st64 (mem s1) pte (PA2PTE pa OR perm OR PTE_V)\<rparr> in
        if a = last_a then Inr (0, s2)
        else mappages_loop pt (a + PGSIZE) last_a (pa + PGSIZE) perm s2)"
proof (cases "walk pt a True s")
  case (Inl e)
  then show ?thesis by (subst mappages_loop.simps) simp
next
  case (Inr x)
  then obtain pte s1 where x: "walk pt a True s = Inr (pte, s1)" by (cases x) auto
  obtain F' where F': "pt_grow s F 2 pt s1 F'" "pt_slot (mem s1) 2 pt a = Some pte" "pte \<noteq> 0"
      "pt_map s pt a = (if pte_v (ld64 (mem s1) pte) then Some (ld64 (mem s1) pte) else None)"
    using walk_alloc_map [OF assms x] by metis
  then have "pt_map s pt a \<noteq> None \<longleftrightarrow> ld64 (mem s1) pte AND PTE_V \<noteq> 0" by (simp add: pte_v_def)
  then show ?thesis
    using F'(3) x by (subst mappages_loop.simps) (simp add: panic_if_def)
qed

text \<open>Page \<open>a\<close> to page \<open>last_a\<close>, as a condition on an address.\<close>

definition in_range :: "u64 \<Rightarrow> u64 \<Rightarrow> u64 \<Rightarrow> bool" where
  "in_range a last_a va \<longleftrightarrow> a \<le> PGROUNDDOWN va \<and> PGROUNDDOWN va \<le> last_a"

lemma in_range_step:
  assumes "pg_aligned a" "pg_aligned last_a" "a \<le> last_a" "a \<noteq> last_a" "unat a < 2 ^ 38"
  shows "in_range a last_a va \<longleftrightarrow> PGROUNDDOWN va = a \<or> in_range (a + PGSIZE) last_a va"
    "a + PGSIZE \<le> last_a" "pg_aligned (a + PGSIZE)" "\<not> in_range (a + PGSIZE) last_a a"
proof -
  obtain k l where k: "unat a = 4096 * k" and l: "unat last_a = 4096 * l"
    using assms(1,2) by (metis pg_alignedE)
  define r where "r = unat va div 4096"
  have r: "unat (PGROUNDDOWN va) = 4096 * r" by (simp add: unat_PGROUNDDOWN r_def)
  have n: "unat (a + PGSIZE) = 4096 * (k + 1)" using unat_next_page [OF assms(5)] k by simp
  have "k < l" using assms(3,4) k l by (auto simp: word_le_nat_alt word_unat_eq_iff)
  then show "a + PGSIZE \<le> last_a" using n l by (simp add: word_le_nat_alt)
  show "pg_aligned (a + PGSIZE)" using n by (simp add: pg_aligned_unat)
  show "in_range a last_a va \<longleftrightarrow> PGROUNDDOWN va = a \<or> in_range (a + PGSIZE) last_a va"
    using k l n r \<open>k < l\<close> by (auto simp: in_range_def word_le_nat_alt word_unat_eq_iff)
  show "\<not> in_range (a + PGSIZE) last_a a"
    using k n PGROUNDDOWN_id [OF assms(1)] by (simp add: in_range_def word_le_nat_alt)
qed


lemma in_range_self: "pg_aligned a \<Longrightarrow> in_range a a va \<longleftrightarrow> PGROUNDDOWN va = a"
  by (auto simp: in_range_def)

lemma pt_map_PGROUNDDOWN [simp]: "pt_map s pt (PGROUNDDOWN va) = pt_map s pt va"
proof -
  have "pt_slot (mem s) 2 pt (PGROUNDDOWN va) = pt_slot (mem s) 2 pt va"
    by (rule pt_slot_same) (simp add: same_idx_def)
  then show ?thesis by (simp add: pt_map_def pt_get_def)
qed

text \<open>The pages of the range were not mapped before and are mapped in order to \<open>pa\<close> and following.\<close>

definition range_mapped :: "u64 \<Rightarrow> u64 \<Rightarrow> u64 \<Rightarrow> u64 \<Rightarrow> u64 \<Rightarrow> 'z kmem_scheme \<Rightarrow> 'z kmem_scheme \<Rightarrow> bool" where
  "range_mapped pt a last_a pa perm s s' \<longleftrightarrow>
     (\<forall>va<MAXVA. (in_range a last_a va \<longrightarrow> pt_map s pt va = None) \<and> pt_map s' pt va =
        (if in_range a last_a va then Some (PA2PTE (pa + (PGROUNDDOWN va - a)) OR perm OR PTE_V)
         else pt_map s pt va))"

lemma card_taken_trans:
  assumes "finite F" "F1 \<subseteq> F" "card (F - F1) \<le> j" "card (F1 - F2) \<le> k"
  shows "card (F - F2) \<le> j + k"
proof -
  have "card (F - F2) \<le> card ((F - F1) \<union> (F1 - F2))"
    using assms(1,2) by (intro card_mono) (auto intro: finite_subset)
  also have "\<dots> \<le> card (F - F1) + card (F1 - F2)" by (rule card_Un_le)
  finally show ?thesis using assms(3,4) by linarith
qed

lemma range_mapped_step:
  assumes range: "\<And>va. in_range a last_a va \<longleftrightarrow> PGROUNDDOWN va = a \<or> in_range (a + PGSIZE) last_a va"
      "\<not> in_range (a + PGSIZE) last_a a"
    and a: "pg_aligned a" "pt_map s pt a = None"
    and first: "\<And>va. va < MAXVA \<Longrightarrow> pt_map s2 pt va =
        (if PGROUNDDOWN va = PGROUNDDOWN a then Some (PA2PTE pa OR perm OR PTE_V) else pt_map s pt va)"
    and rest: "range_mapped pt (a + PGSIZE) last_a (pa + PGSIZE) perm s2 s'"
  shows "range_mapped pt a last_a pa perm s s'"
  unfolding range_mapped_def
proof (intro allI impI conjI)
  fix va assume va: "va < MAXVA"
  have same: "pt_map s pt va = None" if "PGROUNDDOWN va = a"
    using a(2) that pt_map_PGROUNDDOWN by metis
  have ah: "PGROUNDDOWN a = a" using PGROUNDDOWN_id [OF a(1)] .
  have not_both: "\<not> in_range (a + PGSIZE) last_a va" if "PGROUNDDOWN va = a"
    using range(2) that ah by (simp add: in_range_def)
  have r: "(in_range (a + PGSIZE) last_a va \<longrightarrow> pt_map s2 pt va = None) \<and> pt_map s' pt va =
      (if in_range (a + PGSIZE) last_a va
       then Some (PA2PTE (pa + PGSIZE + (PGROUNDDOWN va - (a + PGSIZE))) OR perm OR PTE_V)
       else pt_map s2 pt va)"
    using rest va by (simp add: range_mapped_def)
  show "pt_map s pt va = None" if "in_range a last_a va"
    using that r same first [OF va] range(1) ah by (auto split: if_splits)
  show "pt_map s' pt va = (if in_range a last_a va
      then Some (PA2PTE (pa + (PGROUNDDOWN va - a)) OR perm OR PTE_V) else pt_map s pt va)"
    using r first [OF va] range(1) ah not_both by (auto simp: algebra_simps)
qed

lemma mappages_loop_ok:
  assumes "pt_inv s F 2 pt" "pg_aligned a" "unat last_a = unat a + 4096 * n"
    "mappages_loop pt a last_a pa perm s = Inr (r, s')"
  shows "r = 0 \<and> range_mapped pt a last_a pa perm s s' \<and>
    (\<exists>F'. pt_grow s F 2 pt s' F' \<and> card (F - F') \<le> 2 * Suc n)"
  using assms
proof (induction n arbitrary: a pa s F)
  case 0
  then have last: "last_a = a" by (simp add: word_unat_eq_iff)
  obtain pte s1 where w: "walk pt a True s = Inr (pte, s1)" "pt_map s pt a = None"
      "r = 0" "s' = s1\<lparr>mem := st64 (mem s1) pte (PA2PTE pa OR perm OR PTE_V)\<rparr>"
    using 0(4) last by (auto simp: mappages_loop_unfold [OF 0(1)] kres_simps Let_def split: if_splits)
  obtain F' where "pt_grow s F 2 pt s' F'" "card (F - F') \<le> 2"
      "\<And>va. va < MAXVA \<Longrightarrow> pt_map s' pt va =
        (if PGROUNDDOWN va = PGROUNDDOWN a then Some (PA2PTE pa OR perm OR PTE_V) else pt_map s pt va)"
    using mappages_round [OF 0(1) w(1,2), of pa perm] w(4) by metis
  moreover have "pt_map s pt va = None" if "PGROUNDDOWN va = a" for va
    using w(2) that pt_map_PGROUNDDOWN by metis
  ultimately show ?case
    using w(3) last in_range_self [OF 0(2)] PGROUNDDOWN_id [OF 0(2)] by (auto simp: range_mapped_def)
next
  case (Suc n)
  have ne: "a \<noteq> last_a" and le: "a \<le> last_a" using Suc.prems(3) by (auto simp: word_le_nat_alt)
  obtain pte s1 s2 where w: "walk pt a True s = Inr (pte, s1)" "pt_map s pt a = None"
      "s2 = s1\<lparr>mem := st64 (mem s1) pte (PA2PTE pa OR perm OR PTE_V)\<rparr>"
      "mappages_loop pt (a + PGSIZE) last_a (pa + PGSIZE) perm s2 = Inr (r, s')"
    using Suc.prems(4) ne
    by (auto simp: mappages_loop_unfold [OF Suc.prems(1)] kres_simps Let_def split: if_splits)
  have bound: "unat a < 2 ^ 38" using walk_bound [OF w(1)] .
  have al: "pg_aligned last_a" using Suc.prems(2,3) by (auto simp: pg_aligned_unat)
  note step = in_range_step [OF Suc.prems(2) al le ne bound]
  obtain F1 where F1: "pt_grow s F 2 pt s2 F1" "card (F - F1) \<le> 2"
      "\<And>va. va < MAXVA \<Longrightarrow> pt_map s2 pt va =
        (if PGROUNDDOWN va = PGROUNDDOWN a then Some (PA2PTE pa OR perm OR PTE_V) else pt_map s pt va)"
    using mappages_round [OF Suc.prems(1) w(1,2), of pa perm] w(3) by metis
  have "unat last_a = unat (a + PGSIZE) + 4096 * n"
    using Suc.prems(3) unat_next_page [OF bound] by simp
  from Suc.IH [OF pt_grow_inv [OF F1(1)] step(3) this w(4)]
  obtain F2 where ih: "r = 0" "range_mapped pt (a + PGSIZE) last_a (pa + PGSIZE) perm s2 s'"
      "pt_grow s2 F1 2 pt s' F2" "card (F1 - F2) \<le> 2 * Suc n" by blast
  have grow: "pt_grow s F 2 pt s' F2" using pt_grow_trans [OF F1(1) ih(3)] .
  have "finite F" "F1 \<subseteq> F"
    using Suc.prems(1) F1(1) kalloc_inv_finite by (auto simp: pt_inv_def pt_grow_def)
  then have "card (F - F2) \<le> 2 * Suc (Suc n)"
    using card_taken_trans [OF _ _ F1(2) ih(4)] by simp
  then show ?case
    using ih(1) grow range_mapped_step [OF step(1,4) Suc.prems(2) w(2) F1(3) ih(2)] by blast
qed

lemma mappages_loop_total:
  assumes "pt_inv s F 2 pt" "pg_aligned a" "unat last_a = unat a + 4096 * n" "last_a < MAXVA"
    "\<And>va. va < MAXVA \<Longrightarrow> in_range a last_a va \<Longrightarrow> pt_map s pt va = None" "2 * Suc n \<le> card F"
  shows "\<exists>s'. mappages_loop pt a last_a pa perm s = Inr (0, s')"
  using assms
proof (induction n arbitrary: a pa s F)
  case 0
  then have last: "last_a = a" by (simp add: word_unat_eq_iff)
  obtain pte s1 where "walk_loop 2 pt a True s = Inr (pte, s1)"
    using walk_loop_total [OF 0(1), of a] 0(6) by auto
  then have w: "walk pt a True s = Inr (pte, s1)"
    using 0(4) last by (auto simp: walk_def panic_if_def)
  have "pt_map s pt a = None" using 0(4,5) last in_range_self PGROUNDDOWN_id [OF 0(2)] 0(2) by auto
  then show ?case using w last by (simp add: mappages_loop_unfold [OF 0(1)])
next
  case (Suc n)
  have ne: "a \<noteq> last_a" and le: "a \<le> last_a" using Suc.prems(3) by (auto simp: word_le_nat_alt)
  then have aM: "a < MAXVA" using Suc.prems(4) by simp
  then have bound: "unat a < 2 ^ 38" by (simp add: word_less_nat_alt)
  have al: "pg_aligned last_a" using Suc.prems(2,3) by (auto simp: pg_aligned_unat)
  note step = in_range_step [OF Suc.prems(2) al le ne bound]
  obtain pte s1 where "walk_loop 2 pt a True s = Inr (pte, s1)"
    using walk_loop_total [OF Suc.prems(1), of a] Suc.prems(6) by auto
  then have w: "walk pt a True s = Inr (pte, s1)" using aM by (auto simp: walk_def panic_if_def)
  have na: "pt_map s pt a = None"
    using Suc.prems(2,5) aM step(1) [of a] PGROUNDDOWN_id by auto
  define s2 where "s2 = s1\<lparr>mem := st64 (mem s1) pte (PA2PTE pa OR perm OR PTE_V)\<rparr>"
  obtain F1 where F1: "pt_grow s F 2 pt s2 F1" "card (F - F1) \<le> 2"
      "\<And>va. va < MAXVA \<Longrightarrow> pt_map s2 pt va =
        (if PGROUNDDOWN va = PGROUNDDOWN a then Some (PA2PTE pa OR perm OR PTE_V) else pt_map s pt va)"
    using mappages_round [OF Suc.prems(1) w na, of pa perm] s2_def by metis
  have "pt_map s2 pt va = None" if "va < MAXVA" "in_range (a + PGSIZE) last_a va" for va
    using F1(3) [OF that(1)] Suc.prems(5) [OF that(1)] step(1,4) that(2) PGROUNDDOWN_id [OF Suc.prems(2)]
    by (auto simp: in_range_def)
  moreover have "unat last_a = unat (a + PGSIZE) + 4096 * n"
    using Suc.prems(3) unat_next_page [OF bound] by simp
  moreover have "2 * Suc n \<le> card F1"
    using pt_grow_card [OF F1(1) Suc.prems(1) F1(2)] Suc.prems(6) by simp
  ultimately show ?case
    using Suc.IH [OF pt_grow_inv [OF F1(1)] step(3) _ Suc.prems(4), of "pa + PGSIZE"] w na ne
    by (simp add: mappages_loop_unfold [OF Suc.prems(1)] s2_def)
qed


text \<open>Mapping one page.\<close>

lemma mappages_one_unfold:
  assumes "pg_aligned va" "va < MAXVA"
  shows "mappages pt va PGSIZE pa perm s = mappages_loop pt va va pa perm s"
  using assms by (simp add: mappages_def panic_if_def pg_aligned_PGSIZE PGSIZE_def [symmetric])
     (simp add: PGSIZE_def pg_aligned_def)

lemma mappages_one:
  assumes "pt_inv s F 2 pt" "pg_aligned va" "va < MAXVA" "2 \<le> card F" "pt_map s pt va = None"
  obtains s' F' where "mappages pt va PGSIZE pa perm s = Inr (0, s')" "pt_grow s F 2 pt s' F'"
    "card (F - F') \<le> 2"
    "\<And>va'. va' < MAXVA \<Longrightarrow> pt_map s' pt va' =
      (if PGROUNDDOWN va' = va then Some (PA2PTE pa OR perm OR PTE_V) else pt_map s pt va')"
proof -
  have "\<And>va'. va' < MAXVA \<Longrightarrow> in_range va va va' \<Longrightarrow> pt_map s pt va' = None"
    using assms(5) pt_map_PGROUNDDOWN by (metis in_range_self [OF assms(2)])
  then obtain s' where s': "mappages_loop pt va va pa perm s = Inr (0, s')"
    using mappages_loop_total [OF assms(1,2) _ assms(3), where n = 0 and pa = pa and perm = perm] assms(4)
    by auto
  from mappages_loop_ok [OF assms(1,2) _ this, of 0]
  obtain F' where F': "range_mapped pt va va pa perm s s'" "pt_grow s F 2 pt s' F'" "card (F - F') \<le> 2"
    by auto
  have "pt_map s' pt va' = (if PGROUNDDOWN va' = va then Some (PA2PTE pa OR perm OR PTE_V) else pt_map s pt va')"
    if "va' < MAXVA" for va'
    using F'(1) that in_range_self [OF assms(2)] by (auto simp: range_mapped_def)
  with that [of s' F'] F' s' mappages_one_unfold [OF assms(2,3), of pt pa perm s] show ?thesis by simp
qed

lemma mappages_remap:
  assumes "pt_inv s F 2 pt" "pg_aligned va" "va < MAXVA" "2 \<le> card F" "pt_map s pt va \<noteq> None"
  shows "mappages pt va PGSIZE pa perm s = Inl (Panic ''mappages: remap'')"
proof -
  obtain pte s1 where "walk_loop 2 pt va True s = Inr (pte, s1)"
    using walk_loop_total [OF assms(1), of va] assms(4) by auto
  then have "walk pt va True s = Inr (pte, s1)" using assms(3) by (auto simp: walk_def panic_if_def)
  then show ?thesis
    using assms(5) by (simp add: mappages_one_unfold [OF assms(2,3)] mappages_loop_unfold [OF assms(1)])
qed

section \<open>User memory\<close>

lemma pt_frame:
  assumes inv: "pt_inv s F n p" and K: "kalloc_inv s' F'" "valid_page s' = valid_page s"
    and same: "\<And>q. q \<in> pt_pages (mem s) n p \<Longrightarrow> page_refs s' q = page_refs s q \<and> page_eq (mem s) (mem s') q"
  shows "pt_inv s' F' n p" "pt_pages (mem s') n p = pt_pages (mem s) n p"
    "pt_get (mem s') n p = pt_get (mem s) n p" "pt_slot (mem s') n p = pt_slot (mem s) n p"
proof -
  have eq: "\<And>q. q \<in> pt_pages (mem s) n p \<Longrightarrow> page_eq (mem s) (mem s') q" using same by blast
  note c = pt_cong [OF pt_inv_aligned [OF inv] eq] pt_get_cong [OF pt_inv_aligned [OF inv] eq]
  show "pt_pages (mem s') n p = pt_pages (mem s) n p" "pt_get (mem s') n p = pt_get (mem s) n p"
      "pt_slot (mem s') n p = pt_slot (mem s) n p"
    using c by (auto simp: fun_eq_iff)
  show "pt_inv s' F' n p"
    using inv K c same unfolding pt_inv_def pt_owned_def by simp
qed

lemma kfree_drop:
  assumes "kalloc_inv s F" "valid_page s p" "1 \<le> page_refs s p"
  obtains s' where "kfree p s = Inr s'" "kalloc_inv s' (if page_refs s p = 1 then insert p F else F)"
    "valid_page s' = valid_page s" "page_refs s' p = page_refs s p - 1" "kend s' = kend s" "tp s' = tp s"
    "\<And>q. valid_page s q \<Longrightarrow> q \<noteq> p \<Longrightarrow> page_refs s' q = page_refs s q \<and> page_eq (mem s) (mem s') q"
proof (cases "page_refs s p = 1")
  case True
  obtain s' where s': "kfree p s = Inr s'" "kalloc_inv s' (insert p F)" "valid_page s' = valid_page s"
    "page_refs s' p = 0" "kend s' = kend s" "tp s' = tp s"
    "\<And>q. valid_page s q \<Longrightarrow> q \<noteq> p \<Longrightarrow> page_refs s' q = page_refs s q \<and> page_eq (mem s) (mem s') q"
    by (rule kalloc_inv_free [OF assms(1,2) True]) blast
  show ?thesis by (rule that [OF s'(1)]) (simp_all add: True s')
next
  case False
  then have r: "1 < refcnt s (ref_idx p)" using assms(3) by (simp add: page_refs_def)
  obtain fr where rep: "kalloc_rep s fr" "free_in fr = F" using assms(1) by (auto simp: kalloc_inv_def)
  let ?s = "s\<lparr>mem := memset (mem s) p 1 4096, refcnt := (refcnt s)(ref_idx p := refcnt s (ref_idx p) - 1)\<rparr>"
  note sh = kfree_shared [OF rep(1) assms(2) r]
  show ?thesis
  proof (rule that [OF sh(1)])
    show "kalloc_inv ?s (if page_refs s p = 1 then insert p F else F)"
      using sh(2) rep(2) False by (auto simp: kalloc_inv_def)
    fix q assume q: "valid_page s q" "q \<noteq> p"
    then show "page_refs ?s q = page_refs s q \<and> page_eq (mem s) (mem ?s) q"
      using assms(2) kalloc_inv_KERNBASE [OF assms(1)] ref_idx_inj [OF q(1) assms(2)]
      by (simp add: page_refs_def memset_page_eq valid_page_aligned)
  qed (auto simp: page_refs_def valid_page_def fun_eq_iff)
qed

text \<open>
  The user part of an address space, below \<open>lim\<close>: what is mapped are allocated pages outside the
  page table, and no page is mapped at two addresses.
\<close>

definition uvm_inv :: "'z kmem_scheme \<Rightarrow> u64 set \<Rightarrow> u64 \<Rightarrow> u64 \<Rightarrow> bool" where
  "uvm_inv s F pt lim \<longleftrightarrow> pt_inv s F 2 pt \<and> lim \<le> MAXVA \<and>
     (\<forall>va<lim. \<forall>e. pt_map s pt va = Some e \<longrightarrow>
        valid_page s (PTE2PA e) \<and> 1 \<le> page_refs s (PTE2PA e) \<and> PTE2PA e \<notin> pt_pages (mem s) 2 pt) \<and>
     (\<forall>va<lim. \<forall>va'<lim. \<forall>e e'. pt_map s pt va = Some e \<longrightarrow> pt_map s pt va' = Some e' \<longrightarrow>
        PTE2PA e = PTE2PA e' \<longrightarrow> PGROUNDDOWN va = PGROUNDDOWN va')"

definition range_pages :: "'z kmem_scheme \<Rightarrow> u64 \<Rightarrow> u64 \<Rightarrow> u64 \<Rightarrow> u64 set" where
  "range_pages s pt a e = {PTE2PA v | va v. a \<le> va \<and> va < e \<and> pt_map s pt va = Some v}"

text \<open>The pages of a range are unmapped and lose one reference each.\<close>

definition range_unmapped :: "u64 \<Rightarrow> u64 \<Rightarrow> u64 \<Rightarrow> 'z kmem_scheme \<Rightarrow> 'z kmem_scheme \<Rightarrow> bool" where
  "range_unmapped pt a e s s' \<longleftrightarrow>
     (\<forall>va<MAXVA. pt_map s' pt va = (if a \<le> va \<and> va < e then None else pt_map s pt va)) \<and>
     pt_pages (mem s') 2 pt = pt_pages (mem s) 2 pt \<and> valid_page s' = valid_page s \<and>
     kend s' = kend s \<and> tp s' = tp s \<and>
     (\<forall>q. valid_page s q \<longrightarrow>
        page_refs s' q = page_refs s q - of_bool (q \<in> range_pages s pt a e) \<and>
        (q \<notin> pt_pages (mem s) 2 pt \<longrightarrow> q \<notin> range_pages s pt a e \<longrightarrow> page_eq (mem s) (mem s') q))"


lemma uvm_inv_pt: "uvm_inv s F pt lim \<Longrightarrow> pt_inv s F 2 pt"
  by (simp add: uvm_inv_def)

lemma uvm_inv_page:
  assumes "uvm_inv s F pt lim" "va < lim" "pt_map s pt va = Some e"
  shows "valid_page s (PTE2PA e)" "1 \<le> page_refs s (PTE2PA e)" "PTE2PA e \<notin> pt_pages (mem s) 2 pt"
  using assms unfolding uvm_inv_def by blast+

lemma uvm_inv_inj:
  assumes "uvm_inv s F pt lim" "va < lim" "pt_map s pt va = Some e"
    "va' < lim" "pt_map s pt va' = Some e'" "PTE2PA e = PTE2PA e'"
  shows "PGROUNDDOWN va = PGROUNDDOWN va'"
  using assms unfolding uvm_inv_def by blast

text \<open>Unmapping one page: dropping the reference and clearing the entry.\<close>

lemma unmap_one:
  assumes inv: "uvm_inv s F pt lim" and a: "a < lim" "pt_map s pt a = Some v"
    and slot: "pt_slot (mem s) 2 pt a = Some pte" and e: "v = ld64 (mem s) pte"
  obtains s1 F1 where "kfree (PTE2PA v) s = Inr s1"
    "uvm_inv (s1\<lparr>mem := st64 (mem s1) pte 0\<rparr>) F1 pt lim" "F \<subseteq> F1"
    "\<And>va. va < MAXVA \<Longrightarrow> pt_map (s1\<lparr>mem := st64 (mem s1) pte 0\<rparr>) pt va =
      (if PGROUNDDOWN va = PGROUNDDOWN a then None else pt_map s pt va)"
    "pt_pages (st64 (mem s1) pte 0) 2 pt = pt_pages (mem s) 2 pt" "valid_page s1 = valid_page s"
    "kend s1 = kend s" "tp s1 = tp s" "page_refs s1 (PTE2PA v) = page_refs s (PTE2PA v) - 1"
    "\<And>q. valid_page s q \<Longrightarrow> q \<noteq> PTE2PA v \<Longrightarrow> page_refs s1 q = page_refs s q \<and>
      (q \<notin> pt_pages (mem s) 2 pt \<longrightarrow> page_eq (mem s) (st64 (mem s1) pte 0) q)"
proof -
  let ?p = "PTE2PA v"
  have K: "kalloc_inv s F" using uvm_inv_pt [OF inv] by (simp add: pt_inv_def)
  have lim: "lim \<le> MAXVA" "a < MAXVA" using inv a by (auto simp: uvm_inv_def)
  note pg = uvm_inv_page [OF inv a]
  obtain s1 where s1: "kfree ?p s = Inr s1"
      "kalloc_inv s1 (if page_refs s ?p = 1 then insert ?p F else F)"
      "valid_page s1 = valid_page s" "page_refs s1 ?p = page_refs s ?p - 1" "kend s1 = kend s" "tp s1 = tp s"
      "\<And>q. valid_page s q \<Longrightarrow> q \<noteq> ?p \<Longrightarrow> page_refs s1 q = page_refs s q \<and> page_eq (mem s) (mem s1) q"
    by (rule kfree_drop [OF K pg(1,2)]) blast
  let ?F = "if page_refs s ?p = 1 then insert ?p F else F"
  let ?s = "s1\<lparr>mem := st64 (mem s1) pte 0\<rparr>"
  have same: "page_refs s1 q = page_refs s q \<and> page_eq (mem s) (mem s1) q" if "q \<in> pt_pages (mem s) 2 pt" for q
    using s1(7) pt_inv_owned(1) [OF uvm_inv_pt [OF inv] that] pg(3) that by blast
  note fr = pt_frame [OF uvm_inv_pt [OF inv] s1(2,3) same]
  have slot1: "pt_slot (mem s1) 2 pt a = Some pte" using fr(4) slot by simp
  have grow: "pt_grow s1 ?F 2 pt ?s ?F" by (rule pt_grow_store [OF fr(1) slot1])
  have map: "pt_map ?s pt va = (if PGROUNDDOWN va = PGROUNDDOWN a then None else pt_map s pt va)"
    if "va < MAXVA" for va
    using pt_map_store [OF fr(1) slot1 lim(2) that, of 0] fr(3) by (auto simp: pt_map_def)
  have pages: "pt_pages (st64 (mem s1) pte 0) 2 pt = pt_pages (mem s) 2 pt"
    using grow fr(2) by (simp add: pt_grow_def)
  have old: "va < MAXVA \<and> pt_map s pt va = Some w \<and> PGROUNDDOWN va \<noteq> PGROUNDDOWN a"
    if "va < lim" "pt_map ?s pt va = Some w" for va w
    using that map [of va] lim(1) by (auto split: if_splits)
  have "uvm_inv ?s ?F pt lim"
    unfolding uvm_inv_def
  proof (intro conjI allI impI)
    show "pt_inv ?s ?F 2 pt" using grow by (rule pt_grow_inv)
    show "lim \<le> MAXVA" by (rule lim)
    fix va w assume va: "va < lim" "pt_map ?s pt va = Some w"
    note o = old [OF va]
    have np: "PTE2PA w \<noteq> ?p" using uvm_inv_inj [OF inv va(1) _ a, of w] o by blast
    note ow = uvm_inv_page [OF inv va(1), of w]
    show "valid_page ?s (PTE2PA w)" "1 \<le> page_refs ?s (PTE2PA w)" "PTE2PA w \<notin> pt_pages (mem ?s) 2 pt"
      using ow o np s1(3) s1(7) [of "PTE2PA w"] pages by auto
  next
    fix va va' w w'
    assume "va < lim" "va' < lim" "pt_map ?s pt va = Some w" "pt_map ?s pt va' = Some w'" "PTE2PA w = PTE2PA w'"
    then show "PGROUNDDOWN va = PGROUNDDOWN va'"
      using uvm_inv_inj [OF inv, of va w va' w'] old by blast
  qed
  moreover have "page_eq (mem s) (st64 (mem s1) pte 0) q"
    if "valid_page s q" "q \<noteq> ?p" "q \<notin> pt_pages (mem s) 2 pt" for q
    using s1(7) [OF that(1,2)] grow that s1(3) pages page_eq_trans unfolding pt_grow_def by fastforce
  moreover have "F \<subseteq> ?F" by auto
  ultimately show ?thesis
    using that [OF s1(1), of ?F] s1 map pages by blast
qed


lemma page_range_split:
  assumes "pg_aligned a" "unat e = unat a + 4096 * Suc n"
  shows "a \<le> va \<and> va < e \<longleftrightarrow> PGROUNDDOWN va = a \<or> (a + PGSIZE \<le> va \<and> va < e)"
    "\<not> (PGROUNDDOWN va = a \<and> a + PGSIZE \<le> va)" "a < e"
    "pg_aligned (a + PGSIZE)" "unat e = unat (a + PGSIZE) + 4096 * n"
proof -
  obtain k where k: "unat a = 4096 * k" using assms(1) by (rule pg_alignedE)
  have n: "unat (a + PGSIZE) = 4096 * (k + 1)"
    using k assms(2) u64_bound [of e] by (simp add: unat_word_ariths PGSIZE_def)
  have r: "PGROUNDDOWN va = a \<longleftrightarrow> 4096 * k \<le> unat va \<and> unat va < 4096 * (k + 1)"
    using k unat_PGROUNDDOWN [of va] by (auto simp: word_unat_eq_iff)
  show "a \<le> va \<and> va < e \<longleftrightarrow> PGROUNDDOWN va = a \<or> (a + PGSIZE \<le> va \<and> va < e)"
    "\<not> (PGROUNDDOWN va = a \<and> a + PGSIZE \<le> va)" "a < e"
    "pg_aligned (a + PGSIZE)" "unat e = unat (a + PGSIZE) + 4096 * n"
    using k n r assms(2) by (auto simp: word_le_nat_alt word_less_nat_alt pg_aligned_unat)
qed

lemma range_unmapped_step_none:
  assumes "pg_aligned a" "unat e = unat a + 4096 * Suc n" "pt_map s pt a = None"
    "range_unmapped pt (a + PGSIZE) e s s'"
  shows "range_unmapped pt a e s s'"
proof -
  note sp = page_range_split [OF assms(1,2)]
  have none: "pt_map s pt va = None" if "PGROUNDDOWN va = a" for va
    using assms(3) that pt_map_PGROUNDDOWN by metis
  have "(a \<le> va \<and> va < e) = (a + PGSIZE \<le> va \<and> va < e)" if "pt_map s pt va = Some w" for va w
    using sp(1) [of va] none [of va] that by auto
  then have "range_pages s pt a e = range_pages s pt (a + PGSIZE) e"
    unfolding range_pages_def by blast
  moreover have "(if a \<le> va \<and> va < e then None else pt_map s pt va) =
      (if a + PGSIZE \<le> va \<and> va < e then None else pt_map s pt va)" for va
    using none sp(1) by auto
  ultimately show ?thesis using assms(4) unfolding range_unmapped_def by simp
qed

lemma range_unmapped_step_some:
  assumes a: "pg_aligned a" "unat e = unat a + 4096 * Suc n" "e \<le> MAXVA"
    and v: "pt_map s pt a = Some v" and own: "PTE2PA v \<notin> range_pages s pt (a + PGSIZE) e"
    and one: "\<And>va. va < MAXVA \<Longrightarrow> pt_map s2 pt va = (if PGROUNDDOWN va = a then None else pt_map s pt va)"
    "pt_pages (mem s2) 2 pt = pt_pages (mem s) 2 pt" "valid_page s2 = valid_page s" "kend s2 = kend s"
    "tp s2 = tp s" "page_refs s2 (PTE2PA v) = page_refs s (PTE2PA v) - 1"
    "\<And>q. valid_page s q \<Longrightarrow> q \<noteq> PTE2PA v \<Longrightarrow> page_refs s2 q = page_refs s q \<and>
      (q \<notin> pt_pages (mem s) 2 pt \<longrightarrow> page_eq (mem s) (mem s2) q)"
    and rest: "range_unmapped pt (a + PGSIZE) e s2 s'"
  shows "range_unmapped pt a e s s'"
proof -
  note sp = page_range_split [OF a(1,2)]
  have same: "pt_map s pt va = Some v" if "PGROUNDDOWN va = a" for va
    using v that pt_map_PGROUNDDOWN by metis
  have later: "pt_map s2 pt va = pt_map s pt va" if "a + PGSIZE \<le> va" "va < e" for va
    using one(1) [of va] sp(2) [of va] that a(3) by auto
  have r2: "range_pages s2 pt (a + PGSIZE) e = range_pages s pt (a + PGSIZE) e"
    unfolding range_pages_def by (intro Collect_cong ex_cong1 conj_cong refl) (simp add: later)
  have ah: "PGROUNDDOWN a = a" using PGROUNDDOWN_id [OF a(1)] .
  have r: "range_pages s pt a e = insert (PTE2PA v) (range_pages s pt (a + PGSIZE) e)"
  proof (intro set_eqI iffI)
    fix q assume "q \<in> range_pages s pt a e"
    then obtain va w where va: "a \<le> va \<and> va < e" "pt_map s pt va = Some w" "q = PTE2PA w"
      by (auto simp: range_pages_def)
    then show "q \<in> insert (PTE2PA v) (range_pages s pt (a + PGSIZE) e)"
      using sp(1) [of va] same [of va] by (auto simp: range_pages_def)
  next
    fix q assume "q \<in> insert (PTE2PA v) (range_pages s pt (a + PGSIZE) e)"
    then show "q \<in> range_pages s pt a e"
      using sp(1) [of a] ah v sp(1) unfolding range_pages_def by auto
  qed
  have map: "pt_map s' pt va = (if a \<le> va \<and> va < e then None else pt_map s pt va)" if "va < MAXVA" for va
    using rest one(1) [OF that] sp(1,2) [of va] that unfolding range_unmapped_def by auto
  have "page_refs s' q = page_refs s q - of_bool (q \<in> range_pages s pt a e) \<and>
      (q \<notin> pt_pages (mem s) 2 pt \<longrightarrow> q \<notin> range_pages s pt a e \<longrightarrow> page_eq (mem s) (mem s') q)"
    if q: "valid_page s q" for q
  proof -
    have rq: "page_refs s' q = page_refs s2 q - of_bool (q \<in> range_pages s pt (a + PGSIZE) e)"
      "q \<notin> pt_pages (mem s) 2 pt \<Longrightarrow> q \<notin> range_pages s pt (a + PGSIZE) e \<Longrightarrow> page_eq (mem s2) (mem s') q"
      using rest q one(2,3) unfolding range_unmapped_def r2 by auto
    show ?thesis
    proof (cases "q = PTE2PA v")
      case True
      then show ?thesis using rq(1) one(6) own r by simp
    next
      case False
      then show ?thesis
        using rq one(7) [OF q False] r page_eq_trans [of "mem s" "mem s2" q "mem s'"] by simp
    qed
  qed
  then show ?thesis
    using map rest one(2-5) unfolding range_unmapped_def by simp
qed

lemma uvmunmap_loop_ok:
  assumes "uvm_inv s F pt lim" "pg_aligned a" "unat e = unat a + 4096 * n" "e \<le> lim"
  shows "\<exists>s' F'. uvmunmap_loop pt a e True s = Inr s' \<and> uvm_inv s' F' pt lim \<and> F \<subseteq> F' \<and>
    range_unmapped pt a e s s'"
  using assms
proof (induction n arbitrary: a s F)
  case 0
  then have "e = a" by (simp add: word_unat_eq_iff)
  then have "range_pages s pt a e = {}" by (auto simp: range_pages_def)
  then have "range_unmapped pt a e s s" using \<open>e = a\<close> by (auto simp: range_unmapped_def)
  then show ?case using 0(1) \<open>e = a\<close> by (subst uvmunmap_loop.simps) auto
next
  case (Suc n)
  note sp = page_range_split [OF Suc.prems(2,3)]
  have lim: "lim \<le> MAXVA" using Suc.prems(1) by (simp add: uvm_inv_def)
  have al: "a < lim" "a < MAXVA" "e \<le> MAXVA" using sp(3) Suc.prems(4) lim by auto
  obtain pte where w: "walk pt a False s = Inr (pte, s)"
      "pt_map s pt a = (if pte \<noteq> 0 \<and> pte_v (ld64 (mem s) pte) then Some (ld64 (mem s) pte) else None)"
      "pte \<noteq> 0 \<Longrightarrow> pt_slot (mem s) 2 pt a = Some pte"
    using walk_lookup_map [OF uvm_inv_pt [OF Suc.prems(1)] al(2)] by metis
  show ?case
  proof (cases "pt_map s pt a")
    case None
    then have "uvmunmap_loop pt a e True s = uvmunmap_loop pt (a + PGSIZE) e True s"
      using w(1,2) sp(3) by (subst uvmunmap_loop.simps) (auto simp: Let_def pte_v_def split: if_splits)
    then show ?thesis
      using Suc.IH [OF Suc.prems(1) sp(4,5) Suc.prems(4)] range_unmapped_step_none [OF Suc.prems(2,3) None] by auto
  next
    case (Some v)
    then have v: "pte \<noteq> 0" "v = ld64 (mem s) pte" "v AND PTE_V \<noteq> 0" "pt_slot (mem s) 2 pt a = Some pte"
      using w(2,3) by (auto simp: pte_v_def split: if_splits)
    obtain s1 F1 where s1: "kfree (PTE2PA v) s = Inr s1"
      "uvm_inv (s1\<lparr>mem := st64 (mem s1) pte 0\<rparr>) F1 pt lim" "F \<subseteq> F1"
      "\<And>va. va < MAXVA \<Longrightarrow> pt_map (s1\<lparr>mem := st64 (mem s1) pte 0\<rparr>) pt va =
        (if PGROUNDDOWN va = PGROUNDDOWN a then None else pt_map s pt va)"
      "pt_pages (st64 (mem s1) pte 0) 2 pt = pt_pages (mem s) 2 pt" "valid_page s1 = valid_page s"
      "kend s1 = kend s" "tp s1 = tp s" "page_refs s1 (PTE2PA v) = page_refs s (PTE2PA v) - 1"
      "\<And>q. valid_page s q \<Longrightarrow> q \<noteq> PTE2PA v \<Longrightarrow> page_refs s1 q = page_refs s q \<and>
        (q \<notin> pt_pages (mem s) 2 pt \<longrightarrow> page_eq (mem s) (st64 (mem s1) pte 0) q)"
      by (rule unmap_one [OF Suc.prems(1) al(1) Some v(4,2)]) blast
    let ?s = "s1\<lparr>mem := st64 (mem s1) pte 0\<rparr>"
    have "PTE2PA v \<notin> range_pages s pt (a + PGSIZE) e"
    proof
      assume "PTE2PA v \<in> range_pages s pt (a + PGSIZE) e"
      then obtain va w where va: "a + PGSIZE \<le> va" "va < e" "pt_map s pt va = Some w" "PTE2PA v = PTE2PA w"
        by (auto simp: range_pages_def)
      then have "va < lim" using Suc.prems(4) by simp
      from uvm_inv_inj [OF Suc.prems(1) al(1) Some this va(3,4)] show False
        using sp(2) [of va] va(1) PGROUNDDOWN_id [OF Suc.prems(2)] by simp
    qed
    note step = range_unmapped_step_some [OF Suc.prems(2,3) al(3) Some this, of ?s]
    have "uvmunmap_loop pt a e True s = uvmunmap_loop pt (a + PGSIZE) e True ?s"
      using w(1) v s1(1) sp(3) by (subst uvmunmap_loop.simps) (simp add: Let_def)
    moreover obtain s' F' where "uvmunmap_loop pt (a + PGSIZE) e True ?s = Inr s'" "uvm_inv s' F' pt lim"
        "F1 \<subseteq> F'" "range_unmapped pt (a + PGSIZE) e ?s s'"
      using Suc.IH [OF s1(2) sp(4,5) Suc.prems(4)] by blast
    moreover have "range_unmapped pt a e s s'"
      using s1(4-10) calculation(5) PGROUNDDOWN_id [OF Suc.prems(2)] by (intro step) simp_all
    ultimately show ?thesis using s1(3) by auto
  qed
qed


lemma uvmunmap_ok:
  assumes "uvm_inv s F pt lim" "pg_aligned va" "unat va + 4096 * n \<le> unat lim" "npages = of_nat n"
  obtains s' F' where "uvmunmap pt va npages True s = Inr s'" "uvm_inv s' F' pt lim" "F \<subseteq> F'"
    "range_unmapped pt va (va + of_nat n * PGSIZE) s s'"
proof -
  have lim: "unat lim \<le> 2 ^ 38" using assms(1) by (simp add: uvm_inv_def word_le_nat_alt)
  have n: "unat (of_nat n * PGSIZE :: u64) = 4096 * n"
    using assms(3) lim by (simp add: unat_word_ariths unat_of_nat PGSIZE_def mult.commute)
  have e: "unat (va + of_nat n * PGSIZE) = unat va + 4096 * n"
    using n assms(3) lim by (simp add: unat_word_ariths)
  have "va + of_nat n * PGSIZE \<le> lim" using e assms(3) by (simp add: word_le_nat_alt)
  from uvmunmap_loop_ok [OF assms(1,2) e this] that assms(2,4) show ?thesis
    by (auto simp: uvmunmap_def panic_if_def pg_aligned_PGSIZE)
qed

lemma aligned_diff_div:
  assumes "pg_aligned a" "pg_aligned b" "a \<le> b"
  shows "unat ((b - a) div PGSIZE) = (unat b - unat a) div 4096" "unat b = unat a + 4096 * ((unat b - unat a) div 4096)"
proof -
  obtain k l where kl: "unat a = 4096 * k" "unat b = 4096 * l" using assms(1,2) by (metis pg_alignedE)
  then show "unat b = unat a + 4096 * ((unat b - unat a) div 4096)"
    using assms(3) by (simp add: word_le_nat_alt flip: diff_mult_distrib2)
  show "unat ((b - a) div PGSIZE) = (unat b - unat a) div 4096"
    using assms(3) by (simp add: unat_div unat_sub PGSIZE_def)
qed

lemma scast_ucast_small:
  assumes "unat (x :: u64) < 2 ^ 31"
  shows "(scast (ucast x :: u32) :: u64) = x"
proof -
  have "unat (take_bit 31 x) = unat x"
    using assms by (simp add: unsigned_take_bit_eq take_bit_nat_eq_self)
  then have x: "take_bit 31 x = x" by (simp add: word_unat_eq_iff)
  then have hi: "\<not> bit x n" if "31 \<le> n" for n
    using that by (metis bit_take_bit_iff not_le)
  show ?thesis
    by (rule bit_word_eqI) (auto simp: bit_signed_iff bit_unsigned_iff hi min_def)
qed

end
