(* ===== verification/Uvm.thy ===== *)
theory Uvm
  imports Vm
begin

text \<open>
  Theorems about user address spaces: growing (\<^verbatim>\<open>uvmalloc\<close>), shrinking (\<^verbatim>\<open>uvmdealloc\<close>),
  faulting in (\<^verbatim>\<open>vmfault\<close>), copying on \<^verbatim>\<open>fork\<close> (\<^verbatim>\<open>uvmcopy\<close>) and copying out (\<^verbatim>\<open>copyout\<close>).
\<close>

unbundle bit_operations_syntax

section \<open>A fresh zeroed page\<close>

lemma PTE2PA_leaf:
  assumes "valid_page s pg" "PTE_FLAGS perm = perm"
  shows "PTE2PA (PA2PTE pg OR perm OR PTE_V) = pg" "PTE_FLAGS (PA2PTE pg OR perm OR PTE_V) = perm OR PTE_V"
proof -
  have "pg < 2 ^ 54" using assms by (auto simp: valid_page_def riscv_consts word_less_nat_alt)
  moreover have "PTE_FLAGS (perm OR PTE_V) = perm OR PTE_V"
    using assms(2) by (simp add: PTE_FLAGS_def PTE_V_def bit.conj_disj_distrib2)
  ultimately show "PTE2PA (PA2PTE pg OR perm OR PTE_V) = pg" "PTE_FLAGS (PA2PTE pg OR perm OR PTE_V) = perm OR PTE_V"
    using PTE2PA_PA2PTE [of pg "perm OR PTE_V"] assms(1)
    by (simp_all add: valid_page_aligned or.assoc)
qed

text \<open>A page taken from the allocator and cleared, with the page table as it was.\<close>

lemma fresh_page:
  assumes inv: "pt_inv s F 2 pt" and F: "F \<noteq> {}"
  obtains pg s1 where "kalloc s = Inr (pg, s1)" "pg \<in> F" "pg \<noteq> 0" "valid_page s pg"
    "pt_inv (s1\<lparr>mem := memset (mem s1) pg 0 4096\<rparr>) (F - {pg}) 2 pt"
    "pt_map (s1\<lparr>mem := memset (mem s1) pg 0 4096\<rparr>) pt = pt_map s pt"
    "pt_pages (memset (mem s1) pg 0 4096) 2 pt = pt_pages (mem s) 2 pt"
    "valid_page s1 = valid_page s" "page_refs s1 pg = 1" "kend s1 = kend s" "tp s1 = tp s"
    "\<And>q. valid_page s q \<Longrightarrow> q \<noteq> pg \<Longrightarrow>
       page_refs s1 q = page_refs s q \<and> page_eq (mem s) (memset (mem s1) pg 0 4096) q"
proof -
  have K: "kalloc_inv s F" using inv by (simp add: pt_inv_def)
  obtain pg s1 where al: "kalloc s = Inr (pg, s1)" using kalloc_inv_total [OF K F] .
  note law = kalloc_inv_alloc [OF K al]
  have pg: "valid_page s pg" "pg_aligned pg" using kalloc_inv_page [OF K law(1)] valid_page_aligned by auto
  let ?m = "memset (mem s1) pg 0 4096" and ?s = "s1\<lparr>mem := memset (mem s1) pg 0 4096\<rparr>"
  have eq1: "page_eq (mem s1) ?m q" if "valid_page s q" "q \<noteq> pg" for q
    using memset_page_eq [OF pg(2) valid_page_aligned [OF that(1)]] that(2) by blast
  have eq: "page_refs s1 q = page_refs s q \<and> page_eq (mem s) ?m q" if "valid_page s q" "q \<noteq> pg" for q
    using law(6) [OF that] eq1 [OF that] page_eq_trans by blast
  have "page_eq (mem s1) ?m q" if "q \<in> F - {pg}" for q
    using that eq1 kalloc_inv_page [OF K] by blast
  then have K1: "kalloc_inv ?s (F - {pg})" by (rule kalloc_inv_mem [OF law(2)])
  have same: "page_refs ?s q = page_refs s q \<and> page_eq (mem s) (mem ?s) q" if "q \<in> pt_pages (mem s) 2 pt" for q
    using eq [of q] pt_inv_owned(1,3) [OF inv that] law(1) by auto
  have v: "valid_page ?s = valid_page s" using law(3) by simp
  note fr = pt_frame [OF inv K1 v same]
  then have m: "pt_map ?s pt = pt_map s pt" by (simp add: pt_map_def fun_eq_iff)
  show ?thesis
    using that [OF al law(1,5) pg(1) fr(1) m _ law(3,4,8,9) eq] fr(2) by simp
qed

definition zero_page :: "memory \<Rightarrow> u64 \<Rightarrow> bool" where
  "zero_page m p \<longleftrightarrow> (\<forall>x. in_page p x \<longrightarrow> m x = 0)"

lemma zero_page_memset: "zero_page (memset m p 0 4096) p"
  by (simp add: zero_page_def memset_apply in_page_def)

lemma zero_page_cong: "zero_page m p \<Longrightarrow> page_eq m m' p \<Longrightarrow> zero_page m' p"
  by (simp add: zero_page_def page_eq_def)

text \<open>What mapping one fresh page at \<open>a\<close> does to a user address space.\<close>

definition page_added :: "u64 \<Rightarrow> u64 \<Rightarrow> u64 \<Rightarrow> u64 \<Rightarrow> 'z kmem_scheme \<Rightarrow> u64 set \<Rightarrow> 'z kmem_scheme \<Rightarrow> u64 set \<Rightarrow> bool" where
  "page_added pt a pg perm s F s' F' \<longleftrightarrow> F' \<subseteq> F \<and> pg \<in> F - F' \<and> card F \<le> card F' + 3 \<and>
     (\<forall>va<MAXVA. pt_map s' pt va =
        (if PGROUNDDOWN va = a then Some (PA2PTE pg OR perm OR PTE_V) else pt_map s pt va)) \<and>
     valid_page s' = valid_page s \<and> kend s' = kend s \<and> tp s' = tp s \<and>
     page_refs s' pg = 1 \<and> zero_page (mem s') pg \<and>
     pt_pages (mem s') 2 pt \<subseteq> pt_pages (mem s) 2 pt \<union> (F - F') \<and>
     (\<forall>q. valid_page s q \<longrightarrow> q \<notin> F - F' \<longrightarrow> q \<notin> pt_pages (mem s) 2 pt \<longrightarrow>
        page_refs s' q = page_refs s q \<and> page_eq (mem s) (mem s') q)"

lemma alloc_map_one:
  assumes inv: "pt_inv s F 2 pt" and va: "pg_aligned a" "a < MAXVA" "pt_map s pt a = None" and F: "3 \<le> card F"
  obtains pg s1 s2 F2 where "kalloc s = Inr (pg, s1)" "pg \<noteq> 0" "valid_page s pg"
    "mappages pt a PGSIZE pg perm (s1\<lparr>mem := memset (mem s1) pg 0 4096\<rparr>) = Inr (0, s2)"
    "page_added pt a pg perm s F s2 F2" "pt_inv s2 F2 2 pt" "pg \<notin> pt_pages (mem s2) 2 pt"
proof -
  have "F \<noteq> {}" using F by auto
  obtain pg s1 where f: "kalloc s = Inr (pg, s1)" "pg \<in> F" "pg \<noteq> 0" "valid_page s pg"
    "pt_inv (s1\<lparr>mem := memset (mem s1) pg 0 4096\<rparr>) (F - {pg}) 2 pt"
    "pt_map (s1\<lparr>mem := memset (mem s1) pg 0 4096\<rparr>) pt = pt_map s pt"
    "pt_pages (memset (mem s1) pg 0 4096) 2 pt = pt_pages (mem s) 2 pt"
    "valid_page s1 = valid_page s" "page_refs s1 pg = 1" "kend s1 = kend s" "tp s1 = tp s"
    "\<And>q. valid_page s q \<Longrightarrow> q \<noteq> pg \<Longrightarrow>
       page_refs s1 q = page_refs s q \<and> page_eq (mem s) (memset (mem s1) pg 0 4096) q"
    by (rule fresh_page [OF inv \<open>F \<noteq> {}\<close>]) blast
  let ?s = "s1\<lparr>mem := memset (mem s1) pg 0 4096\<rparr>"
  have fin: "finite F" using inv kalloc_inv_finite by (auto simp: pt_inv_def)
  have "2 \<le> card (F - {pg})" using F f(2) fin by simp
  moreover have "pt_map ?s pt a = None" using f(6) va(3) by simp
  ultimately obtain s2 F2 where s2: "mappages pt a PGSIZE pg perm ?s = Inr (0, s2)" "pt_grow ?s (F - {pg}) 2 pt s2 F2"
    "card (F - {pg} - F2) \<le> 2"
    "\<And>va'. va' < MAXVA \<Longrightarrow> pt_map s2 pt va' =
      (if PGROUNDDOWN va' = a then Some (PA2PTE pg OR perm OR PTE_V) else pt_map ?s pt va')"
    by (rule mappages_one [OF f(5) va(1,2)]) blast
  have g: "F2 \<subseteq> F - {pg}" "pt_pages (mem s2) 2 pt = pt_pages (mem s) 2 pt \<union> (F - {pg} - F2)"
    "valid_page s2 = valid_page s" "kend s2 = kend s" "tp s2 = tp s"
    "\<And>q. valid_page s q \<Longrightarrow> q \<notin> pt_pages (mem s2) 2 pt \<Longrightarrow>
       page_refs s2 q = page_refs s1 q \<and> page_eq (memset (mem s1) pg 0 4096) (mem s2) q"
    using s2(2) f(7,8,10,11) unfolding pt_grow_def by auto
  have pgn: "pg \<notin> pt_pages (mem s2) 2 pt" using g(2) f(2) pt_inv_owned(3) [OF inv] by blast
  have pg: "page_refs s2 pg = 1" "zero_page (mem s2) pg"
    using g(6) [OF f(4) pgn] f(9) zero_page_cong [OF zero_page_memset, of "mem s1" pg "mem s2"] by simp_all
  have "card (F - {pg}) \<le> card F2 + 2" using pt_grow_card [OF s2(2) f(5) s2(3)] .
  then have "card F \<le> card F2 + 3" using f(2) fin by simp
  moreover have "page_refs s2 q = page_refs s q \<and> page_eq (mem s) (mem s2) q"
    if "valid_page s q" "q \<notin> F - F2" "q \<notin> pt_pages (mem s) 2 pt" for q
  proof -
    have "q \<noteq> pg" "q \<notin> pt_pages (mem s2) 2 pt" using that g(1,2) f(2) by blast+
    then show ?thesis
      using f(12) [OF that(1)] g(6) [OF that(1)] page_eq_trans [of "mem s" _ q "mem s2"] by simp blast
  qed
  ultimately have "page_added pt a pg perm s F s2 F2"
    unfolding page_added_def
    by (intro conjI) (use g f(2) pg s2(4) f(6) in \<open>blast | simp\<close>)+
  then show ?thesis using that f(1,3,4) s2(1) pt_grow_inv [OF s2(2)] pgn by blast
qed


lemma uvm_inv_added:
  assumes inv: "uvm_inv s F pt lim" and add: "page_added pt a pg perm s F s' F'"
    and pt: "pt_inv s' F' 2 pt" and pg: "valid_page s pg" "pg \<notin> pt_pages (mem s') 2 pt"
    and perm: "PTE_FLAGS perm = perm"
  shows "uvm_inv s' F' pt lim"
proof -
  have lim: "lim \<le> MAXVA" using inv by (simp add: uvm_inv_def)
  have K: "kalloc_inv s F" using inv by (simp add: uvm_inv_def pt_inv_def)
  have d: "pg \<in> F" "valid_page s' = valid_page s" "page_refs s' pg = 1"
    "pt_pages (mem s') 2 pt \<subseteq> pt_pages (mem s) 2 pt \<union> (F - F')"
    "\<And>q. valid_page s q \<Longrightarrow> q \<notin> F - F' \<Longrightarrow> q \<notin> pt_pages (mem s) 2 pt \<Longrightarrow> page_refs s' q = page_refs s q"
    using add unfolding page_added_def by blast+
  have split: "w = PA2PTE pg OR perm OR PTE_V \<and> PTE2PA w = pg \<and> PGROUNDDOWN va = a \<or>
      pt_map s pt va = Some w \<and> PTE2PA w \<notin> F \<and> PTE2PA w \<notin> pt_pages (mem s) 2 pt \<and>
      valid_page s (PTE2PA w) \<and> 1 \<le> page_refs s (PTE2PA w)"
    if "va < lim" "pt_map s' pt va = Some w" for va w
  proof (cases "PGROUNDDOWN va = a")
    case True
    then show ?thesis
      using add that lim PTE2PA_leaf(1) [OF pg(1) perm] unfolding page_added_def by auto
  next
    case False
    then have w: "pt_map s pt va = Some w" using add that lim unfolding page_added_def by auto
    then show ?thesis
      using uvm_inv_page [OF inv that(1) w] kalloc_inv_page [OF K, of "PTE2PA w"] by auto
  qed
  show ?thesis
    unfolding uvm_inv_def
  proof (intro conjI allI impI)
    show "pt_inv s' F' 2 pt" "lim \<le> MAXVA" by fact+
    fix va w assume "va < lim" "pt_map s' pt va = Some w"
    from split [OF this] show "valid_page s' (PTE2PA w)" "1 \<le> page_refs s' (PTE2PA w)"
        "PTE2PA w \<notin> pt_pages (mem s') 2 pt"
      using d pg by auto
  next
    fix va va' w w'
    assume h: "va < lim" "va' < lim" "pt_map s' pt va = Some w" "pt_map s' pt va' = Some w'" "PTE2PA w = PTE2PA w'"
    from split [OF h(1,3)] split [OF h(2,4)] show "PGROUNDDOWN va = PGROUNDDOWN va'"
      using h(5) d(1) uvm_inv_inj [OF inv h(1) _ h(2), of w w'] by auto
  qed
qed

section \<open>uvmalloc\<close>

definition range_filled :: "u64 \<Rightarrow> u64 \<Rightarrow> u64 \<Rightarrow> u64 \<Rightarrow> 'z kmem_scheme \<Rightarrow> u64 set \<Rightarrow> 'z kmem_scheme \<Rightarrow> u64 set \<Rightarrow> bool" where
  "range_filled pt a e perm s F s' F' \<longleftrightarrow> F' \<subseteq> F \<and>
     (\<forall>va<MAXVA. if a \<le> va \<and> va < e
        then \<exists>pg\<in>F - F'. pt_map s' pt va = Some (PA2PTE pg OR perm OR PTE_V) \<and> page_refs s' pg = 1 \<and>
               zero_page (mem s') pg
        else pt_map s' pt va = pt_map s pt va) \<and>
     valid_page s' = valid_page s \<and> kend s' = kend s \<and> tp s' = tp s \<and>
     pt_pages (mem s') 2 pt \<subseteq> pt_pages (mem s) 2 pt \<union> (F - F') \<and>
     (\<forall>q. valid_page s q \<longrightarrow> q \<notin> F - F' \<longrightarrow> q \<notin> pt_pages (mem s) 2 pt \<longrightarrow>
        page_refs s' q = page_refs s q \<and> page_eq (mem s) (mem s') q)"

lemma range_filled_step:
  assumes a: "pg_aligned a" "unat e = unat a + 4096 * Suc n"
    and one: "page_added pt a pg perm s F s2 F2" "valid_page s pg" "pg \<notin> pt_pages (mem s2) 2 pt"
    and rest: "range_filled pt (a + PGSIZE) e perm s2 F2 s' F'"
  shows "range_filled pt a e perm s F s' F'"
proof -
  note sp = page_range_split [OF a]
  have o: "F2 \<subseteq> F" "pg \<in> F - F2" "page_refs s2 pg = 1" "zero_page (mem s2) pg" "valid_page s2 = valid_page s"
    "kend s2 = kend s" "tp s2 = tp s" "pt_pages (mem s2) 2 pt \<subseteq> pt_pages (mem s) 2 pt \<union> (F - F2)"
    "\<And>va. va < MAXVA \<Longrightarrow> pt_map s2 pt va =
        (if PGROUNDDOWN va = a then Some (PA2PTE pg OR perm OR PTE_V) else pt_map s pt va)"
    "\<And>q. valid_page s q \<Longrightarrow> q \<notin> F - F2 \<Longrightarrow> q \<notin> pt_pages (mem s) 2 pt \<Longrightarrow>
        page_refs s2 q = page_refs s q \<and> page_eq (mem s) (mem s2) q"
    using one(1) unfolding page_added_def by blast+
  have r: "F' \<subseteq> F2" "valid_page s' = valid_page s" "kend s' = kend s" "tp s' = tp s"
    "pt_pages (mem s') 2 pt \<subseteq> pt_pages (mem s2) 2 pt \<union> (F2 - F')"
    "\<And>q. valid_page s q \<Longrightarrow> q \<notin> F2 - F' \<Longrightarrow> q \<notin> pt_pages (mem s2) 2 pt \<Longrightarrow>
        page_refs s' q = page_refs s2 q \<and> page_eq (mem s2) (mem s') q"
    using rest o(5-7) unfolding range_filled_def by auto
  have rm: "if a + PGSIZE \<le> va \<and> va < e
      then \<exists>pg\<in>F2 - F'. pt_map s' pt va = Some (PA2PTE pg OR perm OR PTE_V) \<and> page_refs s' pg = 1 \<and> zero_page (mem s') pg
      else pt_map s' pt va = pt_map s2 pt va" if "va < MAXVA" for va
    using rest that unfolding range_filled_def by blast
  have keep: "page_refs s' pg = 1" "zero_page (mem s') pg"
    using r(6) [OF one(2) _ one(3)] o(2-4) zero_page_cong by auto
  have "if a \<le> va \<and> va < e
      then \<exists>pg\<in>F - F'. pt_map s' pt va = Some (PA2PTE pg OR perm OR PTE_V) \<and> page_refs s' pg = 1 \<and> zero_page (mem s') pg
      else pt_map s' pt va = pt_map s pt va" if va: "va < MAXVA" for va
  proof (cases "PGROUNDDOWN va = a")
    case True
    then have "pt_map s' pt va = Some (PA2PTE pg OR perm OR PTE_V)"
      using rm [OF va] o(9) [OF va] sp(2) [of va] by auto
    then show ?thesis using sp(1) [of va] True keep o(2) r(1) by auto
  next
    case False
    then have "a \<le> va \<and> va < e \<longleftrightarrow> a + PGSIZE \<le> va \<and> va < e" "pt_map s2 pt va = pt_map s pt va"
      using sp(1) [of va] o(9) [OF va] by auto
    with rm [OF va] o(1) show ?thesis
      by (cases "a + PGSIZE \<le> va \<and> va < e") (auto 4 3 intro: bexI)
  qed
  moreover have "page_refs s' q = page_refs s q \<and> page_eq (mem s) (mem s') q"
    if "valid_page s q" "q \<notin> F - F'" "q \<notin> pt_pages (mem s) 2 pt" for q
  proof -
    have "q \<notin> F - F2" "q \<notin> F2 - F'" "q \<notin> pt_pages (mem s2) 2 pt" using that o(1,8) r(1) by blast+
    with o(10) [OF that(1) _ that(3)] r(6) [OF that(1)] show ?thesis
      using page_eq_trans [of "mem s" "mem s2" q "mem s'"] by simp
  qed
  ultimately show ?thesis
    unfolding range_filled_def using r(1-5) o(1,8) by blast
qed


lemma uvmalloc_loop_ok:
  assumes "uvm_inv s F pt lim" "pg_aligned a" "unat (PGROUNDUP newsz) = unat a + 4096 * n"
    "unat newsz + 4095 < 2 ^ 64" "PGROUNDUP newsz \<le> lim" "PTE_FLAGS xperm = xperm" "3 * n \<le> card F"
    "\<And>va. a \<le> va \<Longrightarrow> va < PGROUNDUP newsz \<Longrightarrow> pt_map s pt va = None"
  shows "\<exists>s' F'. uvmalloc_loop pt oldsz newsz xperm a s = Inr (newsz, s') \<and> uvm_inv s' F' pt lim \<and>
    range_filled pt a (PGROUNDUP newsz) (PTE_R OR PTE_U OR xperm) s F s' F'"
  using assms
proof (induction n arbitrary: a s F)
  case 0
  have up: "unat (PGROUNDUP newsz) = 4096 * ((unat newsz + 4095) div 4096)"
    using 0(4) by (rule unat_PGROUNDUP)
  have e: "PGROUNDUP newsz = a" using 0(3) by (simp add: word_unat_eq_iff)
  then have "\<not> a < newsz" using up 0(3) by (simp add: word_less_nat_alt)
  moreover have "range_filled pt a (PGROUNDUP newsz) (PTE_R OR PTE_U OR xperm) s F s F"
    using e by (auto simp: range_filled_def)
  ultimately show ?case using 0(1) by (subst uvmalloc_loop.simps) auto
next
  case (Suc n)
  let ?e = "PGROUNDUP newsz" and ?perm = "PTE_R OR PTE_U OR xperm"
  note sp = page_range_split [OF Suc.prems(2,3)]
  have lt: "a < newsz"
    using Suc.prems(2,3) unat_PGROUNDUP [OF Suc.prems(4)] by (auto simp: word_less_nat_alt elim!: pg_alignedE)
  have aM: "a < MAXVA" using sp(3) Suc.prems(1,5) by (auto simp: uvm_inv_def)
  have na: "pt_map s pt a = None" using Suc.prems(8) [of a] sp(3) by simp
  have perm: "PTE_FLAGS ?perm = ?perm"
    using Suc.prems(6) by (simp add: PTE_FLAGS_def riscv_consts bit.conj_disj_distrib2)
  have "3 \<le> card F" using Suc.prems(7) by simp
  then obtain pg s1 s2 F2 where o: "kalloc s = Inr (pg, s1)" "pg \<noteq> 0" "valid_page s pg"
    "mappages pt a PGSIZE pg ?perm (s1\<lparr>mem := memset (mem s1) pg 0 4096\<rparr>) = Inr (0, s2)"
    "page_added pt a pg ?perm s F s2 F2" "pt_inv s2 F2 2 pt" "pg \<notin> pt_pages (mem s2) 2 pt"
    by (rule alloc_map_one [OF uvm_inv_pt [OF Suc.prems(1)] Suc.prems(2) aM na]) blast
  have inv2: "uvm_inv s2 F2 pt lim" using uvm_inv_added [OF Suc.prems(1) o(5,6,3,7) perm] .
  have "card F \<le> card F2 + 3" using o(5) by (simp add: page_added_def)
  then have "3 * n \<le> card F2" using Suc.prems(7) by simp
  moreover have "pt_map s2 pt va = None" if "a + PGSIZE \<le> va" "va < ?e" for va
  proof -
    have "va < MAXVA" using that Suc.prems(5) inv2 by (auto simp: uvm_inv_def)
    then show ?thesis
      using o(5) that sp(1,2) [of va] Suc.prems(8) [of va] unfolding page_added_def by auto
  qed
  ultimately obtain s' F' where "uvmalloc_loop pt oldsz newsz xperm (a + PGSIZE) s2 = Inr (newsz, s')"
      "uvm_inv s' F' pt lim" "range_filled pt (a + PGSIZE) ?e ?perm s2 F2 s' F'"
    using Suc.IH [OF inv2 sp(4,5) Suc.prems(4,5,6)] by blast
  moreover have "uvmalloc_loop pt oldsz newsz xperm a s = uvmalloc_loop pt oldsz newsz xperm (a + PGSIZE) s2"
    using lt o(1,2,4) by (subst uvmalloc_loop.simps) simp
  ultimately show ?case using range_filled_step [OF Suc.prems(2,3) o(5,3,7)] by auto
qed


lemma PGROUNDUP_mono:
  assumes "oldsz \<le> newsz" "unat newsz + 4095 < 2 ^ 64"
  shows "PGROUNDUP oldsz \<le> PGROUNDUP newsz"
proof -
  have "unat oldsz \<le> unat newsz" using assms(1) by (simp add: word_le_nat_alt)
  then have "(unat oldsz + 4095) div 4096 \<le> (unat newsz + 4095) div 4096" by (intro div_le_mono) simp
  then show ?thesis
    using unat_PGROUNDUP [of oldsz] unat_PGROUNDUP [of newsz] assms \<open>unat oldsz \<le> unat newsz\<close>
    by (simp add: word_le_nat_alt)
qed

lemma MAXVA_no_wrap: "x \<le> lim \<Longrightarrow> lim \<le> MAXVA \<Longrightarrow> unat x + 4095 < 2 ^ 64"
  by (simp add: word_le_nat_alt)

definition new_pages :: "u64 \<Rightarrow> u64 \<Rightarrow> nat" where
  "new_pages oldsz newsz = (unat (PGROUNDUP newsz) - unat (PGROUNDUP oldsz)) div 4096"

lemma uvmalloc_ok:
  assumes inv: "uvm_inv s F pt lim" and sz: "oldsz \<le> newsz" "newsz \<le> lim" "PGROUNDUP newsz \<le> lim"
    and perm: "PTE_FLAGS xperm = xperm" and F: "3 * new_pages oldsz newsz \<le> card F"
    and none: "\<And>va. PGROUNDUP oldsz \<le> va \<Longrightarrow> va < PGROUNDUP newsz \<Longrightarrow> pt_map s pt va = None"
  obtains s' F' where "uvmalloc pt oldsz newsz xperm s = Inr (newsz, s')" "uvm_inv s' F' pt lim"
    "range_filled pt (PGROUNDUP oldsz) (PGROUNDUP newsz) (PTE_R OR PTE_U OR xperm) s F s' F'"
proof -
  have w: "unat newsz + 4095 < 2 ^ 64" using inv sz(2) MAXVA_no_wrap by (auto simp: uvm_inv_def)
  note ad = aligned_diff_div(2) [OF PGROUNDUP_aligned PGROUNDUP_aligned PGROUNDUP_mono [OF sz(1) w]]
  have "\<not> newsz < oldsz" using sz(1) by simp
  then show ?thesis
    using uvmalloc_loop_ok [OF inv PGROUNDUP_aligned ad w sz(3) perm _ none] F that
    by (auto simp: uvmalloc_def new_pages_def)
qed

lemma uvmdealloc_ok:
  assumes inv: "uvm_inv s F pt lim" and sz: "newsz < oldsz" "oldsz \<le> lim" "PGROUNDUP oldsz \<le> lim"
  obtains s' F' where "uvmdealloc pt oldsz newsz s = Inr (newsz, s')" "uvm_inv s' F' pt lim" "F \<subseteq> F'"
    "range_unmapped pt (PGROUNDUP newsz) (PGROUNDUP oldsz) s s'"
proof (cases "PGROUNDUP newsz = PGROUNDUP oldsz")
  case True
  then have "range_pages s pt (PGROUNDUP newsz) (PGROUNDUP oldsz) = {}" by (auto simp: range_pages_def)
  then have "range_unmapped pt (PGROUNDUP newsz) (PGROUNDUP oldsz) s s"
    using True by (auto simp: range_unmapped_def)
  moreover have "\<not> oldsz \<le> newsz" using sz(1) by simp
  then have "uvmdealloc pt oldsz newsz s = Inr (newsz, s)" using True by (simp add: uvmdealloc_def)
  ultimately show ?thesis using that inv by blast
next
  case False
  have lim: "lim \<le> MAXVA" using inv by (simp add: uvm_inv_def)
  have w: "unat oldsz + 4095 < 2 ^ 64" using MAXVA_no_wrap [OF sz(2) lim] .
  have le: "PGROUNDUP newsz \<le> PGROUNDUP oldsz" using PGROUNDUP_mono [OF _ w] sz(1) by simp
  let ?n = "new_pages newsz oldsz"
  have d: "unat ((PGROUNDUP oldsz - PGROUNDUP newsz) div PGSIZE) = ?n"
    "unat (PGROUNDUP oldsz) = unat (PGROUNDUP newsz) + 4096 * ?n"
    using aligned_diff_div [OF PGROUNDUP_aligned PGROUNDUP_aligned le] by (simp_all add: new_pages_def)
  have up: "unat (PGROUNDUP oldsz) \<le> unat lim" "unat lim \<le> 2 ^ 38"
    using sz(3) lim by (simp_all add: word_le_nat_alt)
  then have n: "unat ((PGROUNDUP oldsz - PGROUNDUP newsz) div PGSIZE) < 2 ^ 31" using d by simp
  have np: "(scast (ucast ((PGROUNDUP oldsz - PGROUNDUP newsz) div PGSIZE) :: u32) :: u64) = of_nat ?n"
    using scast_ucast_small [OF n] d(1) by (metis of_nat_unat ucast_id)
  have "unat (PGROUNDUP newsz) + 4096 * ?n \<le> unat lim" using d(2) up(1) by simp
  from uvmunmap_ok [OF inv PGROUNDUP_aligned this np]
  obtain s' F' where u: "uvmunmap pt (PGROUNDUP newsz)
        (scast (ucast ((PGROUNDUP oldsz - PGROUNDUP newsz) div PGSIZE) :: u32)) True s = Inr s'"
      "uvm_inv s' F' pt lim" "F \<subseteq> F'"
      "range_unmapped pt (PGROUNDUP newsz) (PGROUNDUP newsz + of_nat ?n * PGSIZE) s s'" by blast
  have "PGROUNDUP newsz + of_nat ?n * PGSIZE = PGROUNDUP oldsz"
    using d up by (intro unat_eqD) (simp add: unat_word_ariths unat_of_nat PGSIZE_def mult.commute)
  moreover have "\<not> oldsz \<le> newsz" "PGROUNDUP newsz < PGROUNDUP oldsz" using sz(1) le False by simp_all
  then have "uvmdealloc pt oldsz newsz s = Inr (newsz, s')" using u(1) by (simp add: uvmdealloc_def)
  ultimately show ?thesis using that u(2-4) by metis
qed


section \<open>vmfault\<close>

lemma ismapped_ok:
  assumes "pt_inv s F 2 pt" "va < MAXVA"
  shows "ismapped pt va s = Inr (pt_map s pt va \<noteq> None)"
proof -
  obtain pte where "walk pt va False s = Inr (pte, s)"
    "pt_map s pt va = (if pte \<noteq> 0 \<and> pte_v (ld64 (mem s) pte) then Some (ld64 (mem s) pte) else None)"
    using walk_lookup_map [OF assms] by metis
  then show ?thesis by (auto simp: ismapped_def pte_v_def)
qed

lemma walkaddr_ok:
  assumes "pt_inv s F 2 pt"
  shows "walkaddr pt va s = Inr (if va \<ge> MAXVA then 0 else
    case pt_map s pt va of None \<Rightarrow> 0 | Some e \<Rightarrow> if e AND PTE_U = 0 then 0 else PTE2PA e)"
proof (cases "va \<ge> MAXVA")
  case True
  then show ?thesis by (simp add: walkaddr_def)
next
  case False
  then have va: "va < MAXVA" by simp
  obtain pte where "walk pt va False s = Inr (pte, s)"
    "pt_map s pt va = (if pte \<noteq> 0 \<and> pte_v (ld64 (mem s) pte) then Some (ld64 (mem s) pte) else None)"
    using walk_lookup_map [OF assms va] by metis
  then show ?thesis using False by (simp add: walkaddr_def pte_v_def Let_def)
qed

section \<open>A concrete address space\<close>

text \<open>
  \<open>pool n\<close>: all pages start with one reference and zeroes, and \<open>n\<close> pages from 0x80200000 have been
  freed.
\<close>

definition pool_page :: "nat \<Rightarrow> u64" where
  "pool_page i = 0x80200000 + 4096 * of_nat i"

primrec pool :: "nat \<Rightarrow> kmem" where
  "pool 0 = \<lparr>mem = (\<lambda>_. 0), freelist = replicate 8 0, refcnt = (\<lambda>_. 1), kend = 0x80100000, tp = 0\<rparr>"
| "pool (Suc n) = projr (kfree (pool_page n) (pool n))"

lemma unat_pool_page: "i < 1000 \<Longrightarrow> unat (pool_page i) = 0x80200000 + 4096 * i"
  by (simp add: pool_page_def unat_word_ariths unat_of_nat)

lemma pool_0: "kalloc_inv (pool 0) {}"
  unfolding kalloc_inv_def
  by (intro exI [of _ "\<lambda>_. []"]) (simp add: kalloc_rep_def free_in_def riscv_consts)

lemma pool_page_valid:
  assumes "i < 1000" "kend s = 0x80100000"
  shows "valid_page s (pool_page i)"
proof -
  have u: "unat (pool_page i) = 4096 * (0x80200 + i)" using unat_pool_page [OF assms(1)] by simp
  then show "valid_page s (pool_page i)"
    using assms by (auto simp: valid_page_def pg_aligned_unat riscv_consts word_le_nat_alt word_less_nat_alt)
qed

lemma pool_page_inj:
  assumes "i < 1000" "j < 1000" "pool_page i = pool_page j"
  shows "i = j"
proof -
  have "0x80200000 + 4096 * i = 0x80200000 + 4096 * j"
    unfolding unat_pool_page [OF assms(1), symmetric] unat_pool_page [OF assms(2), symmetric]
    by (simp only: assms(3))
  then show "i = j" by simp
qed

text \<open>The pages that have not been freed have one reference and are all zero.\<close>

lemma pool_inv:
  assumes "n < 1000"
  shows "kalloc_inv (pool n) (pool_page ` {..<n}) \<and> kend (pool n) = 0x80100000 \<and> tp (pool n) = 0 \<and>
    (\<forall>q. valid_page (pool n) q \<longrightarrow> q \<notin> pool_page ` {..<n} \<longrightarrow>
       page_refs (pool n) q = 1 \<and> page_eq (\<lambda>_. 0) (mem (pool n)) q)"
  using assms
proof (induction n)
  case 0
  show ?case using pool_0 by (simp add: page_refs_def)
next
  case (Suc n)
  then have ih: "kalloc_inv (pool n) (pool_page ` {..<n})" "kend (pool n) = 0x80100000" "tp (pool n) = 0"
    "\<And>q. valid_page (pool n) q \<Longrightarrow> q \<notin> pool_page ` {..<n} \<Longrightarrow>
       page_refs (pool n) q = 1 \<and> page_eq (\<lambda>_. 0) (mem (pool n)) q" "n < 1000" by auto
  have v: "valid_page (pool n) (pool_page n)" using pool_page_valid [OF ih(5,2)] .
  have new: "pool_page n \<notin> pool_page ` {..<n}"
  proof
    assume "pool_page n \<in> pool_page ` {..<n}"
    then obtain i where i: "i < n" "pool_page n = pool_page i" by blast
    then have "i < 1000" using ih(5) by simp
    from pool_page_inj [OF ih(5) this i(2)] show False using i(1) by simp
  qed
  obtain s' where s': "kfree (pool_page n) (pool n) = Inr s'" "kalloc_inv s' (insert (pool_page n) (pool_page ` {..<n}))"
    "valid_page s' = valid_page (pool n)" "page_refs s' (pool_page n) = 0" "kend s' = kend (pool n)" "tp s' = tp (pool n)"
    "\<And>q. valid_page (pool n) q \<Longrightarrow> q \<noteq> pool_page n \<Longrightarrow>
       page_refs s' q = page_refs (pool n) q \<and> page_eq (mem (pool n)) (mem s') q"
    by (rule kalloc_inv_free [OF ih(1) v conjunct1 [OF ih(4) [OF v new]]]) blast
  have "pool (Suc n) = s'" using s'(1) by simp
  moreover have pages: "insert (pool_page n) (pool_page ` {..<n}) = pool_page ` {..<Suc n}" by (auto simp: lessThan_Suc)
  moreover have "page_refs s' q = 1 \<and> page_eq (\<lambda>_. 0) (mem s') q"
    if "valid_page s' q" "q \<notin> pool_page ` {..<Suc n}" for q
  proof -
    have "q \<noteq> pool_page n" "q \<notin> pool_page ` {..<n}" using that(2) pages by auto
    then show ?thesis
      using s'(7) [of q] ih(4) [of q] that(1) s'(3) page_eq_trans [of "\<lambda>_. 0" "mem (pool n)" q "mem s'"] by auto
  qed
  ultimately show ?case using s'(2,5,6) ih(2,3) by simp
qed

lemma pool_card:
  assumes "n < 1000"
  shows "card (pool_page ` {..<n}) = n"
proof -
  have "inj_on pool_page {..<n}" using assms pool_page_inj by (intro inj_onI) auto
  then show ?thesis using card_image by fastforce
qed

text \<open>Two empty page tables.\<close>

definition root :: u64 where
  "root = 0x80100000"

definition root2 :: u64 where
  "root2 = 0x80101000"

lemma root_valid:
  assumes "n < 1000" "p = root \<or> p = root2"
  shows "valid_page (pool n) p" "p \<notin> pool_page ` {..<n}"
proof -
  show "valid_page (pool n) p"
    using assms pool_inv [OF assms(1)] by (auto simp: valid_page_def root_def root2_def pg_aligned_def riscv_consts)
  have "unat p < 0x80200000" using assms(2) by (auto simp: root_def root2_def)
  then show "p \<notin> pool_page ` {..<n}" using unat_pool_page assms(1) by auto
qed

lemma pool_pt:
  assumes "n < 1000" "p = root \<or> p = root2"
  shows "pt_inv (pool n) (pool_page ` {..<n}) 2 p" "pt_map (pool n) p va = None"
    "uvm_inv (pool n) (pool_page ` {..<n}) p MAXVA" "pt_pages (mem (pool n)) 2 p = {p}"
proof -
  note v = root_valid [OF assms]
  have ref: "page_refs (pool n) p = 1" "page_eq (\<lambda>_. 0) (mem (pool n)) p" "kalloc_inv (pool n) (pool_page ` {..<n})"
    using pool_inv [OF assms(1)] v by auto
  have z: "pte_at (mem (pool n)) p j = 0" if "j < 512" for j
    using pte_at_cong [OF ref(2) valid_page_aligned [OF v(1)] that] by (simp add: pte_at_def)
  note e = pt_empty [of "mem (pool n)" p 2, OF z]
  show "pt_inv (pool n) (pool_page ` {..<n}) 2 p"
    using e ref v by (simp add: pt_inv_def pt_owned_def)
  show m: "pt_map (pool n) p va = None" for va using e(3) by (simp add: pt_map_def)
  show "pt_pages (mem (pool n)) 2 p = {p}" using e(2) .
  show "uvm_inv (pool n) (pool_page ` {..<n}) p MAXVA"
    using \<open>pt_inv (pool n) (pool_page ` {..<n}) 2 p\<close> m by (simp add: uvm_inv_def)
qed

section \<open>Properties\<close>

text \<open>
  C21. \<^verbatim>\<open>mappages\<close> of \<open>n + 1\<close> unmapped pages below \<^verbatim>\<open>MAXVA\<close>, with two free pages for each, succeeds.
  Exactly the pages of the range are mapped, in order, to the physical pages from \<^verbatim>\<open>pa\<close> with the
  given permissions; the table stays a tree of singly referenced pages, and pages outside the
  table keep their content and count.
\<close>

theorem mappages_maps_range:
  assumes "pt_inv s F 2 pt" "pg_aligned va" "unat sz = 4096 * Suc n" "unat va + unat sz \<le> 2 ^ 38"
    "\<And>x. in_range va (va + sz - PGSIZE) x \<Longrightarrow> pt_map s pt x = None" "2 * Suc n \<le> card F"
  shows "\<exists>s' F'. mappages pt va sz pa perm s = Inr (0, s') \<and> pt_grow s F 2 pt s' F' \<and>
    (\<forall>x<MAXVA. pt_map s' pt x = (if in_range va (va + sz - PGSIZE) x
       then Some (PA2PTE (pa + (PGROUNDDOWN x - va)) OR perm OR PTE_V) else pt_map s pt x))"
proof -
  let ?l = "va + sz - PGSIZE"
  have "unat (va + sz) = unat va + 4096 * Suc n" using assms(3,4) by (simp add: unat_word_ariths)
  then have l: "unat ?l = unat va + 4096 * n" by (simp add: unat_sub_if' PGSIZE_def)
  have al: "sz mod PGSIZE = 0" "sz \<noteq> 0"
    using pg_aligned_unat [of sz] assms(3) by (auto simp: pg_aligned_def PGSIZE_def)
  have un: "mappages pt va sz pa perm s = mappages_loop pt va ?l pa perm s"
    using assms(2) al by (simp add: mappages_def panic_if_def pg_aligned_def PGSIZE_def)
  have "?l < MAXVA" using l assms(3,4) by (simp add: word_less_nat_alt)
  then obtain s' where s': "mappages_loop pt va ?l pa perm s = Inr (0, s')"
    using mappages_loop_total [OF assms(1,2) l _ _ assms(6)] assms(5) by blast
  from mappages_loop_ok [OF assms(1,2) l this] show ?thesis
    using un s' by (auto simp: range_mapped_def)
qed

theorem mappages_maps_range_witness:
  "\<exists>s'. mappages root 0x5000 0x2000 0x80200000 PTE_R (pool 4) = Inr (0, s') \<and>
     pt_map s' root 0x6123 = Some (PA2PTE 0x80201000 OR PTE_R OR PTE_V) \<and> pt_map s' root 0x7000 = None"
proof -
  have "pg_aligned 0x5000" "unat (0x2000 :: u64) = 4096 * Suc 1" "unat (0x5000 :: u64) + unat (0x2000 :: u64) \<le> 2 ^ 38"
    by (simp_all add: pg_aligned_def)
  moreover have "in_range 0x5000 (0x5000 + 0x2000 - PGSIZE) 0x6123" "\<not> in_range 0x5000 (0x5000 + 0x2000 - PGSIZE) 0x7000"
    "PGROUNDDOWN 0x6123 = 0x6000" "(0x6123 :: u64) < MAXVA" "(0x7000 :: u64) < MAXVA"
    by (simp_all add: in_range_def PGROUNDDOWN_def riscv_consts)
  ultimately show ?thesis
    using mappages_maps_range [of "pool 4" "pool_page ` {..<4}" root "0x5000" "0x2000" 1 "0x80200000" PTE_R]
      pool_pt [of 4 root] pool_card [of 4] by auto
qed

text \<open>
  C20. \<^verbatim>\<open>uvmalloc\<close> with three free pages for every page to add succeeds and returns the new size:
  every page of the new part is a distinct fresh page of zeroes with one reference, mapped
  with the permissions asked for; all other mappings and all other pages stay.
\<close>

theorem uvmalloc_grows:
  assumes "uvm_inv s F pt lim" "oldsz \<le> newsz" "newsz \<le> lim" "PGROUNDUP newsz \<le> lim"
    "PTE_FLAGS xperm = xperm" "3 * new_pages oldsz newsz \<le> card F"
    "\<And>va. PGROUNDUP oldsz \<le> va \<Longrightarrow> va < PGROUNDUP newsz \<Longrightarrow> pt_map s pt va = None"
  shows "\<exists>s' F'. uvmalloc pt oldsz newsz xperm s = Inr (newsz, s') \<and> uvm_inv s' F' pt lim \<and>
    range_filled pt (PGROUNDUP oldsz) (PGROUNDUP newsz) (PTE_R OR PTE_U OR xperm) s F s' F'"
  using uvmalloc_ok [OF assms] by blast

theorem uvmalloc_grows_witness:
  "\<exists>s' F'. uvmalloc root 0 0x1800 PTE_W (pool 6) = Inr (0x1800, s') \<and> uvm_inv s' F' root MAXVA \<and>
     pt_map s' root 0x1fff \<noteq> None \<and> pt_map s' root 0x2000 = None"
proof -
  have r: "PGROUNDUP 0 = 0" "PGROUNDUP 0x1800 = 0x2000" by (simp_all add: PGROUNDUP_def riscv_consts)
  have "new_pages 0 0x1800 = 2" by (simp add: new_pages_def r)
  moreover have "(0x1800 :: u64) \<le> MAXVA" "(0x2000 :: u64) \<le> MAXVA" "(0x1fff :: u64) < MAXVA" "(0x2000 :: u64) < MAXVA"
    "PTE_FLAGS PTE_W = PTE_W"
    by (simp_all add: riscv_consts PTE_FLAGS_def)
  ultimately obtain s' F' where "uvmalloc root 0 0x1800 PTE_W (pool 6) = Inr (0x1800, s')" "uvm_inv s' F' root MAXVA"
      "range_filled root 0 0x2000 (PTE_R OR PTE_U OR PTE_W) (pool 6) (pool_page ` {..<6}) s' F'"
    using uvmalloc_grows [OF pool_pt(3) [of 6 root], of 0 "0x1800" PTE_W] pool_pt(2) [of 6 root] pool_card [of 6] r by auto
  moreover from this(3) have "pt_map s' root 0x1fff \<noteq> None" "pt_map s' root 0x2000 = None"
    using pool_pt(2) [of 6 root] \<open>(0x1fff :: u64) < MAXVA\<close> \<open>(0x2000 :: u64) < MAXVA\<close>
    unfolding range_filled_def by (force, force)
  ultimately show ?thesis by blast
qed



end
