(* ===== verification/Cow.thy ===== *)
theory Cow
  imports Uvm
begin

text \<open>
  Copy-on-write \<^verbatim>\<open>fork\<close> (\<^verbatim>\<open>uvmcopy\<close>): parent and child share every page read-only, each page
  gains a reference, and no page content changes.
\<close>

unbundle bit_operations_syntax

section \<open>Copy-on-write entries\<close>

definition cow_pte :: "u64 \<Rightarrow> u64" where
  "cow_pte v = (if PTE_FLAGS v AND PTE_W \<noteq> 0 then (v AND NOT PTE_W) OR PTE_COW else v)"

definition child_pte :: "u64 \<Rightarrow> u64" where
  "child_pte v = PA2PTE (PTE2PA v) OR PTE_FLAGS (cow_pte v) OR PTE_V"

lemma st64_st64 [simp]: "st64 (st64 m a v) a w = st64 m a w"
  by (rule ext) (simp add: st64_def mem_write_def)

lemma st64_ld64 [simp]: "st64 m a (ld64 m a) = m"
proof -
  have "le_bytes 8 (ld64 m a) = mem_read m a 8"
    using le_bytes_le_word [of "mem_read m a 8", where 'a = 64] by (simp add: ld64_def)
  then show ?thesis
    by (auto simp: st64_def mem_write_def fun_eq_iff)
qed

lemma cow_mark_eq: "cow_mark pte s = s\<lparr>mem := st64 (mem s) pte (cow_pte (ld64 (mem s) pte))\<rparr>"
  by (simp add: cow_mark_def cow_pte_def Let_def)

lemma cow_pte_bits:
  "PTE2PA (cow_pte v) = PTE2PA v" "pte_v (cow_pte v) = pte_v v" "cow_pte v AND PTE_W = 0"
  "cow_pte v AND PTE_U = v AND PTE_U" "v AND PTE_W \<noteq> 0 \<Longrightarrow> cow_pte v AND PTE_COW \<noteq> 0"
proof -
  have b: "bit (PTE_W :: u64) n \<longleftrightarrow> n = 2" "bit (PTE_COW :: u64) n \<longleftrightarrow> n = 8" "bit (PTE_V :: u64) n \<longleftrightarrow> n = 0"
    "bit (PTE_U :: u64) n \<longleftrightarrow> n = 4" for n
    unfolding PTE_W_def PTE_COW_def PTE_V_def PTE_U_def bit_push_bit_iff bit_1_iff possible_bit_word
    by auto
  have f: "PTE_FLAGS v AND PTE_W = v AND PTE_W"
    by (rule bit_word_eqI) (auto simp: PTE_FLAGS_def b bit_simps)
  show "PTE2PA (cow_pte v) = PTE2PA v"
    by (rule bit_word_eqI) (auto simp: PTE2PA_def cow_pte_def b bit_simps)
  have "cow_pte v AND PTE_V = v AND PTE_V"
    by (rule bit_word_eqI) (auto simp: cow_pte_def b bit_simps)
  then show "pte_v (cow_pte v) = pte_v v" by (simp add: pte_v_def)
  show "cow_pte v AND PTE_U = v AND PTE_U"
    by (rule bit_word_eqI) (auto simp: cow_pte_def b bit_simps)
  show "cow_pte v AND PTE_W = 0"
  proof (cases "PTE_FLAGS v AND PTE_W = 0")
    case True
    then show ?thesis using f by (simp add: cow_pte_def)
  next
    case False
    then show ?thesis by (intro bit_word_eqI) (auto simp: cow_pte_def b bit_simps)
  qed
  show "cow_pte v AND PTE_COW \<noteq> 0" if "v AND PTE_W \<noteq> 0"
  proof -
    have "bit (cow_pte v AND PTE_COW) 8" using that f by (simp add: cow_pte_def b bit_simps)
    then show ?thesis by auto
  qed
qed


lemma child_pte_facts:
  assumes "valid_page s (PTE2PA v)"
  shows "PTE2PA (child_pte v) = PTE2PA v" "pte_v (child_pte v)"
proof -
  have "PTE_FLAGS (PTE_FLAGS (cow_pte v)) = PTE_FLAGS (cow_pte v)"
    by (simp add: PTE_FLAGS_def and.assoc)
  then show "PTE2PA (child_pte v) = PTE2PA v"
    using PTE2PA_leaf(1) [OF assms] by (simp add: child_pte_def)
  show "pte_v (child_pte v)" by (simp add: child_pte_def pte_v_or)
qed

lemma kaddref_ok:
  assumes "kalloc_inv s F" "valid_page s p" "1 \<le> page_refs s p" "page_refs s p < 2147483647"
  obtains s' where "kaddref p s = Inr s'" "kalloc_inv s' F" "mem s' = mem s" "valid_page s' = valid_page s"
    "kend s' = kend s" "tp s' = tp s"
    "\<And>q. valid_page s q \<Longrightarrow> page_refs s' q = page_refs s q + of_bool (q = p)"
proof -
  let ?s = "s\<lparr>refcnt := (refcnt s)(ref_idx p := refcnt s (ref_idx p) + 1)\<rparr>"
  have K: "KERNBASE \<le> kend s" using kalloc_inv_KERNBASE [OF assms(1)] .
  have "kaddref p s = Inr ?s"
    using assms valid_page_ref_idx [OF assms(2) K] by (simp add: kaddref_def ref_get_def ref_set_def page_refs_def)
  moreover obtain fr where rep: "kalloc_rep s fr" "free_in fr = F" using assms(1) by (auto simp: kalloc_inv_def)
  have "kalloc_rep ?s fr"
  proof (rule kalloc_rep_frame [OF rep(1)])
    fix q assume q: "q \<in> free_in fr"
    then have "valid_page s q" "page_refs s q = 0" using kalloc_inv_page [OF assms(1), of q] rep(2) by auto
    moreover from this have "q \<noteq> p" using assms(3) by auto
    ultimately show "refcnt ?s (ref_idx q) = refcnt s (ref_idx q)" using ref_idx_inj [OF _ assms(2) K, of q] by simp
  qed simp_all
  then have "kalloc_inv ?s F" using rep(2) by (auto simp: kalloc_inv_def)
  moreover have "page_refs ?s q = page_refs s q + of_bool (q = p)" if "valid_page s q" for q
    using ref_idx_inj [OF that assms(2) K] by (simp add: page_refs_def)
  ultimately show ?thesis using that by (simp add: valid_page_def fun_eq_iff)
qed

section \<open>Sharing one page\<close>

definition fork_inv :: "'z kmem_scheme \<Rightarrow> u64 set \<Rightarrow> u64 \<Rightarrow> u64 \<Rightarrow> u64 \<Rightarrow> bool" where
  "fork_inv s F old new lim \<longleftrightarrow> uvm_inv s F old lim \<and> pt_inv s F 2 new \<and>
     pt_pages (mem s) 2 old \<inter> pt_pages (mem s) 2 new = {} \<and>
     (\<forall>va<lim. \<forall>e. pt_map s old va = Some e \<longrightarrow> PTE2PA e \<notin> pt_pages (mem s) 2 new) \<and>
     (\<forall>va<lim. \<forall>e'. pt_map s new va = Some e' \<longrightarrow> (\<exists>e. pt_map s old va = Some e \<and> PTE2PA e' = PTE2PA e))"

lemma uvm_inv_lim: "uvm_inv s F pt lim \<Longrightarrow> lim \<le> MAXVA"
  by (simp add: uvm_inv_def)

lemma fork_inv_old: "fork_inv s F old new lim \<Longrightarrow> uvm_inv s F old lim"
  by (simp add: fork_inv_def)

lemma fork_inv_new: "fork_inv s F old new lim \<Longrightarrow> pt_inv s F 2 new"
  by (simp add: fork_inv_def)

lemma fork_inv_child:
  assumes "fork_inv s F old new lim"
  shows "uvm_inv s F new lim"
proof -
  note old = fork_inv_old [OF assms] and new = fork_inv_new [OF assms] and lim = uvm_inv_lim [OF fork_inv_old [OF assms]]
  have e: "\<exists>e. pt_map s old va = Some e \<and> PTE2PA e' = PTE2PA e \<and> PTE2PA e \<notin> pt_pages (mem s) 2 new"
    if "va < lim" "pt_map s new va = Some e'" for va e'
    using assms that unfolding fork_inv_def by blast
  show ?thesis
    unfolding uvm_inv_def
  proof (intro conjI allI impI)
    fix va e' assume va: "va < lim" "pt_map s new va = Some e'"
    then obtain e0 where e0: "pt_map s old va = Some e0" "PTE2PA e' = PTE2PA e0" "PTE2PA e0 \<notin> pt_pages (mem s) 2 new"
      using e by blast
    from uvm_inv_page [OF old va(1) e0(1)] e0(2,3) show "valid_page s (PTE2PA e')" "1 \<le> page_refs s (PTE2PA e')"
        "PTE2PA e' \<notin> pt_pages (mem s) 2 new" by simp_all
  next
    fix va va' w w'
    assume h: "va < lim" "va' < lim" "pt_map s new va = Some w" "pt_map s new va' = Some w'" "PTE2PA w = PTE2PA w'"
    obtain x where x: "pt_map s old va = Some x" "PTE2PA w = PTE2PA x" using e [OF h(1,3)] by blast
    obtain y where y: "pt_map s old va' = Some y" "PTE2PA w' = PTE2PA y" using e [OF h(2,4)] by blast
    have "PTE2PA x = PTE2PA y" using h(5) x(2) y(2) by simp
    from uvm_inv_inj [OF old h(1) x(1) h(2) y(1) this] show "PGROUNDDOWN va = PGROUNDDOWN va'" .
  qed (use new lim in simp_all)
qed

definition page_shared :: "u64 \<Rightarrow> u64 \<Rightarrow> u64 \<Rightarrow> 'z kmem_scheme \<Rightarrow> u64 set \<Rightarrow> 'z kmem_scheme \<Rightarrow> u64 set \<Rightarrow> bool" where
  "page_shared old new i s F s' F' \<longleftrightarrow> F' \<subseteq> F \<and> card F \<le> card F' + 2 \<and>
     valid_page s' = valid_page s \<and> kend s' = kend s \<and> tp s' = tp s \<and>
     (\<forall>va<MAXVA. pt_map s' old va =
          (if PGROUNDDOWN va = i then map_option cow_pte (pt_map s old va) else pt_map s old va) \<and>
        pt_map s' new va =
          (if PGROUNDDOWN va = i then map_option child_pte (pt_map s old va) else pt_map s new va)) \<and>
     pt_pages (mem s') 2 old = pt_pages (mem s) 2 old \<and>
     pt_pages (mem s') 2 new \<subseteq> pt_pages (mem s) 2 new \<union> (F - F') \<and>
     (\<forall>q. valid_page s q \<longrightarrow> q \<notin> F - F' \<longrightarrow> q \<notin> pt_pages (mem s) 2 old \<union> pt_pages (mem s) 2 new \<longrightarrow>
        page_refs s' q = page_refs s q + of_bool (pt_map s old i \<noteq> None \<and> q = PTE2PA (the (pt_map s old i))) \<and>
        page_eq (mem s) (mem s') q)"

text \<open>The parent's entry, then the child's mapping, then the count.\<close>

lemma share_mark:
  assumes inv: "fork_inv s F old new lim" and i: "i < lim" "pt_map s old i = Some v"
    "pt_slot (mem s) 2 old i = Some pte" "v = ld64 (mem s) pte"
  shows "pt_inv (cow_mark pte s) F 2 old" "pt_inv (cow_mark pte s) F 2 new"
    "pt_pages (mem (cow_mark pte s)) 2 old = pt_pages (mem s) 2 old"
    "pt_pages (mem (cow_mark pte s)) 2 new = pt_pages (mem s) 2 new"
    "pt_map (cow_mark pte s) new = pt_map s new"
    "\<And>va. va < MAXVA \<Longrightarrow> pt_map (cow_mark pte s) old va =
      (if PGROUNDDOWN va = PGROUNDDOWN i then Some (cow_pte v) else pt_map s old va)"
    "\<And>q. valid_page s q \<Longrightarrow> q \<notin> pt_pages (mem s) 2 old \<Longrightarrow> page_eq (mem s) (mem (cow_mark pte s)) q"
proof -
  note old = uvm_inv_pt [OF fork_inv_old [OF inv]] and new = fork_inv_new [OF inv]
    and lim = uvm_inv_lim [OF fork_inv_old [OF inv]]
  let ?s = "s\<lparr>mem := st64 (mem s) pte (cow_pte v)\<rparr>"
  have s1: "cow_mark pte s = ?s" using i(4) by (simp add: cow_mark_eq)
  note g = pt_grow_store [OF old i(3), of "cow_pte v"]
  show "pt_inv (cow_mark pte s) F 2 old" unfolding s1 using g by (rule pt_grow_inv)
  show pages: "pt_pages (mem (cow_mark pte s)) 2 old = pt_pages (mem s) 2 old"
    unfolding s1 using g by (simp add: pt_grow_def)
  show eq: "page_eq (mem s) (mem (cow_mark pte s)) q" if "valid_page s q" "q \<notin> pt_pages (mem s) 2 old" for q
    using g that pages unfolding s1 pt_grow_def by auto
  have same: "page_refs ?s q = page_refs s q \<and> page_eq (mem s) (mem ?s) q" if "q \<in> pt_pages (mem s) 2 new" for q
    using eq [of q] pt_inv_owned(1) [OF new that] inv that unfolding s1 fork_inv_def by auto
  have K: "kalloc_inv ?s F" using g by (simp add: pt_grow_def pt_inv_def)
  note fr = pt_frame [OF new K valid_page_mem same]
  show "pt_inv (cow_mark pte s) F 2 new" "pt_pages (mem (cow_mark pte s)) 2 new = pt_pages (mem s) 2 new"
    unfolding s1 using fr(1,2) by blast+
  show "pt_map (cow_mark pte s) new = pt_map s new"
    unfolding s1 using fr(3) by (simp add: pt_map_def fun_eq_iff)
  have iM: "i < MAXVA" using i(1) lim by simp
  have "pte_v (cow_pte v)" using i(2) by (auto simp: cow_pte_bits pt_map_def pt_get_def split: option.splits if_splits)
  then show "pt_map (cow_mark pte s) old va =
      (if PGROUNDDOWN va = PGROUNDDOWN i then Some (cow_pte v) else pt_map s old va)" if "va < MAXVA" for va
    unfolding s1 using pt_map_store [OF old i(3) iM that, of "cow_pte v"] by auto
qed


text \<open>Counting a reference to a page outside a table leaves the table alone.\<close>

lemma pt_count:
  assumes inv: "pt_inv s F 2 pt" and s': "kalloc_inv s' F" "mem s' = mem s" "valid_page s' = valid_page s"
    and refs: "\<And>q. valid_page s q \<Longrightarrow> page_refs s' q = page_refs s q + of_bool (q = p)"
    and p: "p \<notin> pt_pages (mem s) 2 pt"
  shows "pt_inv s' F 2 pt" "pt_map s' pt = pt_map s pt"
proof -
  have same: "page_refs s' q = page_refs s q \<and> page_eq (mem s) (mem s') q" if "q \<in> pt_pages (mem s) 2 pt" for q
    using refs [OF pt_inv_owned(1) [OF inv that]] p that s'(2) by auto
  show "pt_inv s' F 2 pt" by (rule pt_frame(1) [OF inv s'(1,3) same])
  show "pt_map s' pt = pt_map s pt" by (rule ext) (simp add: pt_map_def s'(2))
qed

lemma share_one:
  assumes inv: "fork_inv s F old new lim" and i: "pg_aligned i" "i < lim" "pt_map s old i = Some v"
    "pt_slot (mem s) 2 old i = Some pte" "v = ld64 (mem s) pte" "pt_map s new i = None"
    and room: "2 \<le> card F" "page_refs s (PTE2PA v) < 2147483647"
  obtains s2 s3 F' where
    "mappages new i PGSIZE (PTE2PA v) (PTE_FLAGS (ld64 (mem (cow_mark pte s)) pte)) (cow_mark pte s) = Inr (0, s2)"
    "kaddref (PTE2PA v) s2 = Inr s3" "page_shared old new i s F s3 F'" "pt_inv s3 F' 2 old" "pt_inv s3 F' 2 new"
proof -
  let ?s1 = "cow_mark pte s" and ?pa = "PTE2PA v"
  note m = share_mark [OF inv i(2-5)]
  note old = fork_inv_old [OF inv]
  note pg = uvm_inv_page [OF old i(2,3)]
  have disj: "pt_pages (mem s) 2 old \<inter> pt_pages (mem s) 2 new = {}" "?pa \<notin> pt_pages (mem s) 2 new"
    using inv i(2,3) unfolding fork_inv_def by blast+
  have s1: "valid_page ?s1 = valid_page s" "page_refs ?s1 = page_refs s" "kend ?s1 = kend s" "tp ?s1 = tp s"
    "ld64 (mem ?s1) pte = cow_pte v"
    using i(5) by (simp_all add: cow_mark_eq)
  have iM: "i < MAXVA" using i(2) uvm_inv_lim [OF old] by simp
  have "pt_map ?s1 new i = None" using m(5) i(6) by simp
  then obtain s2 F' where s2: "mappages new i PGSIZE ?pa (PTE_FLAGS (cow_pte v)) ?s1 = Inr (0, s2)"
    "pt_grow ?s1 F 2 new s2 F'" "card (F - F') \<le> 2"
    "\<And>va'. va' < MAXVA \<Longrightarrow> pt_map s2 new va' =
      (if PGROUNDDOWN va' = i then Some (PA2PTE ?pa OR PTE_FLAGS (cow_pte v) OR PTE_V) else pt_map ?s1 new va')"
    by (rule mappages_one [OF m(2) i(1) iM room(1)]) blast
  have g: "F' \<subseteq> F" "pt_pages (mem s2) 2 new = pt_pages (mem s) 2 new \<union> (F - F')" "valid_page s2 = valid_page s"
    "kend s2 = kend s" "tp s2 = tp s" "kalloc_inv s2 F'"
    "\<And>q. valid_page s q \<Longrightarrow> q \<notin> pt_pages (mem s2) 2 new \<Longrightarrow>
       page_refs s2 q = page_refs s q \<and> page_eq (mem ?s1) (mem s2) q"
    using s2(2) s1 m(4) unfolding pt_grow_def pt_inv_def by (auto simp del: pt_pages.simps)
  have F: "q \<notin> F" if "1 \<le> page_refs s q" for q
    using kalloc_inv_page [of s F q] m(1) that fork_inv_new [OF inv] by (auto simp: pt_inv_def)
  have keep: "page_refs s2 q = page_refs ?s1 q \<and> page_eq (mem ?s1) (mem s2) q" if "q \<in> pt_pages (mem ?s1) 2 old" for q
    using g(7) [of q] pt_inv_owned(1-3) [OF m(1) that] disj g(2) that m(3) s1(1,2) by auto
  note fo = pt_frame [OF m(1) g(6) _ keep]
  have vs: "valid_page s2 = valid_page ?s1" using g(3) s1(1) by simp
  have pan: "?pa \<notin> pt_pages (mem s2) 2 new" "?pa \<notin> pt_pages (mem s2) 2 old"
    using disj(2) g(2) F [OF pg(2)] pg(3) fo(2) [OF vs] m(3) by auto
  have r2: "page_refs s2 ?pa = page_refs s ?pa" using g(7) [OF pg(1) pan(1)] by simp
  obtain s3 where s3: "kaddref ?pa s2 = Inr s3" "kalloc_inv s3 F'" "mem s3 = mem s2" "valid_page s3 = valid_page s2"
    "kend s3 = kend s2" "tp s3 = tp s2" "\<And>q. valid_page s2 q \<Longrightarrow> page_refs s3 q = page_refs s2 q + of_bool (q = ?pa)"
    by (rule kaddref_ok [OF g(6), of ?pa]) (use r2 pg room(2) g(3) in auto)
  have c: "pt_inv s3 F' 2 new" "pt_inv s3 F' 2 old" "pt_map s3 new = pt_map s2 new" "pt_map s3 old = pt_map s2 old"
    using pt_count [OF pt_grow_inv [OF s2(2)] s3(2,3,4,7) pan(1)] pt_count [OF fo(1) [OF vs] s3(2,3,4,7) pan(2)]
    by blast+
  have map: "pt_map s3 old va = (if PGROUNDDOWN va = i then map_option cow_pte (pt_map s old va) else pt_map s old va) \<and>
      pt_map s3 new va = (if PGROUNDDOWN va = i then map_option child_pte (pt_map s old va) else pt_map s new va)"
    if "va < MAXVA" for va
  proof -
    have "pt_map s old va = Some v" if "PGROUNDDOWN va = i"
      using i(3) that pt_map_PGROUNDDOWN by metis
    moreover have "pt_map s2 old va = pt_map ?s1 old va" using fo(3) [OF vs] by (simp add: pt_map_def)
    ultimately show ?thesis
      using c(3,4) m(5) m(6) [OF that] s2(4) [OF that] PGROUNDDOWN_id [OF i(1)] by (simp add: child_pte_def)
  qed
  have pages: "page_refs s3 q = page_refs s q + of_bool (q = ?pa) \<and> page_eq (mem s) (mem s3) q"
    if "valid_page s q" "q \<notin> F - F'" "q \<notin> pt_pages (mem s) 2 old" "q \<notin> pt_pages (mem s) 2 new" for q
    using g(7) [OF that(1)] m(7) [OF that(1,3)] s3(7) [of q] that g(2,3) s3(3)
      page_eq_trans [of "mem s" "mem ?s1" q "mem s3"] by simp
  have "page_shared old new i s F s3 F'"
    unfolding page_shared_def
    by (intro conjI) (use g s3(3-6) map pages i(3) fo(2) [OF vs] m(3) pt_grow_card [OF s2(2) m(2) s2(3)] in auto)
  then show ?thesis using that [of s2 s3 F'] s2(1) s1(5) s3(1) c(1,2) by simp
qed


lemma fork_inv_shared:
  assumes inv: "fork_inv s F old new lim" and sh: "page_shared old new i s F s' F'"
    and pt: "pt_inv s' F' 2 old" "pt_inv s' F' 2 new"
  shows "fork_inv s' F' old new lim"
proof -
  note old = fork_inv_old [OF inv] and lim = uvm_inv_lim [OF fork_inv_old [OF inv]]
  have K: "kalloc_inv s F" using fork_inv_new [OF inv] by (simp add: pt_inv_def)
  have F: "q \<notin> F" if "1 \<le> page_refs s q" for q using kalloc_inv_page [OF K, of q] that by auto
  have d: "F' \<subseteq> F" "valid_page s' = valid_page s" "pt_pages (mem s') 2 old = pt_pages (mem s) 2 old"
    "pt_pages (mem s') 2 new \<subseteq> pt_pages (mem s) 2 new \<union> (F - F')"
    "\<And>va. va < MAXVA \<Longrightarrow> pt_map s' old va =
       (if PGROUNDDOWN va = i then map_option cow_pte (pt_map s old va) else pt_map s old va)"
    "\<And>va. va < MAXVA \<Longrightarrow> pt_map s' new va =
       (if PGROUNDDOWN va = i then map_option child_pte (pt_map s old va) else pt_map s new va)"
    "\<And>q. valid_page s q \<Longrightarrow> q \<notin> F - F' \<Longrightarrow> q \<notin> pt_pages (mem s) 2 old \<Longrightarrow> q \<notin> pt_pages (mem s) 2 new \<Longrightarrow>
       page_refs s q \<le> page_refs s' q"
    using sh unfolding page_shared_def by auto
  have dn: "pt_pages (mem s) 2 old \<inter> pt_pages (mem s) 2 new = {}"
    "\<And>va e. va < lim \<Longrightarrow> pt_map s old va = Some e \<Longrightarrow> PTE2PA e \<notin> pt_pages (mem s) 2 new"
    "\<And>va e'. va < lim \<Longrightarrow> pt_map s new va = Some e' \<Longrightarrow> \<exists>e. pt_map s old va = Some e \<and> PTE2PA e' = PTE2PA e"
    using inv unfolding fork_inv_def by blast+
  have o: "\<exists>e0. pt_map s old va = Some e0 \<and> PTE2PA e = PTE2PA e0"
    if "va < lim" "pt_map s' old va = Some e" for va e
    using that d(5) [of va] lim by (auto simp: cow_pte_bits split: if_splits)
  have page: "valid_page s (PTE2PA e) \<and> 1 \<le> page_refs s' (PTE2PA e) \<and> PTE2PA e \<notin> pt_pages (mem s') 2 old \<and>
      PTE2PA e \<notin> pt_pages (mem s') 2 new"
    if va: "va < lim" "pt_map s old va = Some e" for va e
    using uvm_inv_page [OF old va] dn(2) [OF va] d(3,4,7) F [of "PTE2PA e"] by force
  have "uvm_inv s' F' old lim"
    unfolding uvm_inv_def
  proof (intro conjI allI impI)
    fix va e assume "va < lim" "pt_map s' old va = Some e"
    with o [OF this] page show "valid_page s' (PTE2PA e)" "1 \<le> page_refs s' (PTE2PA e)"
        "PTE2PA e \<notin> pt_pages (mem s') 2 old" using d(2) by auto
  next
    fix va va' e e'
    assume h: "va < lim" "va' < lim" "pt_map s' old va = Some e" "pt_map s' old va' = Some e'" "PTE2PA e = PTE2PA e'"
    obtain x where x: "pt_map s old va = Some x" "PTE2PA e = PTE2PA x" using o [OF h(1,3)] by blast
    obtain y where y: "pt_map s old va' = Some y" "PTE2PA e' = PTE2PA y" using o [OF h(2,4)] by blast
    have "PTE2PA x = PTE2PA y" using h(5) x(2) y(2) by simp
    from uvm_inv_inj [OF old h(1) x(1) h(2) y(1) this] show "PGROUNDDOWN va = PGROUNDDOWN va'" .
  qed (use pt(1) lim in simp_all)
  moreover have "pt_pages (mem s') 2 old \<inter> pt_pages (mem s') 2 new = {}"
    using dn(1) d(3,4) pt_inv_owned(3) [OF uvm_inv_pt [OF old]] by blast
  moreover have "PTE2PA e \<notin> pt_pages (mem s') 2 new" if "va < lim" "pt_map s' old va = Some e" for va e
    using o [OF that] page that(1) by auto
  moreover have "\<exists>e. pt_map s' old va = Some e \<and> PTE2PA e' = PTE2PA e"
    if va: "va < lim" "pt_map s' new va = Some e'" for va e'
  proof (cases "PGROUNDDOWN va = i")
    case True
    moreover have vM: "va < MAXVA" using va(1) lim by simp
    ultimately obtain w where w: "pt_map s old va = Some w" "e' = child_pte w"
      using d(6) [OF vM] va(2) by (cases "pt_map s old va") auto
    have "PTE2PA e' = PTE2PA w" using child_pte_facts(1) uvm_inv_page(1) [OF old va(1) w(1)] w(2) by simp
    then show ?thesis using d(5) [of va] va lim w True by (auto simp: cow_pte_bits)
  next
    case False
    then show ?thesis using d(5,6) [of va] va lim dn(3) [OF va(1)] by auto
  qed
  ultimately show ?thesis using pt(2) unfolding fork_inv_def by blast
qed


section \<open>Sharing a range\<close>

definition range_shared :: "u64 \<Rightarrow> u64 \<Rightarrow> u64 \<Rightarrow> u64 \<Rightarrow> 'z kmem_scheme \<Rightarrow> u64 set \<Rightarrow> 'z kmem_scheme \<Rightarrow> u64 set \<Rightarrow> bool" where
  "range_shared old new a e s F s' F' \<longleftrightarrow> F' \<subseteq> F \<and>
     valid_page s' = valid_page s \<and> kend s' = kend s \<and> tp s' = tp s \<and>
     (\<forall>va<MAXVA. pt_map s' old va =
          (if a \<le> va \<and> va < e then map_option cow_pte (pt_map s old va) else pt_map s old va) \<and>
        pt_map s' new va =
          (if a \<le> va \<and> va < e then map_option child_pte (pt_map s old va) else pt_map s new va)) \<and>
     pt_pages (mem s') 2 old = pt_pages (mem s) 2 old \<and>
     pt_pages (mem s') 2 new \<subseteq> pt_pages (mem s) 2 new \<union> (F - F') \<and>
     (\<forall>q. valid_page s q \<longrightarrow> q \<notin> F - F' \<longrightarrow> q \<notin> pt_pages (mem s) 2 old \<union> pt_pages (mem s) 2 new \<longrightarrow>
        page_refs s' q = page_refs s q + of_bool (q \<in> range_pages s old a e) \<and> page_eq (mem s) (mem s') q)"

lemma page_shared_none:
  assumes "pt_map s old i = None" "pt_map s new i = None"
  shows "page_shared old new i s F s F"
proof -
  have "pt_map s old va = None \<and> pt_map s new va = None" if "PGROUNDDOWN va = i" for va
    using assms that pt_map_PGROUNDDOWN by metis
  then show ?thesis using assms(1) by (auto simp: page_shared_def)
qed

lemma range_pages_step:
  assumes a: "pg_aligned a" "unat e = unat a + 4096 * Suc n" "e \<le> lim" and inv: "uvm_inv s F pt lim"
  shows "of_bool (q \<in> range_pages s pt a e) = (of_bool (pt_map s pt a \<noteq> None \<and> q = PTE2PA (the (pt_map s pt a)))
    + of_bool (q \<in> range_pages s pt (a + PGSIZE) e) :: int)"
proof -
  note sp = page_range_split [OF a(1,2)]
  have ah: "PGROUNDDOWN a = a" using PGROUNDDOWN_id [OF a(1)] .
  have first: "pt_map s pt va = pt_map s pt a" if "PGROUNDDOWN va = a" for va
    using that pt_map_PGROUNDDOWN by metis
  have mem: "q \<in> range_pages s pt a e \<longleftrightarrow>
      (pt_map s pt a \<noteq> None \<and> q = PTE2PA (the (pt_map s pt a))) \<or> q \<in> range_pages s pt (a + PGSIZE) e"
  proof
    assume "q \<in> range_pages s pt a e"
    then obtain va w where va: "a \<le> va \<and> va < e" "pt_map s pt va = Some w" "q = PTE2PA w"
      by (auto simp: range_pages_def)
    then show "(pt_map s pt a \<noteq> None \<and> q = PTE2PA (the (pt_map s pt a))) \<or> q \<in> range_pages s pt (a + PGSIZE) e"
    proof (cases "PGROUNDDOWN va = a")
      case True
      have "pt_map s pt a = Some w" using first [OF True] va(2) by metis
      then show ?thesis using va(3) by simp
    next
      case False
      then show ?thesis using sp(1) [of va] va by (auto simp: range_pages_def)
    qed
  next
    assume "(pt_map s pt a \<noteq> None \<and> q = PTE2PA (the (pt_map s pt a))) \<or> q \<in> range_pages s pt (a + PGSIZE) e"
    then obtain va w where "a \<le> va \<and> va < e" "pt_map s pt va = Some w" "q = PTE2PA w"
      using sp(1) sp(3) unfolding range_pages_def by (auto; blast)
    then show "q \<in> range_pages s pt a e" by (auto simp: range_pages_def)
  qed
  have "\<not> (pt_map s pt a \<noteq> None \<and> q = PTE2PA (the (pt_map s pt a)) \<and> q \<in> range_pages s pt (a + PGSIZE) e)"
  proof
    assume "pt_map s pt a \<noteq> None \<and> q = PTE2PA (the (pt_map s pt a)) \<and> q \<in> range_pages s pt (a + PGSIZE) e"
    then obtain v va w where v: "pt_map s pt a = Some v" "a + PGSIZE \<le> va" "va < e" "pt_map s pt va = Some w"
        "PTE2PA v = PTE2PA w" by (auto simp: range_pages_def)
    have "a < lim" "va < lim" using sp(3) v(3) a(3) by auto
    from uvm_inv_inj [OF inv this(1) v(1) this(2) v(4,5)] show False using sp(2) [of va] v(2) ah by simp
  qed
  then show ?thesis using mem by auto
qed

lemma range_shared_step:
  assumes a: "pg_aligned a" "unat e = unat a + 4096 * Suc n" "e \<le> lim" "uvm_inv s F old lim"
    and one: "page_shared old new a s F s2 F2" and rest: "range_shared old new (a + PGSIZE) e s2 F2 s' F'"
  shows "range_shared old new a e s F s' F'"
proof -
  note sp = page_range_split [OF a(1,2)] and lim = uvm_inv_lim [OF a(4)]
  have ah: "PGROUNDDOWN a = a" using PGROUNDDOWN_id [OF a(1)] .
  have o: "F2 \<subseteq> F" "valid_page s2 = valid_page s" "kend s2 = kend s" "tp s2 = tp s"
    "pt_pages (mem s2) 2 old = pt_pages (mem s) 2 old"
    "pt_pages (mem s2) 2 new \<subseteq> pt_pages (mem s) 2 new \<union> (F - F2)"
    "\<And>va. va < MAXVA \<Longrightarrow> pt_map s2 old va =
       (if PGROUNDDOWN va = a then map_option cow_pte (pt_map s old va) else pt_map s old va)"
    "\<And>va. va < MAXVA \<Longrightarrow> pt_map s2 new va =
       (if PGROUNDDOWN va = a then map_option child_pte (pt_map s old va) else pt_map s new va)"
    "\<And>q. valid_page s q \<Longrightarrow> q \<notin> F - F2 \<Longrightarrow> q \<notin> pt_pages (mem s) 2 old \<union> pt_pages (mem s) 2 new \<Longrightarrow>
       page_refs s2 q = page_refs s q + of_bool (pt_map s old a \<noteq> None \<and> q = PTE2PA (the (pt_map s old a))) \<and>
       page_eq (mem s) (mem s2) q"
    using one unfolding page_shared_def by blast+
  have r: "F' \<subseteq> F2" "valid_page s' = valid_page s2" "kend s' = kend s2" "tp s' = tp s2"
    "pt_pages (mem s') 2 old = pt_pages (mem s2) 2 old"
    "pt_pages (mem s') 2 new \<subseteq> pt_pages (mem s2) 2 new \<union> (F2 - F')"
    "\<And>va. va < MAXVA \<Longrightarrow> pt_map s' old va =
       (if a + PGSIZE \<le> va \<and> va < e then map_option cow_pte (pt_map s2 old va) else pt_map s2 old va)"
    "\<And>va. va < MAXVA \<Longrightarrow> pt_map s' new va =
       (if a + PGSIZE \<le> va \<and> va < e then map_option child_pte (pt_map s2 old va) else pt_map s2 new va)"
    "\<And>q. valid_page s2 q \<Longrightarrow> q \<notin> F2 - F' \<Longrightarrow> q \<notin> pt_pages (mem s2) 2 old \<union> pt_pages (mem s2) 2 new \<Longrightarrow>
       page_refs s' q = page_refs s2 q + of_bool (q \<in> range_pages s2 old (a + PGSIZE) e) \<and> page_eq (mem s2) (mem s') q"
    using rest unfolding range_shared_def by blast+
  have later: "pt_map s2 old va = pt_map s old va" if "a + PGSIZE \<le> va" "va < e" for va
    using o(7) [of va] sp(2) [of va] that a(3) lim by auto
  then have rp: "range_pages s2 old (a + PGSIZE) e = range_pages s old (a + PGSIZE) e"
    unfolding range_pages_def by (intro Collect_cong ex_cong1 conj_cong refl) simp
  have pages: "page_refs s' q = page_refs s q + of_bool (q \<in> range_pages s old a e) \<and> page_eq (mem s) (mem s') q"
    if q: "valid_page s q" "q \<notin> F - F'" "q \<notin> pt_pages (mem s) 2 old \<union> pt_pages (mem s) 2 new" for q
  proof -
    have n: "q \<notin> F - F2" "q \<notin> F2 - F'" using q(2) o(1) r(1) by blast+
    moreover have "q \<notin> pt_pages (mem s2) 2 old \<union> pt_pages (mem s2) 2 new" "valid_page s2 q"
      using q(1,3) o(2,5) subsetD [OF o(6), of q] n(1) by auto
    ultimately show ?thesis
      using o(9) [OF q(1) _ q(3)] r(9) [of q] rp page_eq_trans [of "mem s" "mem s2" q "mem s'"]
        range_pages_step [OF a, of q] by simp
  qed
  have map: "pt_map s' old va = (if a \<le> va \<and> va < e then map_option cow_pte (pt_map s old va) else pt_map s old va) \<and>
      pt_map s' new va = (if a \<le> va \<and> va < e then map_option child_pte (pt_map s old va) else pt_map s new va)"
    if "va < MAXVA" for va
    using r(7,8) [OF that] o(7,8) [OF that] sp(1,2) [of va] later [of va] by auto
  show ?thesis
    unfolding range_shared_def
    using o(1-6) r(1-6) map pages by (intro conjI) (blast | simp)+
qed


section \<open>uvmcopy\<close>

text \<open>What the copy needs from the child's table and from the counts for the part from \<open>a\<close> to \<open>e\<close>.\<close>

definition copy_ready :: "'z kmem_scheme \<Rightarrow> u64 \<Rightarrow> u64 \<Rightarrow> u64 \<Rightarrow> u64 \<Rightarrow> bool" where
  "copy_ready s old new a e \<longleftrightarrow> (\<forall>va. a \<le> va \<longrightarrow> va < e \<longrightarrow> pt_map s new va = None \<and>
     (\<forall>v. pt_map s old va = Some v \<longrightarrow> page_refs s (PTE2PA v) < 2147483647))"

lemma copy_ready_step:
  assumes a: "pg_aligned a" "unat e = unat a + 4096 * Suc n" "e \<le> lim" and inv: "fork_inv s F old new lim"
    and sh: "page_shared old new a s F s' F'" and ready: "copy_ready s old new a e"
  shows "copy_ready s' old new (a + PGSIZE) e"
  unfolding copy_ready_def
proof (intro allI impI conjI)
  fix va assume va: "a + PGSIZE \<le> va" "va < e"
  note sp = page_range_split [OF a(1,2)] and old = fork_inv_old [OF inv]
  have vl: "va < lim" "va < MAXVA" using va(2) a(3) uvm_inv_lim [OF old] by auto
  have r: "a \<le> va" "PGROUNDDOWN va \<noteq> a" using sp(1,2) [of va] va by auto
  then have m: "pt_map s' new va = pt_map s new va" "pt_map s' old va = pt_map s old va"
    using sh vl(2) unfolding page_shared_def by auto
  then show "pt_map s' new va = None" using ready r(1) va(2) by (simp add: copy_ready_def)
  fix v assume v: "pt_map s' old va = Some v"
  then have v0: "pt_map s old va = Some v" using m by simp
  note pg = uvm_inv_page [OF old vl(1) v0]
  have K: "kalloc_inv s F" using fork_inv_new [OF inv] by (simp add: pt_inv_def)
  have "PTE2PA v \<notin> F" using kalloc_inv_page [OF K, of "PTE2PA v"] pg(2) by auto
  moreover have "PTE2PA v \<notin> pt_pages (mem s) 2 new" using inv vl(1) v0 unfolding fork_inv_def by blast
  moreover have "\<not> (pt_map s old a \<noteq> None \<and> PTE2PA v = PTE2PA (the (pt_map s old a)))"
  proof
    assume "pt_map s old a \<noteq> None \<and> PTE2PA v = PTE2PA (the (pt_map s old a))"
    then obtain w where w: "pt_map s old a = Some w" "PTE2PA v = PTE2PA w" by auto
    have "a < lim" using sp(3) a(3) by simp
    from uvm_inv_inj [OF old vl(1) v0 this w] show False using r(2) PGROUNDDOWN_id [OF a(1)] by simp
  qed
  ultimately have "page_refs s' (PTE2PA v) = page_refs s (PTE2PA v)"
    using sh pg(1,3) unfolding page_shared_def by auto
  then show "page_refs s' (PTE2PA v) < 2147483647" using ready r(1) va(2) v0 by (simp add: copy_ready_def)
qed

lemma uvmcopy_loop_ok:
  assumes "fork_inv s F old new lim" "pg_aligned a" "unat (PGROUNDUP sz) = unat a + 4096 * n"
    "unat sz + 4095 < 2 ^ 64" "PGROUNDUP sz \<le> lim" "2 * n \<le> card F" "copy_ready s old new a (PGROUNDUP sz)"
  shows "\<exists>s' F'. uvmcopy_loop old new sz a s = Inr (0, s') \<and> fork_inv s' F' old new lim \<and>
    range_shared old new a (PGROUNDUP sz) s F s' F'"
  using assms
proof (induction n arbitrary: a s F)
  case 0
  have e: "PGROUNDUP sz = a" using 0(3) by (simp add: word_unat_eq_iff)
  then have "\<not> a < sz" using unat_PGROUNDUP [OF 0(4)] 0(3) by (simp add: word_less_nat_alt)
  moreover have "range_pages s old a a = {}" by (auto simp: range_pages_def)
  then have "range_shared old new a (PGROUNDUP sz) s F s F" using e by (auto simp: range_shared_def)
  ultimately show ?case using 0(1) by (subst uvmcopy_loop.simps) auto
next
  case (Suc n)
  let ?e = "PGROUNDUP sz"
  note sp = page_range_split [OF Suc.prems(2,3)] and old = fork_inv_old [OF Suc.prems(1)]
  have lt: "a < sz"
    using Suc.prems(2,3) unat_PGROUNDUP [OF Suc.prems(4)] by (auto simp: word_less_nat_alt elim!: pg_alignedE)
  have al: "a < lim" "a < MAXVA" using sp(3) Suc.prems(5) uvm_inv_lim [OF old] by auto
  have ready: "pt_map s new a = None" "\<And>v. pt_map s old a = Some v \<Longrightarrow> page_refs s (PTE2PA v) < 2147483647"
    using Suc.prems(7) sp(3) by (auto simp: copy_ready_def)
  obtain pte where w: "walk old a False s = Inr (pte, s)"
      "pt_map s old a = (if pte \<noteq> 0 \<and> pte_v (ld64 (mem s) pte) then Some (ld64 (mem s) pte) else None)"
      "pte \<noteq> 0 \<Longrightarrow> pt_slot (mem s) 2 old a = Some pte"
    using walk_lookup_map [OF uvm_inv_pt [OF old] al(2)] by metis
  have "\<exists>s2 F2. uvmcopy_loop old new sz a s = uvmcopy_loop old new sz (a + PGSIZE) s2 \<and>
      page_shared old new a s F s2 F2 \<and> fork_inv s2 F2 old new lim"
  proof (cases "pt_map s old a")
    case None
    then have "uvmcopy_loop old new sz a s = uvmcopy_loop old new sz (a + PGSIZE) s"
      using w(1,2) lt by (subst uvmcopy_loop.simps) (auto simp: Let_def pte_v_def split: if_splits)
    then show ?thesis using page_shared_none [OF None ready(1)] Suc.prems(1) by blast
  next
    case (Some v)
    then have v: "pte \<noteq> 0" "v = ld64 (mem s) pte" "v AND PTE_V \<noteq> 0" "pt_slot (mem s) 2 old a = Some pte"
      using w(2,3) by (auto simp: pte_v_def split: if_splits)
    have "2 \<le> card F" using Suc.prems(6) by simp
    then obtain s2 s3 F' where o:
      "mappages new a PGSIZE (PTE2PA v) (PTE_FLAGS (ld64 (mem (cow_mark pte s)) pte)) (cow_mark pte s) = Inr (0, s2)"
      "kaddref (PTE2PA v) s2 = Inr s3" "page_shared old new a s F s3 F'" "pt_inv s3 F' 2 old" "pt_inv s3 F' 2 new"
      by (rule share_one [OF Suc.prems(1,2) al(1) Some v(4,2) ready(1) _ ready(2) [OF Some]]) blast
    have "uvmcopy_loop old new sz a s = uvmcopy_loop old new sz (a + PGSIZE) s3"
      using w(1) v o(1,2) lt by (subst uvmcopy_loop.simps) (simp add: Let_def)
    then show ?thesis using o(3) fork_inv_shared [OF Suc.prems(1) o(3-5)] by blast
  qed
  then obtain s2 F2 where o: "uvmcopy_loop old new sz a s = uvmcopy_loop old new sz (a + PGSIZE) s2"
      "page_shared old new a s F s2 F2" "fork_inv s2 F2 old new lim" by blast
  have "2 * n \<le> card F2" using o(2) Suc.prems(6) by (simp add: page_shared_def)
  then show ?case
    using Suc.IH [OF o(3) sp(4,5) Suc.prems(4,5) _ copy_ready_step [OF Suc.prems(2,3,5,1) o(2) Suc.prems(7)]] o(1)
      range_shared_step [OF Suc.prems(2,3,5) old o(2)] by auto
qed


lemma child_pte_no_W: "child_pte v AND PTE_W = 0"
proof -
  have b: "bit (PTE_W :: u64) n \<longleftrightarrow> n = 2" "bit (PTE_V :: u64) n \<longleftrightarrow> n = 0" for n
    unfolding PTE_W_def PTE_V_def bit_push_bit_iff bit_1_iff possible_bit_word by auto
  have "\<not> bit (cow_pte v) 2"
    using cow_pte_bits(3) [of v] by (metis b(1) bit_and_iff bit_0_eq bot_apply bot_bool_def)
  then show ?thesis
    by (intro bit_word_eqI) (auto simp: child_pte_def PA2PTE_def PTE_FLAGS_def b bit_simps)
qed

section \<open>Properties\<close>

lemma uvmcopy_ok:
  assumes "fork_inv s F old new lim" "sz \<le> lim" "PGROUNDUP sz \<le> lim" "2 * new_pages 0 sz \<le> card F"
    "copy_ready s old new 0 (PGROUNDUP sz)"
  shows "\<exists>s' F'. uvmcopy old new sz s = Inr (0, s') \<and> uvm_inv s' F' old lim \<and> uvm_inv s' F' new lim \<and>
    range_shared old new 0 (PGROUNDUP sz) s F s' F' \<and>
    (\<forall>va<PGROUNDUP sz. \<forall>e. pt_map s' old va = Some e \<or> pt_map s' new va = Some e \<longrightarrow> e AND PTE_W = 0)"
proof -
  have lim: "lim \<le> MAXVA" using uvm_inv_lim [OF fork_inv_old [OF assms(1)]] .
  have w: "unat sz + 4095 < 2 ^ 64" using MAXVA_no_wrap [OF assms(2) lim] .
  have z: "PGROUNDUP 0 = 0" by (simp add: PGROUNDUP_def riscv_consts)
  have n: "unat (PGROUNDUP sz) = unat (0 :: u64) + 4096 * new_pages 0 sz"
    using unat_PGROUNDUP [OF w] by (simp add: new_pages_def z)
  have "pg_aligned 0" by (simp add: pg_aligned_def)
  then obtain s' F' where s': "uvmcopy old new sz s = Inr (0, s')" "fork_inv s' F' old new lim"
      "range_shared old new 0 (PGROUNDUP sz) s F s' F'"
    using uvmcopy_loop_ok [OF assms(1) _ n w assms(3-5)] by (auto simp: uvmcopy_def)
  have "e AND PTE_W = 0" if va: "va < PGROUNDUP sz" and e: "pt_map s' old va = Some e \<or> pt_map s' new va = Some e" for va e
  proof -
    have "va < MAXVA" using va assms(3) lim by simp
    then have "pt_map s' old va = map_option cow_pte (pt_map s old va)"
        "pt_map s' new va = map_option child_pte (pt_map s old va)"
      using s'(3) va unfolding range_shared_def by auto
    then show ?thesis using e cow_pte_bits(3) child_pte_no_W by (cases "pt_map s old va") auto
  qed
  then show ?thesis using s'(1,3) fork_inv_old [OF s'(2)] fork_inv_child [OF s'(2)] by blast
qed

text \<open>
  C8. \<^verbatim>\<open>uvmcopy\<close> of a parent into an empty child table, with two free pages for every page of the
  parent, returns 0. Every page of the parent is then mapped at the same address in the child,
  neither can write it, writable pages are marked copy-on-write in both, each shared page has
  exactly one more reference, and no page outside the two tables changes its content.
\<close>

theorem uvmcopy_shares:
  assumes "fork_inv s F old new lim" "sz \<le> lim" "PGROUNDUP sz \<le> lim" "2 * new_pages 0 sz \<le> card F"
    "copy_ready s old new 0 (PGROUNDUP sz)"
  shows "\<exists>s' F'. uvmcopy old new sz s = Inr (0, s') \<and> uvm_inv s' F' old lim \<and> uvm_inv s' F' new lim \<and>
    range_shared old new 0 (PGROUNDUP sz) s F s' F' \<and>
    (\<forall>va<PGROUNDUP sz. \<forall>e. pt_map s' old va = Some e \<or> pt_map s' new va = Some e \<longrightarrow> e AND PTE_W = 0)"
  by (rule uvmcopy_ok [OF assms])

text \<open>A parent with one page, and an empty child.\<close>

lemma one_page_parent:
  obtains pg s1 s F where "kalloc (pool 8) = Inr (pg, s1)"
    "mappages root 0 PGSIZE pg (PTE_R OR PTE_U OR PTE_W) (s1\<lparr>mem := memset (mem s1) pg 0 4096\<rparr>) = Inr (0, s)"
    "fork_inv s F root root2 MAXVA" "copy_ready s root root2 0 0x1000" "2 \<le> card F"
    "pt_map s root 0 = Some (PA2PTE pg OR (PTE_R OR PTE_U OR PTE_W) OR PTE_V)"
    "valid_page s pg" "kend s = 0x80100000"
proof -
  let ?F = "pool_page ` {..<8}" and ?perm = "PTE_R OR PTE_U OR PTE_W"
  have c: "(0 :: u64) < MAXVA" "PTE_FLAGS ?perm = ?perm" "pg_aligned 0"
    by (simp_all add: riscv_consts PTE_FLAGS_def pg_aligned_def)
  have card: "card ?F = 8" using pool_card [of 8] by simp
  note pr = pool_pt [of 8 root, simplified] and pr2 = pool_pt [of 8 root2, simplified]
    and r2 = root_valid [of 8 root2, simplified]
  have "3 \<le> card ?F" using card by simp
  then obtain pg s1 s F where o: "kalloc (pool 8) = Inr (pg, s1)" "pg \<noteq> 0" "valid_page (pool 8) pg"
    "mappages root 0 PGSIZE pg ?perm (s1\<lparr>mem := memset (mem s1) pg 0 4096\<rparr>) = Inr (0, s)"
    "page_added root 0 pg ?perm (pool 8) ?F s F" "pt_inv s F 2 root" "pg \<notin> pt_pages (mem s) 2 root"
    by (rule alloc_map_one [OF pr(1) c(3,1) pr(2)]) blast
  have inv: "uvm_inv s F root MAXVA" using uvm_inv_added [OF pr(3) o(5,6,3,7) c(2)] .
  have kv: "valid_page s pg" "kend s = 0x80100000"
    using o(3,5) pool_inv [of 8] unfolding page_added_def by auto
  have d: "pg \<in> ?F - F" "card ?F \<le> card F + 3" "valid_page s = valid_page (pool 8)" "page_refs s pg = 1"
    "pt_pages (mem s) 2 root \<subseteq> {root} \<union> (?F - F)"
    "\<And>va. va < MAXVA \<Longrightarrow> pt_map s root va = (if PGROUNDDOWN va = 0 then Some (PA2PTE pg OR ?perm OR PTE_V) else None)"
    "\<And>q. valid_page (pool 8) q \<Longrightarrow> q \<notin> ?F - F \<Longrightarrow> q \<notin> {root} \<Longrightarrow>
        page_refs s q = page_refs (pool 8) q \<and> page_eq (mem (pool 8)) (mem s) q"
    using o(5) pr(2,4) unfolding page_added_def by auto
  have rr: "root2 \<noteq> root" "root2 \<notin> ?F" "pg \<noteq> root2" using r2(2) d(1) by (auto simp: root_def root2_def)
  have same: "page_refs s q = page_refs (pool 8) q \<and> page_eq (mem (pool 8)) (mem s) q"
    if "q \<in> pt_pages (mem (pool 8)) 2 root2" for q
    using d(7) [of q] that pr2(4) r2(1) rr by auto
  have K: "kalloc_inv s F" using o(6) by (simp add: pt_inv_def)
  note f = pt_frame [OF pr2(1) K d(3) same]
  have none: "pt_map s root2 va = None" for va using f(3) pr2(2) by (simp add: pt_map_def)
  have leaf: "PTE2PA (PA2PTE pg OR ?perm OR PTE_V) = pg" using PTE2PA_leaf(1) [OF o(3) c(2)] .
  have "fork_inv s F root root2 MAXVA"
    unfolding fork_inv_def
    using inv f(1,2) pr2(4) d(5,6) rr none leaf by auto
  moreover have "copy_ready s root root2 0 0x1000"
    unfolding copy_ready_def
  proof (intro allI impI conjI none)
    fix va v assume "0 \<le> va" "va < 0x1000" "pt_map s root va = Some v"
    moreover from this have "va < MAXVA" by (simp add: riscv_consts word_less_nat_alt)
    ultimately have "v = PA2PTE pg OR ?perm OR PTE_V" using d(6) [of va] by (simp split: if_splits)
    then show "page_refs s (PTE2PA v) < 2147483647" using leaf d(4) by simp
  qed
  moreover have "PGROUNDDOWN 0 = 0" by (simp add: PGROUNDDOWN_def)
  then have "pt_map s root 0 = Some (PA2PTE pg OR ?perm OR PTE_V)" using d(6) [OF c(1)] by simp
  ultimately show ?thesis using that [OF o(1,4)] d(2) card kv by simp
qed

theorem uvmcopy_shares_witness:
  "\<exists>pg s1 s s'. kalloc (pool 8) = Inr (pg, s1) \<and>
     mappages root 0 PGSIZE pg (PTE_R OR PTE_U OR PTE_W) (s1\<lparr>mem := memset (mem s1) pg 0 4096\<rparr>) = Inr (0, s) \<and>
     uvmcopy root root2 0x1000 s = Inr (0, s') \<and> pt_map s' root2 0 \<noteq> None"
proof -
  obtain pg s1 s F where p: "kalloc (pool 8) = Inr (pg, s1)"
    "mappages root 0 PGSIZE pg (PTE_R OR PTE_U OR PTE_W) (s1\<lparr>mem := memset (mem s1) pg 0 4096\<rparr>) = Inr (0, s)"
    "fork_inv s F root root2 MAXVA" "copy_ready s root root2 0 0x1000" "2 \<le> card F"
    "pt_map s root 0 = Some (PA2PTE pg OR (PTE_R OR PTE_U OR PTE_W) OR PTE_V)"
    by (rule one_page_parent) blast
  have r: "PGROUNDUP 0 = 0" "PGROUNDUP 0x1000 = 0x1000" by (simp_all add: PGROUNDUP_def riscv_consts)
  have n: "new_pages 0 0x1000 = 1" by (simp add: new_pages_def r)
  have c: "(0x1000 :: u64) \<le> MAXVA" "(0 :: u64) < MAXVA" by (simp_all add: riscv_consts)
  obtain s' F' where s': "uvmcopy root root2 0x1000 s = Inr (0, s')" "range_shared root root2 0 0x1000 s F s' F'"
    using uvmcopy_shares [OF p(3), of "0x1000"] p(4,5) r n c by auto
  then have "pt_map s' root2 0 \<noteq> None" using p(6) c(2) unfolding range_shared_def by auto
  then show ?thesis using p(1,2) s'(1) by blast
qed

end
