(* ===== verification/Usercopy.thy ===== *)
theory Usercopy
  imports Cow
begin

text \<open>
  Copying from the kernel to user memory (\<^verbatim>\<open>copyout\<close>), also after a copy-on-write fork, and lazy
  allocation (\<^verbatim>\<open>vmfault\<close>).
\<close>

unbundle bit_operations_syntax

section \<open>User bytes\<close>

text \<open>The physical address behind a mapped user address.\<close>

definition user_pa :: "'z kmem_scheme \<Rightarrow> u64 \<Rightarrow> u64 \<Rightarrow> u64" where
  "user_pa s pt va = PTE2PA (the (pt_map s pt va)) + (va - PGROUNDDOWN va)"

definition user_writable :: "'z kmem_scheme \<Rightarrow> u64 \<Rightarrow> u64 \<Rightarrow> bool" where
  "user_writable s pt va \<longleftrightarrow> (\<exists>e. pt_map s pt va = Some e \<and> e AND PTE_U \<noteq> 0 \<and> e AND PTE_W \<noteq> 0)"

lemma page_offset:
  assumes "pg_aligned p"
  shows "unat (p + (va - PGROUNDDOWN va)) = unat p + unat va mod 4096" "in_page p (p + (va - PGROUNDDOWN va))"
proof -
  have o: "unat (va - PGROUNDDOWN va) = unat va mod 4096"
    by (simp add: unat_sub_if' unat_PGROUNDDOWN minus_mult_div_eq_mod)
  then show u: "unat (p + (va - PGROUNDDOWN va)) = unat p + unat va mod 4096"
    using pg_aligned_bound [OF assms] by (simp add: unat_word_ariths)
  show "in_page p (p + (va - PGROUNDDOWN va))" using u by (simp add: in_page_iff [OF assms])
qed

lemma user_pa_in_page:
  assumes "pt_map s pt va = Some e"
  shows "in_page (PTE2PA e) (user_pa s pt va)"
  using page_offset(2) [OF PTE2PA_aligned] assms by (simp add: user_pa_def)

lemma user_pa_inj:
  assumes inv: "uvm_inv s F pt lim" and va: "va < lim" "pt_map s pt va = Some e"
    and va': "va' < lim" "pt_map s pt va' = Some e'" and eq: "user_pa s pt va = user_pa s pt va'"
  shows "va = va'"
proof -
  have "in_page (PTE2PA e) (user_pa s pt va)" "in_page (PTE2PA e') (user_pa s pt va)"
    using user_pa_in_page [OF va(2)] user_pa_in_page [OF va'(2)] eq by simp_all
  then have p: "PTE2PA e = PTE2PA e'" using in_page_unique PTE2PA_aligned by blast
  then have r: "PGROUNDDOWN va = PGROUNDDOWN va'" using uvm_inv_inj [OF inv va va'] by blast
  have "unat va mod 4096 = unat va' mod 4096"
    using eq page_offset(1) [OF PTE2PA_aligned, of e va] page_offset(1) [OF PTE2PA_aligned, of e' va'] p va va'
    by (simp add: user_pa_def)
  moreover have "unat va div 4096 = unat va' div 4096"
    using r unat_PGROUNDDOWN [of va] unat_PGROUNDDOWN [of va'] by simp
  ultimately show ?thesis by (metis div_mult_mod_eq unat_eqD)
qed

text \<open>Addresses of one chunk lie in one page.\<close>

lemma chunk_page:
  assumes "i < unat (page_room va len)" "unat va + unat len \<le> 2 ^ 38"
  shows "unat (va + of_nat i) = unat va + i" "PGROUNDDOWN (va + of_nat i) = PGROUNDDOWN va"
proof -
  have i: "i < 4096 - unat va mod 4096" "i < unat len" using assms(1) by (simp_all add: unat_page_room)
  then show u: "unat (va + of_nat i) = unat va + i"
    using assms(2) by (simp add: unat_word_ariths unat_of_nat)
  have "(unat va + i) div 4096 = unat va div 4096"
  proof -
    have "unat va + i = 4096 * (unat va div 4096) + (unat va mod 4096 + i)" by simp
    moreover have "unat va mod 4096 + i < 4096" using i(1) by linarith
    ultimately show ?thesis by (metis div_less div_mult_self4 add_0_right zero_neq_numeral)
  qed
  then show "PGROUNDDOWN (va + of_nat i) = PGROUNDDOWN va"
    using u by (intro unat_eqD) (simp add: unat_PGROUNDDOWN)
qed


section \<open>copyout\<close>

text \<open>Writing inside an allocated page leaves the allocator, the tables that do not use it and the map alone.\<close>

lemma page_write:
  assumes inv: "uvm_inv s F pt lim" and P: "pg_aligned P" "1 \<le> page_refs s P" "P \<notin> pt_pages (mem s) 2 pt"
    and m: "\<And>x. \<not> in_page P x \<Longrightarrow> m x = mem s x"
  shows "uvm_inv (s\<lparr>mem := m\<rparr>) F pt lim" "pt_map (s\<lparr>mem := m\<rparr>) pt = pt_map s pt"
    "pt_pages m 2 pt = pt_pages (mem s) 2 pt"
proof -
  have eq: "page_eq (mem s) m q" if "pg_aligned q" "q \<noteq> P" for q
  proof (rule page_eqI)
    fix x assume "in_page q x"
    then have "\<not> in_page P x" using that in_page_unique P(1) by blast
    then show "mem s x = m x" using m by simp
  qed
  have K: "kalloc_inv s F" using uvm_inv_pt [OF inv] by (simp add: pt_inv_def)
  have "page_eq (mem s) m q" if "q \<in> F" for q
    using that eq [of q] kalloc_inv_page [OF K that] valid_page_aligned P(2) by force
  then have K': "kalloc_inv (s\<lparr>mem := m\<rparr>) F" by (rule kalloc_inv_mem [OF K])
  have same: "page_refs (s\<lparr>mem := m\<rparr>) q = page_refs s q \<and> page_eq (mem s) (mem (s\<lparr>mem := m\<rparr>)) q"
    if "q \<in> pt_pages (mem s) 2 pt" for q
    using eq [of q] pt_inv_owned(4) [OF uvm_inv_pt [OF inv] that] P(3) that by auto
  note f = pt_frame [OF uvm_inv_pt [OF inv] K' valid_page_mem same]
  show map: "pt_map (s\<lparr>mem := m\<rparr>) pt = pt_map s pt" by (rule ext) (use f(3) in \<open>simp add: pt_map_def\<close>)
  show pages: "pt_pages m 2 pt = pt_pages (mem s) 2 pt" using f(2) by simp
  show "uvm_inv (s\<lparr>mem := m\<rparr>) F pt lim"
    unfolding uvm_inv_def map
  proof (intro conjI allI impI)
    show "pt_inv (s\<lparr>mem := m\<rparr>) F 2 pt" by (rule f(1))
    show "lim \<le> MAXVA" by (rule uvm_inv_lim [OF inv])
    fix va e assume v: "va < lim" "pt_map s pt va = Some e"
    note p = uvm_inv_page [OF inv v]
    show "valid_page (s\<lparr>mem := m\<rparr>) (PTE2PA e)" using p(1) by (simp only: valid_page_mem)
    show "1 \<le> page_refs (s\<lparr>mem := m\<rparr>) (PTE2PA e)" using p(2) by (simp add: page_refs_def)
    show "PTE2PA e \<notin> pt_pages (mem (s\<lparr>mem := m\<rparr>)) 2 pt" using p(3) by (simp only: f(2) not_False_eq_True)
  next
    fix va va' e e' assume v: "va < lim" "va' < lim" "pt_map s pt va = Some e" "pt_map s pt va' = Some e'"
      "PTE2PA e = PTE2PA e'"
    show "PGROUNDDOWN va = PGROUNDDOWN va'" by (rule uvm_inv_inj [OF inv v(1,3,2,4,5)])
  qed
qed

lemma user_write:
  assumes inv: "uvm_inv s F pt lim" and va: "va < lim" "pt_map s pt va = Some e"
    and m: "\<And>x. \<not> in_page (PTE2PA e) x \<Longrightarrow> m x = mem s x"
  shows "uvm_inv (s\<lparr>mem := m\<rparr>) F pt lim" "pt_map (s\<lparr>mem := m\<rparr>) pt = pt_map s pt"
    "pt_pages m 2 pt = pt_pages (mem s) 2 pt"
  using page_write [OF inv PTE2PA_aligned uvm_inv_page(2,3) [OF inv va] m] by blast+

lemma copyout_chunk:
  assumes inv: "uvm_inv s F pt lim" and len: "0 < len" "unat dstva + unat len \<le> unat lim"
    "unat src + unat len \<le> 2 ^ 64" and w: "user_writable s pt dstva"
  defines "n \<equiv> page_room dstva len"
  defines "m \<equiv> mem_write (mem s) (user_pa s pt dstva) (mem_read (mem s) src (unat n))"
  shows "copyout psz ppt pt dstva src len s =
    copyout psz ppt pt (PGROUNDDOWN dstva + PGSIZE) (src + n) (len - n) (s\<lparr>mem := m\<rparr>)"
proof -
  obtain e where e: "pt_map s pt dstva = Some e" "e AND PTE_U \<noteq> 0" "e AND PTE_W \<noteq> 0"
    using w by (auto simp: user_writable_def)
  have lim: "lim \<le> MAXVA" "unat lim \<le> 2 ^ 38" using uvm_inv_lim [OF inv] by (auto simp: word_le_nat_alt)
  have dl: "dstva < lim" using len by (auto simp: word_less_nat_alt)
  have le: "PGROUNDDOWN dstva \<le> dstva"
    using unat_PGROUNDDOWN [of dstva] by (simp add: word_le_nat_alt)
  then have vM: "PGROUNDDOWN dstva < MAXVA" "dstva < MAXVA" using dl lim(1) by auto
  have nM: "(MAXVA \<le> PGROUNDDOWN dstva) = False" using vM(1) by simp
  note pg = uvm_inv_page [OF inv dl e(1)]
  have nz: "PTE2PA e \<noteq> 0"
    using pg(1) kalloc_inv_KERNBASE [of s F] uvm_inv_pt [OF inv] by (auto simp: pt_inv_def valid_page_def riscv_consts)
  have wa: "walkaddr pt (PGROUNDDOWN dstva) s = Inr (PTE2PA e)"
    using walkaddr_ok [OF uvm_inv_pt [OF inv], of "PGROUNDDOWN dstva"] e vM by auto
  obtain pte where pte: "walk pt (PGROUNDDOWN dstva) False s = Inr (pte, s)" "pte \<noteq> 0" "ld64 (mem s) pte = e"
    using walk_lookup_map [OF uvm_inv_pt [OF inv] vM(1)] e(1) by (metis option.distinct(1) option.inject pt_map_PGROUNDDOWN)
  have n: "unat n \<le> 4096" "unat n \<le> unat len" "unat dstva mod 4096 + unat n \<le> 4096"
    by (auto simp: n_def unat_page_room)
  have un: "unat (ucast n :: u32) = unat n"
    using n(1) by (simp add: unsigned_ucast_eq take_bit_nat_eq_self)
  have pa: "user_pa s pt dstva = PTE2PA e + (dstva - PGROUNDDOWN dstva)" using e(1) by (simp add: user_pa_def)
  have "unat (user_pa s pt dstva) + unat n \<le> 2 ^ 64"
    using page_offset(1) [OF PTE2PA_aligned, of e dstva] pg_aligned_bound [OF PTE2PA_aligned, of e] n(3) unfolding pa by linarith
  then have "memmove (mem s) (PTE2PA e + (dstva - PGROUNDDOWN dstva)) src (ucast n) = m"
    using memmove_correct [of src "ucast n" "user_pa s pt dstva" "mem s"] n(2) len(3) un
    by (simp add: m_def pa)
  then show ?thesis
    using len(1) nM wa nz pte e(3) by (subst copyout.simps) (simp add: Let_def ld_pte_def n_def)
qed


text \<open>The bytes a chunk changes, as user addresses.\<close>

lemma chunk_pa:
  assumes "i < unat (page_room va len)" "unat va + unat len \<le> 2 ^ 38"
  shows "user_pa s pt (va + of_nat i) = user_pa s pt va + of_nat i"
proof -
  have "pt_map s pt (va + of_nat i) = pt_map s pt va"
    using chunk_page(2) [OF assms] pt_map_PGROUNDDOWN by metis
  then show ?thesis using chunk_page(2) [OF assms] by (simp add: user_pa_def)
qed

lemma chunk_write:
  fixes n :: u64
  assumes n: "n = page_room va len" and len: "unat va + unat len \<le> 2 ^ 38"
    and m: "m' = mem_write m (user_pa s pt va) (mem_read m src (unat n))"
  shows "i < unat n \<Longrightarrow> m' (user_pa s pt (va + of_nat i)) = m (src + of_nat i)"
    and "(\<And>i. i < unat n \<Longrightarrow> x \<noteq> user_pa s pt (va + of_nat i)) \<Longrightarrow> m' x = m x"
proof -
  assume i: "i < unat n"
  have "unat (of_nat i :: u64) = i" using i u64_bound [of n] by (simp add: unat_of_nat)
  then show "m' (user_pa s pt (va + of_nat i)) = m (src + of_nat i)"
    using i chunk_pa [of i va len s pt] n len by (simp add: m mem_write_def)
next
  assume x: "\<And>i. i < unat n \<Longrightarrow> x \<noteq> user_pa s pt (va + of_nat i)"
  have "\<not> unat (x - user_pa s pt va) < unat n"
  proof
    assume l: "unat (x - user_pa s pt va) < unat n"
    then have "user_pa s pt (va + of_nat (unat (x - user_pa s pt va))) = x"
      using chunk_pa [of "unat (x - user_pa s pt va)" va len s pt] n len by simp
    then show False using x [OF l] by simp
  qed
  then show "m' x = m x" by (simp add: m mem_write_def)
qed

text \<open>After a chunk, what is left to copy lies further on in the same range.\<close>

lemma chunk_rest:
  fixes n :: u64
  assumes n: "n = page_room va len" and len: "0 < len" "unat va + unat len \<le> 2 ^ 38"
  shows "unat n \<le> unat len" "0 < unat n" "unat (len - n) = unat len - unat n"
    "i < unat (len - n) \<Longrightarrow> PGROUNDDOWN va + PGSIZE + of_nat i = va + of_nat (unat n + i)"
    "0 < unat (len - n) \<Longrightarrow> unat (PGROUNDDOWN va + PGSIZE) = unat va + unat n"
proof -
  show le: "unat n \<le> unat len" "0 < unat n" using len by (auto simp: n unat_page_room word_less_nat_alt)
  show sub: "unat (len - n) = unat len - unat n" using le by (simp add: unat_sub_if')
  have nx: "unat (PGROUNDDOWN va + PGSIZE) = unat va + unat n" if "0 < unat (len - n)"
  proof -
    have nn: "unat n = 4096 - unat va mod 4096" using that sub by (auto simp: n unat_page_room min_def split: if_splits)
    have "unat (PGROUNDDOWN va + PGSIZE) = 4096 * (unat va div 4096) + 4096"
      using len(2) by (simp add: unat_word_ariths unat_PGROUNDDOWN PGSIZE_def)
    also have "\<dots> = unat va + unat n"
    proof -
      have "unat va = 4096 * (unat va div 4096) + unat va mod 4096" "unat va mod 4096 < 4096" by simp_all
      then show ?thesis using nn by linarith
    qed
    finally show ?thesis .
  qed
  then show "0 < unat (len - n) \<Longrightarrow> unat (PGROUNDDOWN va + PGSIZE) = unat va + unat n" .
  assume i: "i < unat (len - n)"
  have "PGROUNDDOWN va + PGSIZE = va + n"
    using nx i le len(2) by (intro unat_eqD) (simp add: unat_word_ariths)
  then show "PGROUNDDOWN va + PGSIZE + of_nat i = va + of_nat (unat n + i)" by (simp add: add.assoc)
qed

text \<open>
  \<open>n\<close> bytes from \<open>src\<close> were copied to the addresses \<open>d 0\<close>, \<open>d 1\<close>, and nothing else changed.
\<close>

definition bytes_moved :: "memory \<Rightarrow> memory \<Rightarrow> (nat \<Rightarrow> u64) \<Rightarrow> u64 \<Rightarrow> nat \<Rightarrow> bool" where
  "bytes_moved m m' d src n \<longleftrightarrow>
     (\<forall>i<n. m' (d i) = m (src + of_nat i)) \<and> (\<forall>x. x \<notin> d ` {..<n} \<longrightarrow> m' x = m x)"

lemma bytes_moved_append:
  assumes "bytes_moved m m1 d src n" "bytes_moved m1 m2 (\<lambda>i. d (n + i)) (src + of_nat n) k"
    "inj_on d {..<n + k}" "\<And>i. i < n + k \<Longrightarrow> src + of_nat i \<notin> d ` {..<n + k}"
  shows "bytes_moved m m2 d src (n + k)"
  unfolding bytes_moved_def
proof (intro conjI allI impI)
  fix i assume i: "i < n + k"
  show "m2 (d i) = m (src + of_nat i)"
  proof (cases "i < n")
    case True
    have "d i \<notin> (\<lambda>i. d (n + i)) ` {..<k}"
    proof
      assume "d i \<in> (\<lambda>i. d (n + i)) ` {..<k}"
      then obtain j where "j < k" "d i = d (n + j)" by blast
      then show False using inj_onD [OF assms(3), of i "n + j"] True by simp
    qed
    then show ?thesis using assms(1,2) True by (simp add: bytes_moved_def)
  next
    case False
    then have k: "i = n + (i - n)" "i - n < k" using i by simp_all
    have "m2 (d (n + (i - n))) = m1 (src + of_nat n + of_nat (i - n))"
      using assms(2) k(2) by (simp add: bytes_moved_def)
    also have "src + of_nat n + of_nat (i - n) = src + of_nat i"
      using k(1) by (metis add.assoc of_nat_add)
    also have "m1 (src + of_nat i) = m (src + of_nat i)"
    proof -
      have "src + of_nat i \<notin> d ` {..<n}" using assms(4) [OF i] by auto
      then show ?thesis using assms(1) by (simp add: bytes_moved_def)
    qed
    finally show ?thesis using k(1) by simp
  qed
next
  fix x assume x: "x \<notin> d ` {..<n + k}"
  then have "x \<notin> d ` {..<n}" "x \<notin> (\<lambda>i. d (n + i)) ` {..<k}" by auto
  then show "m2 x = m x" using assms(1,2) by (simp add: bytes_moved_def)
qed

text \<open>The physical addresses of the user buffer at \<open>va\<close>.\<close>

definition user_buf :: "'z kmem_scheme \<Rightarrow> u64 \<Rightarrow> u64 \<Rightarrow> nat \<Rightarrow> u64" where
  "user_buf s pt va i = user_pa s pt (va + of_nat i)"

lemma user_buf_cong: "pt_map s' pt = pt_map s pt \<Longrightarrow> user_buf s' pt = user_buf s pt"
  by (intro ext) (simp add: user_buf_def user_pa_def)

lemma user_buf_inj:
  assumes "uvm_inv s F pt lim" "unat va + n \<le> unat lim" "\<And>i. i < n \<Longrightarrow> pt_map s pt (va + of_nat i) \<noteq> None"
  shows "inj_on (user_buf s pt va) {..<n}"
proof (rule inj_onI)
  fix i j assume ij: "i \<in> {..<n}" "j \<in> {..<n}" "user_buf s pt va i = user_buf s pt va j"
  have b: "unat (va + of_nat k) = unat va + k" if "k < n" for k
    using that assms(2) u64_bound [of lim] by (simp add: unat_word_ariths unat_of_nat)
  have l: "va + of_nat i < lim" "va + of_nat j < lim" using ij b assms(2) by (auto simp: word_less_nat_alt)
  obtain e e' where e: "pt_map s pt (va + of_nat i) = Some e" "pt_map s pt (va + of_nat j) = Some e'"
    using assms(3) ij by blast
  have "va + of_nat i = va + of_nat j"
    using user_pa_inj [OF assms(1) l(1) e(1) l(2) e(2)] ij(3) unfolding user_buf_def by blast
  then have "unat va + i = unat va + j" using b [of i] b [of j] ij(1,2) by (metis lessThan_iff)
  then show "i = j" by simp
qed

text \<open>One chunk.\<close>

lemma copyout_round:
  assumes inv: "uvm_inv s F pt lim" and len: "0 < len" "unat dstva + unat len \<le> unat lim"
    "unat src + unat len \<le> 2 ^ 64" and w: "user_writable s pt dstva"
  defines "n \<equiv> page_room dstva len"
  obtains m where "copyout psz ppt pt dstva src len s =
      copyout psz ppt pt (PGROUNDDOWN dstva + PGSIZE) (src + n) (len - n) (s\<lparr>mem := m\<rparr>)"
    "bytes_moved (mem s) m (user_buf s pt dstva) src (unat n)"
    "uvm_inv (s\<lparr>mem := m\<rparr>) F pt lim" "pt_map (s\<lparr>mem := m\<rparr>) pt = pt_map s pt"
proof -
  define m where m: "m = mem_write (mem s) (user_pa s pt dstva) (mem_read (mem s) src (unat n))"
  have l38: "unat dstva + unat len \<le> 2 ^ 38"
    using uvm_inv_lim [OF inv] len(2) by (simp add: word_le_nat_alt)
  note cw = chunk_write [OF n_def [THEN meta_eq_to_obj_eq] l38 m]
  obtain e where e: "pt_map s pt dstva = Some e" using w by (auto simp: user_writable_def)
  have dl: "dstva < lim" using len by (auto simp: word_less_nat_alt)
  have pg: "in_page (PTE2PA e) (user_pa s pt (dstva + of_nat i))" if "i < unat n" for i
  proof -
    have "pt_map s pt (dstva + of_nat i) = Some e"
      using chunk_page(2) [OF that [unfolded n_def] l38] e pt_map_PGROUNDDOWN by metis
    then show ?thesis by (rule user_pa_in_page)
  qed
  have "m x = mem s x" if "\<not> in_page (PTE2PA e) x" for x by (rule cw(2)) (use that pg in auto)
  note uw = user_write [OF inv dl e this]
  have "bytes_moved (mem s) m (user_buf s pt dstva) src (unat n)"
    unfolding bytes_moved_def user_buf_def
  proof (intro conjI allI impI)
    show "m x = mem s x" if "x \<notin> (\<lambda>i. user_pa s pt (dstva + of_nat i)) ` {..<unat n}" for x
      by (rule cw(2)) (use that in blast)
  qed (rule cw(1))
  then show thesis using that copyout_chunk [OF inv len w, of psz ppt, folded n_def, folded m] uw by blast
qed

lemma copyout_ok:
  assumes "uvm_inv s F pt lim" "unat dstva + unat len \<le> unat lim" "unat src + unat len \<le> 2 ^ 64"
    "\<And>i. i < unat len \<Longrightarrow> user_writable s pt (dstva + of_nat i)"
    "\<And>i. i < unat len \<Longrightarrow> src + of_nat i \<notin> user_buf s pt dstva ` {..<unat len}"
  shows "\<exists>m. copyout psz ppt pt dstva src len s = Inr (0, s\<lparr>mem := m\<rparr>) \<and>
    uvm_inv (s\<lparr>mem := m\<rparr>) F pt lim \<and> pt_map (s\<lparr>mem := m\<rparr>) pt = pt_map s pt \<and>
    bytes_moved (mem s) m (user_buf s pt dstva) src (unat len)"
  using assms
proof (induction "unat len" arbitrary: len dstva src s rule: less_induct)
  case less
  note inv = less.prems(1) and W = less.prems(4) and S = less.prems(5)
  show ?case
  proof (cases "len = 0")
    case True
    then show ?thesis using inv by (intro exI [of _ "mem s"]) (simp add: copyout.simps bytes_moved_def)
  next
    case False
    then have len: "0 < len" by (simp add: word_gt_0)
    have l38: "unat dstva + unat len \<le> 2 ^ 38"
      using uvm_inv_lim [OF inv] less.prems(2) by (simp add: word_le_nat_alt)
    define n where n: "n = page_room dstva len"
    note r = chunk_rest [OF n len l38]
    have w0: "user_writable s pt dstva" using W [of 0] len by (simp add: word_less_nat_alt)
    obtain m where m: "copyout psz ppt pt dstva src len s =
        copyout psz ppt pt (PGROUNDDOWN dstva + PGSIZE) (src + n) (len - n) (s\<lparr>mem := m\<rparr>)"
        "bytes_moved (mem s) m (user_buf s pt dstva) src (unat n)"
        "uvm_inv (s\<lparr>mem := m\<rparr>) F pt lim" "pt_map (s\<lparr>mem := m\<rparr>) pt = pt_map s pt"
      by (rule copyout_round [OF inv len less.prems(2,3) w0, folded n]) blast
    note bc = user_buf_cong [OF m(4)]
    show ?thesis
    proof (cases "unat (len - n) = 0")
      case True
      then have "len = n" using r(3) r(1) by (intro unat_eqD) simp
      then show ?thesis using m by (intro exI [of _ m]) (simp add: copyout.simps)
    next
      case False
      then have pos: "0 < unat (len - n)" by simp
      have d: "PGROUNDDOWN dstva + PGSIZE = dstva + n" using r(4) [OF pos] by simp
      have buf: "user_buf s pt (dstva + n) i = user_buf s pt dstva (unat n + i)"
        "src + n + of_nat i = src + of_nat (unat n + i)" for i by (simp_all add: user_buf_def add.assoc)
      have sum: "unat n + unat (len - n) = unat len" using r(1,3) by simp
      have "\<exists>m'. copyout psz ppt pt (dstva + n) (src + n) (len - n) (s\<lparr>mem := m\<rparr>) = Inr (0, s\<lparr>mem := m\<rparr>\<lparr>mem := m'\<rparr>) \<and>
        uvm_inv (s\<lparr>mem := m\<rparr>\<lparr>mem := m'\<rparr>) F pt lim \<and> pt_map (s\<lparr>mem := m\<rparr>\<lparr>mem := m'\<rparr>) pt = pt_map (s\<lparr>mem := m\<rparr>) pt \<and>
        bytes_moved (mem (s\<lparr>mem := m\<rparr>)) m' (user_buf (s\<lparr>mem := m\<rparr>) pt (dstva + n)) (src + n) (unat (len - n))"
      proof (rule less.hyps [OF _ m(3)])
        show "unat (len - n) < unat len" using r(1-3) by linarith
        show "unat (dstva + n) + unat (len - n) \<le> unat lim" using r(5) [OF pos] sum less.prems(2) by (simp add: d)
        show "unat (src + n) + unat (len - n) \<le> 2 ^ 64"
          using less.prems(3) sum pos by (simp add: unat_word_ariths)
        show "user_writable (s\<lparr>mem := m\<rparr>) pt (dstva + n + of_nat i)" if "i < unat (len - n)" for i
          using W [of "unat n + i"] that sum by (simp add: user_writable_def m(4) add.assoc)
        show "src + n + of_nat i \<notin> user_buf (s\<lparr>mem := m\<rparr>) pt (dstva + n) ` {..<unat (len - n)}"
          if "i < unat (len - n)" for i
          using S [of "unat n + i"] that sum unfolding bc buf by force
      qed
      then obtain m' where m': "copyout psz ppt pt (dstva + n) (src + n) (len - n) (s\<lparr>mem := m\<rparr>) = Inr (0, s\<lparr>mem := m'\<rparr>)"
        "uvm_inv (s\<lparr>mem := m'\<rparr>) F pt lim" "pt_map (s\<lparr>mem := m'\<rparr>) pt = pt_map s pt"
        "bytes_moved m m' (user_buf s pt (dstva + n)) (src + n) (unat (len - n))"
        by (auto simp: bc m(4))
      have inj: "inj_on (user_buf s pt dstva) {..<unat len}"
        by (rule user_buf_inj [OF inv less.prems(2)]) (use W in \<open>auto simp: user_writable_def\<close>)
      have "bytes_moved (mem s) m' (user_buf s pt dstva) src (unat n + unat (len - n))"
        by (rule bytes_moved_append [OF m(2)])
           (use m'(4) inj S in \<open>simp_all add: sum buf(1) [abs_def, symmetric]\<close>)
      then show ?thesis using m(1) m'(1-3) by (auto simp: d sum)
    qed
  qed
qed


text \<open>The first page decides: a user page without \<^verbatim>\<open>PTE_W\<close> is refused.\<close>

lemma copyout_read_only:
  assumes inv: "uvm_inv s F pt lim" and len: "0 < len" and va: "dstva < lim" "pt_map s pt dstva = Some e"
    "e AND PTE_U \<noteq> 0" "e AND PTE_W = 0"
  shows "copyout psz ppt pt dstva src len s = Inr (-1, s)"
proof -
  have lim: "lim \<le> MAXVA" by (rule uvm_inv_lim [OF inv])
  have "PGROUNDDOWN dstva \<le> dstva" using unat_PGROUNDDOWN [of dstva] by (simp add: word_le_nat_alt)
  then have vM: "PGROUNDDOWN dstva < MAXVA" using va(1) lim by auto
  have nM: "(MAXVA \<le> PGROUNDDOWN dstva) = False" using vM by simp
  have nz: "PTE2PA e \<noteq> 0"
    using uvm_inv_page(1) [OF inv va(1,2)] kalloc_inv_KERNBASE [of s F] uvm_inv_pt [OF inv]
    by (auto simp: pt_inv_def valid_page_def riscv_consts)
  have wa: "walkaddr pt (PGROUNDDOWN dstva) s = Inr (PTE2PA e)"
    using walkaddr_ok [OF uvm_inv_pt [OF inv], of "PGROUNDDOWN dstva"] va vM by auto
  obtain pte where pte: "walk pt (PGROUNDDOWN dstva) False s = Inr (pte, s)" "pte \<noteq> 0" "ld64 (mem s) pte = e"
    using walk_lookup_map [OF uvm_inv_pt [OF inv] vM] va(2) by (metis option.distinct(1) option.inject pt_map_PGROUNDDOWN)
  show ?thesis
    using len nM wa nz pte va(4) by (subst copyout.simps) (simp add: Let_def ld_pte_def)
qed

text \<open>The one user page of \<open>one_page_parent\<close> is writable.\<close>

lemma one_page_user:
  obtains pg s1 s F where "kalloc (pool 8) = Inr (pg, s1)"
    "mappages root 0 PGSIZE pg (PTE_R OR PTE_U OR PTE_W) (s1\<lparr>mem := memset (mem s1) pg 0 4096\<rparr>) = Inr (0, s)"
    "fork_inv s F root root2 MAXVA" "copy_ready s root root2 0 0x1000" "2 \<le> card F" "valid_page s pg" "kend s = 0x80100000"
    "\<And>va. va < 0x1000 \<Longrightarrow> user_writable s root va \<and> user_pa s root va = pg + va"
proof -
  obtain pg s1 s F where p: "kalloc (pool 8) = Inr (pg, s1)"
    "mappages root 0 PGSIZE pg (PTE_R OR PTE_U OR PTE_W) (s1\<lparr>mem := memset (mem s1) pg 0 4096\<rparr>) = Inr (0, s)"
    "fork_inv s F root root2 MAXVA" "copy_ready s root root2 0 0x1000" "2 \<le> card F"
    "pt_map s root 0 = Some (PA2PTE pg OR (PTE_R OR PTE_U OR PTE_W) OR PTE_V)"
    "valid_page s pg" "kend s = 0x80100000"
    by (rule one_page_parent) blast
  let ?e = "PA2PTE pg OR (PTE_R OR PTE_U OR PTE_W) OR PTE_V"
  have b: "bit ?e 4" "bit ?e 2" by (simp_all add: riscv_consts bit_simps)
  have c: "bit (PTE_U :: u64) 4" "bit (PTE_W :: u64) 2" by (simp_all add: PTE_U_def PTE_W_def bit_simps)
  have "bit (?e AND PTE_U) 4" "bit (?e AND PTE_W) 2" using b c by (simp_all add: bit_simps)
  then have uw: "?e AND PTE_U \<noteq> 0" "?e AND PTE_W \<noteq> 0" by (metis bit_0_eq bot_apply bot_bool_def)+
  have leaf: "PTE2PA ?e = pg"
    using PTE2PA_leaf(1) [OF p(7), of "PTE_R OR PTE_U OR PTE_W"] by (simp add: riscv_consts PTE_FLAGS_def)
  have "user_writable s root va \<and> user_pa s root va = pg + va" if "va < 0x1000" for va
  proof -
    have "unat va div 4096 = 0" using that by (simp add: word_less_nat_alt)
    then have d: "PGROUNDDOWN va = 0" by (intro unat_eqD) (simp add: unat_PGROUNDDOWN)
    then have "pt_map s root va = Some ?e" using p(6) pt_map_PGROUNDDOWN [of s root va] by simp
    then show ?thesis using uw leaf d by (simp add: user_writable_def user_pa_def)
  qed
  then show thesis using that [OF p(1-5,7,8)] by blast
qed


section \<open>Properties\<close>

text \<open>
  C22. \<^verbatim>\<open>copyout\<close> into user pages that are mapped, writable and distinct from the source returns 0 and
  copies every byte to the physical address behind its user address, across page boundaries; no
  other byte of memory changes, and neither does the address space.
\<close>

theorem copyout_copies:
  assumes "uvm_inv s F pt lim" "unat dstva + unat len \<le> unat lim" "unat src + unat len \<le> 2 ^ 64"
    "\<And>i. i < unat len \<Longrightarrow> user_writable s pt (dstva + of_nat i)"
    "\<And>i. i < unat len \<Longrightarrow> src + of_nat i \<notin> user_buf s pt dstva ` {..<unat len}"
  shows "\<exists>s'. copyout psz ppt pt dstva src len s = Inr (0, s') \<and> uvm_inv s' F pt lim \<and>
    pt_map s' pt = pt_map s pt \<and> bytes_moved (mem s) (mem s') (user_buf s pt dstva) src (unat len)"
proof -
  obtain m where m: "copyout psz ppt pt dstva src len s = Inr (0, s\<lparr>mem := m\<rparr>)" "uvm_inv (s\<lparr>mem := m\<rparr>) F pt lim"
      "pt_map (s\<lparr>mem := m\<rparr>) pt = pt_map s pt" "bytes_moved (mem s) m (user_buf s pt dstva) src (unat len)"
    using copyout_ok [OF assms] by blast
  then show ?thesis by (intro exI [of _ "s\<lparr>mem := m\<rparr>"]) simp
qed

theorem copyout_copies_witness:
  "\<exists>pg s1 s s'. kalloc (pool 8) = Inr (pg, s1) \<and>
     mappages root 0 PGSIZE pg (PTE_R OR PTE_U OR PTE_W) (s1\<lparr>mem := memset (mem s1) pg 0 4096\<rparr>) = Inr (0, s) \<and>
     copyout 0x1000 root root 0x800 KERNBASE 16 s = Inr (0, s') \<and> mem s' (pg + 0x801) = mem s (KERNBASE + 1)"
proof -
  obtain pg s1 s F where p: "kalloc (pool 8) = Inr (pg, s1)"
    "mappages root 0 PGSIZE pg (PTE_R OR PTE_U OR PTE_W) (s1\<lparr>mem := memset (mem s1) pg 0 4096\<rparr>) = Inr (0, s)"
    "fork_inv s F root root2 MAXVA" "valid_page s pg" "kend s = 0x80100000"
    "\<And>va. va < 0x1000 \<Longrightarrow> user_writable s root va \<and> user_pa s root va = pg + va"
    by (rule one_page_user) blast
  have small: "(0x800 + of_nat i :: u64) < 0x1000" "unat (0x800 + of_nat i :: u64) = 0x800 + i" if "i < 16" for i
    using that by (simp_all add: word_less_nat_alt unat_word_ariths unat_of_nat)
  have buf: "user_buf s root 0x800 i = pg + (0x800 + of_nat i)" if "i < 16" for i
    using p(6) [OF small(1) [OF that]] by (simp add: user_buf_def)
  have pg: "0x80100000 \<le> unat pg" "unat pg + 4096 \<le> 2 ^ 64"
    using p(4,5) pg_aligned_bound [OF valid_page_aligned [OF p(4)]] by (simp_all add: valid_page_def word_le_nat_alt)
  have apart: "KERNBASE + of_nat i \<notin> user_buf s root 0x800 ` {..<16}" if "i < 16" for i
  proof
    assume "KERNBASE + of_nat i \<in> user_buf s root 0x800 ` {..<16}"
    then obtain j where j: "j < 16" "KERNBASE + of_nat i = pg + (0x800 + of_nat j)" using buf by auto
    have "unat (KERNBASE + of_nat i) = 0x80000000 + i"
      using that by (simp add: riscv_consts unat_word_ariths unat_of_nat)
    moreover have "unat (pg + (0x800 + of_nat j)) = unat pg + (0x800 + j)"
      using pg(2) small(2) [OF j(1)] j(1) by (subst unat_word_ariths) simp
    ultimately show False using j(2) pg(1) that by simp
  qed
  have "\<exists>s'. copyout 0x1000 root root 0x800 KERNBASE 16 s = Inr (0, s') \<and> uvm_inv s' F root MAXVA \<and>
      pt_map s' root = pt_map s root \<and> bytes_moved (mem s) (mem s') (user_buf s root 0x800) KERNBASE (unat (16 :: u64))"
    by (rule copyout_copies [OF fork_inv_old [OF p(3)]])
       (use p(6) small apart in \<open>auto simp: riscv_consts\<close>)
  then obtain s' where s': "copyout 0x1000 root root 0x800 KERNBASE 16 s = Inr (0, s')"
      "bytes_moved (mem s) (mem s') (user_buf s root 0x800) KERNBASE 16" by auto
  then have "mem s' (pg + 0x801) = mem s (KERNBASE + 1)" using buf [of 1] by (auto simp: bytes_moved_def dest: spec [of _ 1])
  then show ?thesis using p(1,2) s'(1) by blast
qed

text \<open>
  C37. After a copy-on-write \<^verbatim>\<open>fork\<close> the kernel can no longer write the parent's memory: \<^verbatim>\<open>copyout\<close> to an
  address that was a writable user page before the \<^verbatim>\<open>fork\<close> returns -1.
\<close>

theorem copyout_fails_after_fork:
  assumes "fork_inv s F old new lim" "sz \<le> lim" "PGROUNDUP sz \<le> lim" "2 * new_pages 0 sz \<le> card F"
    "copy_ready s old new 0 (PGROUNDUP sz)" "0 < len" "dstva < PGROUNDUP sz" "user_writable s old dstva"
  shows "\<exists>s'. uvmcopy old new sz s = Inr (0, s') \<and> copyout psz ppt old dstva src len s' = Inr (-1, s')"
proof -
  obtain s' F' where s': "uvmcopy old new sz s = Inr (0, s')" "uvm_inv s' F' old lim"
      "range_shared old new 0 (PGROUNDUP sz) s F s' F'"
    using uvmcopy_ok [OF assms(1-5)] by blast
  obtain e where e: "pt_map s old dstva = Some e" "e AND PTE_U \<noteq> 0" "e AND PTE_W \<noteq> 0"
    using assms(8) by (auto simp: user_writable_def)
  have lim: "dstva < lim" "dstva < MAXVA" using assms(3,7) uvm_inv_lim [OF s'(2)] by auto
  have "pt_map s' old dstva = Some (cow_pte e)"
    using s'(3) lim(2) assms(7) e(1) unfolding range_shared_def by simp
  then have "copyout psz ppt old dstva src len s' = Inr (-1, s')"
    using copyout_read_only [OF s'(2) assms(6) lim(1)] cow_pte_bits(3,4) e(2) by simp
  then show ?thesis using s'(1) by blast
qed

theorem copyout_fails_after_fork_witness:
  "\<exists>pg s1 s s'. kalloc (pool 8) = Inr (pg, s1) \<and>
     mappages root 0 PGSIZE pg (PTE_R OR PTE_U OR PTE_W) (s1\<lparr>mem := memset (mem s1) pg 0 4096\<rparr>) = Inr (0, s) \<and>
     uvmcopy root root2 0x1000 s = Inr (0, s') \<and> copyout 0x1000 root root 0x800 KERNBASE 16 s' = Inr (-1, s')"
proof -
  obtain pg s1 s F where p: "kalloc (pool 8) = Inr (pg, s1)"
    "mappages root 0 PGSIZE pg (PTE_R OR PTE_U OR PTE_W) (s1\<lparr>mem := memset (mem s1) pg 0 4096\<rparr>) = Inr (0, s)"
    "fork_inv s F root root2 MAXVA" "copy_ready s root root2 0 0x1000" "2 \<le> card F"
    "\<And>va. va < 0x1000 \<Longrightarrow> user_writable s root va \<and> user_pa s root va = pg + va"
    by (rule one_page_user) blast
  have r: "PGROUNDUP 0 = 0" "PGROUNDUP 0x1000 = 0x1000" by (simp_all add: PGROUNDUP_def riscv_consts)
  have n: "new_pages 0 0x1000 = 1" by (simp add: new_pages_def r)
  have "(0x1000 :: u64) \<le> MAXVA" by (simp add: riscv_consts)
  then show ?thesis
    using copyout_fails_after_fork [OF p(3), of "0x1000" 16 "0x800"] p(1,2,4,5) p(6) [of "0x800"] r n by auto
qed

text \<open>
  C23. \<^verbatim>\<open>vmfault\<close> maps a lazily allocated page: for an unmapped address below the size of the process,
  with three free pages, a fresh page of zeroes with one reference is mapped readable and
  writable and its address returned; for an address that is mapped or beyond the size it returns
  0 and changes nothing.
\<close>

theorem vmfault_lazy:
  assumes "uvm_inv s F pt lim" "p_sz \<le> lim" "3 \<le> card F"
  shows "if va < p_sz \<and> pt_map s pt va = None
    then \<exists>pg s' F'. vmfault p_sz pt pt va s = Inr (pg, s') \<and> pg \<noteq> 0 \<and> uvm_inv s' F' pt lim \<and>
      page_added pt (PGROUNDDOWN va) pg (PTE_W OR PTE_U OR PTE_R) s F s' F'
    else vmfault p_sz pt pt va s = Inr (0, s)"
proof (cases "va < p_sz")
  case True
  let ?perm = "PTE_W OR PTE_U OR PTE_R"
  have "PGROUNDDOWN va \<le> va" using unat_PGROUNDDOWN [of va] by (simp add: word_le_nat_alt)
  moreover have "p_sz \<le> MAXVA" using assms(2) uvm_inv_lim [OF assms(1)] by (rule order_trans)
  ultimately have vM: "PGROUNDDOWN va < MAXVA" using True by (meson le_less_trans less_le_trans)
  have nle: "\<not> p_sz \<le> va" using True by simp
  note im = ismapped_ok [OF uvm_inv_pt [OF assms(1)] vM]
  show ?thesis
  proof (cases "pt_map s pt va")
    case None
    then have n: "pt_map s pt (PGROUNDDOWN va) = None" by simp
    obtain pg s1 s2 F2 where o: "kalloc s = Inr (pg, s1)" "pg \<noteq> 0" "valid_page s pg"
      "mappages pt (PGROUNDDOWN va) PGSIZE pg ?perm (s1\<lparr>mem := memset (mem s1) pg 0 4096\<rparr>) = Inr (0, s2)"
      "page_added pt (PGROUNDDOWN va) pg ?perm s F s2 F2" "pt_inv s2 F2 2 pt" "pg \<notin> pt_pages (mem s2) 2 pt"
      by (rule alloc_map_one [OF uvm_inv_pt [OF assms(1)] PGROUNDDOWN_aligned vM n assms(3)]) blast
    have "PTE_FLAGS ?perm = ?perm" by (simp add: riscv_consts PTE_FLAGS_def)
    then have "uvm_inv s2 F2 pt lim" using uvm_inv_added [OF assms(1) o(5,6,3,7)] by blast
    moreover have "vmfault p_sz pt pt va s = Inr (pg, s2)"
      using nle im o(1,2,4) None unfolding vmfault_def Let_def by simp
    ultimately show ?thesis using True None o(2,5) by auto
  next
    case (Some e)
    then have "vmfault p_sz pt pt va s = Inr (0, s)" using nle im unfolding vmfault_def Let_def by simp
    then show ?thesis using Some by simp
  qed
next
  case False
  then have "p_sz \<le> va" by simp
  then show ?thesis using False by (simp add: vmfault_def)
qed

theorem vmfault_lazy_witness:
  "\<exists>pg s'. vmfault 0x2000 root root 0x1234 (pool 8) = Inr (pg, s') \<and> pg \<noteq> 0 \<and>
     vmfault 0x2000 root root 0x2000 (pool 8) = Inr (0, pool 8)"
proof -
  note pp = pool_pt(2,3) [of 8 root, simplified]
  have c: "3 \<le> card (pool_page ` {..<8})" using pool_card [of 8] by simp
  have m: "(0x2000 :: u64) \<le> MAXVA" by (simp add: riscv_consts)
  show ?thesis
    using vmfault_lazy [OF pp(2) m c, of "0x1234"] vmfault_lazy [OF pp(2) m c, of "0x2000"] pp(1) by auto
qed

end
