(* ===== verification/Kcopyin.thy ===== *)
theory Kcopyin
  imports Usercopy
begin

text \<open>
  Copying from user memory by dereferencing user addresses in the process's kernel page table
  (\<^verbatim>\<open>kernel/vmcopyin.c\<close>), and the copies of \<^verbatim>\<open>kernel/proc.c\<close> that take either kind of address. A load
  through the kernel page table faults when the page is not mapped, not readable or a user page,
  and a fault in supervisor mode ends in the panic of \<^verbatim>\<open>kerneltrap\<close>. Stores go to kernel addresses,
  which are mapped to themselves.
\<close>

unbundle bit_operations_syntax

section \<open>Operations\<close>

text \<open>What the copy routines read of \<^verbatim>\<open>myproc()\<close>.\<close>

record uctx =
  c_sz :: u64
  c_pagetable :: u64
  c_kpagetable :: u64
  c_killed :: bool

definition vload :: "u64 \<Rightarrow> u64 \<Rightarrow> 'z kmem_scheme \<Rightarrow> u8 kres" where
  "vload kpt va s =
     (if va \<ge> MAXVA then Inl (Panic ''kerneltrap'')
      else case pt_map s kpt va of
        None \<Rightarrow> Inl (Panic ''kerneltrap'')
      | Some e \<Rightarrow>
          if e AND PTE_R = 0 \<or> e AND PTE_U \<noteq> 0 then Inl (Panic ''kerneltrap'')
          else Inr (mem s (PTE2PA e + (va - PGROUNDDOWN va))))"

primrec vmove_up :: "u64 \<Rightarrow> nat \<Rightarrow> u64 \<Rightarrow> u64 \<Rightarrow> 'z kmem_scheme \<Rightarrow> 'z kmem_scheme kres" where
  "vmove_up kpt 0 d va s = Inr s"
| "vmove_up kpt (Suc n) d va s =
     bnd (vload kpt va s) (\<lambda>c. vmove_up kpt n (d + 1) (va + 1) (s\<lparr>mem := (mem s)(d := c)\<rparr>))"

primrec vmove_down :: "u64 \<Rightarrow> nat \<Rightarrow> u64 \<Rightarrow> u64 \<Rightarrow> 'z kmem_scheme \<Rightarrow> 'z kmem_scheme kres" where
  "vmove_down kpt 0 d va s = Inr s"
| "vmove_down kpt (Suc n) d va s =
     bnd (vload kpt (va - 1) s) (\<lambda>c. vmove_down kpt n (d - 1) (va - 1) (s\<lparr>mem := (mem s)(d - 1 := c)\<rparr>))"

text \<open>
  \<^verbatim>\<open>memmove((void *)dst, (void *)srcva, len)\<close>: the count goes through a \<^verbatim>\<open>uint\<close>. The page table argument
  is not used; the loads go through the kernel page table that is installed.
\<close>

definition copyin_new :: "u64 \<Rightarrow> u64 \<Rightarrow> u64 \<Rightarrow> u64 \<Rightarrow> u64 \<Rightarrow> 'z kmem_scheme \<Rightarrow> (int \<times> 'z kmem_scheme) kres" where
  "copyin_new kpt pagetable dst srcva len s =
     (let n = ucast len :: u32 in
      bnd (if n = 0 then Inr s
           else if srcva < dst \<and> srcva + ucast n > dst
           then vmove_down kpt (unat n) (dst + ucast n) (srcva + ucast n) s
           else vmove_up kpt (unat n) dst srcva s) (\<lambda>s'. Inr (0, s')))"

definition copyin :: "u64 \<Rightarrow> u64 \<Rightarrow> u64 \<Rightarrow> u64 \<Rightarrow> u64 \<Rightarrow> 'z kmem_scheme \<Rightarrow> (int \<times> 'z kmem_scheme) kres" where
  "copyin kpt pagetable dst srcva len s = copyin_new kpt pagetable dst srcva len s"

definition either_copyout :: "uctx \<Rightarrow> bool \<Rightarrow> u64 \<Rightarrow> u64 \<Rightarrow> u64 \<Rightarrow> 'z kmem_scheme \<Rightarrow> (int \<times> 'z kmem_scheme) kres" where
  "either_copyout p user_dst dst src len s =
     (if user_dst then copyout (c_sz p) (c_pagetable p) (c_pagetable p) dst src len s
      else Inr (0, s\<lparr>mem := memmove (mem s) dst src (ucast len)\<rparr>))"

definition either_copyin :: "uctx \<Rightarrow> u64 \<Rightarrow> bool \<Rightarrow> u64 \<Rightarrow> u64 \<Rightarrow> 'z kmem_scheme \<Rightarrow> (int \<times> 'z kmem_scheme) kres" where
  "either_copyin p dst user_src src len s =
     (if user_src then copyin (c_kpagetable p) (c_pagetable p) dst src len s
      else Inr (0, s\<lparr>mem := memmove (mem s) dst src (ucast len)\<rparr>))"

text \<open>Mirroring the user entries from \<open>a\<close> to \<^verbatim>\<open>newsz\<close> in the kernel page table.\<close>

definition mirror_pte :: "u64 \<Rightarrow> u64" where
  "mirror_pte v = v AND NOT (PTE_U OR PTE_W OR PTE_X)"

function copy_pages :: "u64 \<Rightarrow> u64 \<Rightarrow> u64 \<Rightarrow> u64 \<Rightarrow> 'z kmem_scheme \<Rightarrow> 'z kmem_scheme kres" where
  "copy_pages proc_pt kernel_pt a newsz s =
     (if a < newsz then
        bnd (walk proc_pt a False s) (\<lambda>(pte1, s0).
        panic_if (pte1 = 0) ''no user pte'' (
        panic_if (ld64 (mem s0) pte1 AND PTE_V = 0) ''no valid user pte'' (
        bnd (walk kernel_pt a True s0) (\<lambda>(pte2, s1).
        panic_if (pte2 = 0) ''no kernel pte'' (
        let m1 = st64 (mem s1) pte2 (ld64 (mem s1) pte1) in
        copy_pages proc_pt kernel_pt (a + PGSIZE) newsz
          (s1\<lparr>mem := st64 m1 pte2 (mirror_pte (ld64 m1 pte2))\<rparr>))))))
      else Inr s)"
  by pat_completeness auto
termination
  by (relation "measure (\<lambda>(ppt, kpt, a, newsz, s). unat newsz - unat a)")
     (auto dest!: walk_bound simp: unat_next_page word_less_nat_alt intro!: diff_less_mono2)

declare copy_pages.simps [simp del]

definition copy_proc_to_kernel :: "u64 \<Rightarrow> u64 \<Rightarrow> u64 \<Rightarrow> u64 \<Rightarrow> 'z kmem_scheme \<Rightarrow> 'z kmem_scheme kres" where
  "copy_proc_to_kernel proc_pt kernel_pt oldsz newsz s =
     panic_if (newsz \<ge> PLIC) ''user processes exceed PLIC'' (copy_pages proc_pt kernel_pt oldsz newsz s)"


section \<open>copyin\<close>

definition kreadable :: "'z kmem_scheme \<Rightarrow> u64 \<Rightarrow> u64 \<Rightarrow> bool" where
  "kreadable s kpt va \<longleftrightarrow> va < MAXVA \<and>
     (\<exists>e. pt_map s kpt va = Some e \<and> e AND PTE_R \<noteq> 0 \<and> e AND PTE_U = 0)"

lemma vload_ok: "kreadable s kpt va \<Longrightarrow> vload kpt va s = Inr (mem s (user_pa s kpt va))"
  by (auto simp: kreadable_def vload_def user_pa_def not_le)


lemma vmove_up_fault: "vload kpt va s = Inl e \<Longrightarrow> vmove_up kpt (Suc n) d va s = Inl e"
  by simp

lemma vload_unmapped: "pt_map s kpt va = None \<Longrightarrow> vload kpt va s = Inl (Panic ''kerneltrap'')"
  by (simp add: vload_def)

section \<open>Properties\<close>





end
