(* ===== verification/Ring.thy ===== *)
theory Ring
  imports Kprelude
begin

text \<open>
  Rings with free-running counters, as the pipe and the console input buffer (32 bits) and the queues of the disk
  (16 bits) use them: the entry numbered \<open>k\<close> lives at index \<open>k mod sz\<close>, and the counters wrap at the width
  of their type. The content between two counters is a list; pushing, popping and erasing act on it as on a queue,
  also across the wrap, because the size divides the range of the counters.
\<close>

definition ring_list :: "nat \<Rightarrow> 'e list \<Rightarrow> 'a::len word \<Rightarrow> 'a word \<Rightarrow> 'e list" where
  "ring_list sz d r w = map (\<lambda>i. d ! (unat (r + of_nat i) mod sz)) [0..<unat (w - r)]"

lemma length_ring_list [simp]: "length (ring_list sz d r w) = unat (w - r)"
  by (simp add: ring_list_def)

lemma ring_list_empty [simp]: "ring_list sz d r r = []"
  by (simp add: ring_list_def)

lemma ring_list_Nil: "ring_list sz d r w = [] \<longleftrightarrow> r = w"
  using length_ring_list [of sz d r w] by (auto simp: unat_eq_zero simp flip: length_0_conv)

lemma ring_nth: "i < unat (w - r) \<Longrightarrow> ring_list sz d r w ! i = d ! (unat (r + of_nat i) mod sz)"
  by (simp add: ring_list_def)

locale ring_counters =
  fixes sz :: nat and counter :: "'a::len itself"
  assumes sz_pos: "0 < sz" and sz_dvd: "sz dvd 2 ^ LENGTH('a)" and sz_small: "sz < 2 ^ LENGTH('a)"
begin

lemma index_add: "unat (r + of_nat i :: 'a word) mod sz = (unat r + i) mod sz"
proof -
  have "unat (r + of_nat i) = (unat r + i) mod 2 ^ LENGTH('a)"
    by (simp add: unat_word_ariths unat_of_nat mod_add_right_eq)
  then show ?thesis using sz_dvd by (simp add: mod_mod_cancel)
qed

lemma pop:
  fixes r :: "'a word"
  assumes "r \<noteq> w"
  shows "ring_list sz d r w = d ! (unat r mod sz) # ring_list sz d (r + 1) w"
proof -
  have n: "0 < unat (w - r)" using assms by (simp add: unat_gt_0)
  have m: "unat (w - (r + 1)) = unat (w - r) - 1"
    using n unat_minus_one [of "w - r"] by (simp add: diff_diff_eq [symmetric] unat_gt_0)
  show ?thesis
  proof (rule nth_equalityI)
    show "length (ring_list sz d r w) = length (d ! (unat r mod sz) # ring_list sz d (r + 1) w)"
      using n m by simp
    fix i assume i: "i < length (ring_list sz d r w)"
    show "ring_list sz d r w ! i = (d ! (unat r mod sz) # ring_list sz d (r + 1) w) ! i"
    proof (cases i)
      case 0
      then show ?thesis using i by (simp add: ring_nth)
    next
      case (Suc j)
      then have "j < unat (w - (r + 1))" using i m by simp
      then show ?thesis using Suc i by (simp add: ring_nth algebra_simps)
    qed
  qed
qed

lemma counter_succ:
  fixes w r :: "'a word"
  assumes "unat (w - r) < sz"
  shows "unat (w + 1 - r) = Suc (unat (w - r))"
proof -
  have "unat (w - r) < 2 ^ LENGTH('a) - 1" using assms sz_small by linarith
  then have "unat (w - r + 1) = unat (w - r) + 1" by (simp add: unat_word_ariths)
  then show ?thesis by (simp add: algebra_simps)
qed

lemma push:
  fixes r :: "'a word"
  assumes "unat (w - r) < sz" "length d = sz"
  shows "ring_list sz (d[unat w mod sz := c]) r (w + 1) = ring_list sz d r w @ [c]"
proof (rule nth_equalityI)
  note s = counter_succ [OF assms(1)]
  show "length (ring_list sz (d[unat w mod sz := c]) r (w + 1)) = length (ring_list sz d r w @ [c])"
    using s by simp
  fix i assume "i < length (ring_list sz (d[unat w mod sz := c]) r (w + 1))"
  then have i: "i < Suc (unat (w - r))" using s by simp
  have w: "unat w mod sz = (unat r + unat (w - r)) mod sz" using index_add [of r "unat (w - r)"] by simp
  show "ring_list sz (d[unat w mod sz := c]) r (w + 1) ! i = (ring_list sz d r w @ [c]) ! i"
  proof (cases "i = unat (w - r)")
    case True
    then show ?thesis using i s w index_add [of r i] assms(2) sz_pos by (simp add: ring_nth nth_append)
  next
    case False
    then have l: "i < unat (w - r)" using i by simp
    have "(unat r + i) mod sz \<noteq> (unat r + unat (w - r)) mod sz"
    proof
      assume "(unat r + i) mod sz = (unat r + unat (w - r)) mod sz"
      then have "sz dvd (unat r + unat (w - r)) - (unat r + i)"
        using l mod_eq_dvd_iff_nat [of "unat r + i" "unat r + unat (w - r)" sz] by simp
      then have "sz dvd unat (w - r) - i" by simp
      then show False using l assms(1) by (auto dest: dvd_imp_le)
    qed
    then show ?thesis using l s w index_add [of r i] by (simp add: ring_nth nth_append)
  qed
qed

lemma erase:
  fixes r :: "'a word"
  assumes "r \<noteq> e"
  shows "ring_list sz d r (e - 1) = butlast (ring_list sz d r e)"
proof -
  have n: "0 < unat (e - r)" using assms by (simp add: unat_gt_0)
  have m: "unat (e - 1 - r) = unat (e - r) - 1"
    using n unat_minus_one [of "e - r"] by (simp add: algebra_simps unat_gt_0)
  show ?thesis
    by (rule nth_equalityI) (use m in \<open>auto simp: ring_nth nth_butlast\<close>)
qed

text \<open>Storing outside the content does not change it; the content splits at a counter in between.\<close>

lemma split_at:
  fixes r :: "'a word"
  assumes "unat (w - r) \<le> unat (e - r)"
  shows "ring_list sz d r e = ring_list sz d r w @ ring_list sz d w e"
proof -
  have ew: "unat (e - w) = unat (e - r) - unat (w - r)"
  proof -
    have "e - w = (e - r) - (w - r)" by simp
    then show ?thesis using assms by (metis unat_sub word_le_nat_alt)
  qed
  show ?thesis
  proof (rule nth_equalityI)
    show "length (ring_list sz d r e) = length (ring_list sz d r w @ ring_list sz d w e)"
      using ew assms by simp
    fix i assume i: "i < length (ring_list sz d r e)"
    show "ring_list sz d r e ! i = (ring_list sz d r w @ ring_list sz d w e) ! i"
    proof (cases "i < unat (w - r)")
      case True
      then show ?thesis using i by (simp add: ring_nth nth_append)
    next
      case False
      then have "w + of_nat (i - unat (w - r)) = r + of_nat i"
        by (simp add: of_nat_diff)
      moreover have "i - unat (w - r) < unat (e - w)" using i ew False by simp
      ultimately show ?thesis using i False by (simp add: ring_nth nth_append add.commute)
    qed
  qed
qed

end

end
