(* ===== verification/Pipe.thy ===== *)
theory Pipe
  imports Kcopyin Ring
begin

text \<open>
  Pipes (\<^verbatim>\<open>kernel/pipe.c\<close>). A call runs under the pipe's lock until it returns or sleeps; where it
  sleeps, the outcome is \<open>Blocked\<close> with the loop variable, and the call resumes there after the
  wakeup. Wakeups are returned as the list of channels. \<^verbatim>\<open>pipealloc\<close> is in the theory of the file
  table.
\<close>

section \<open>Operations\<close>

definition PIPESIZE :: nat where
  "PIPESIZE = 512"

record pipe =
  p_data :: "u8 list"
  nread :: u32
  nwrite :: u32
  readopen :: bool
  writeopen :: bool

datatype pchan = NREAD | NWRITE

datatype outcome = Done int | Blocked int

definition new_pipe :: "u8 list \<Rightarrow> pipe" where
  "new_pipe junk = \<lparr>p_data = junk, nread = 0, nwrite = 0, readopen = True, writeopen = True\<rparr>"

text \<open>The flag says that the page of the pipe is freed.\<close>

definition pipeclose :: "pipe \<Rightarrow> bool \<Rightarrow> bool \<times> pchan list \<times> pipe" where
  "pipeclose pi writable =
     (let (ws, pi) = (if writable then ([NREAD], pi\<lparr>writeopen := False\<rparr>) else ([NWRITE], pi\<lparr>readopen := False\<rparr>)) in
      (\<not> readopen pi \<and> \<not> writeopen pi, ws, pi))"

text \<open>\<open>chp\<close> is the address of the local variable \<^verbatim>\<open>ch\<close>.\<close>

function pipewrite :: "uctx \<Rightarrow> u64 \<Rightarrow> u64 \<Rightarrow> int \<Rightarrow> int \<Rightarrow> pipe \<Rightarrow> 'z kmem_scheme \<Rightarrow>
    (outcome \<times> pchan list \<times> pipe \<times> 'z kmem_scheme) kres" where
  "pipewrite pr chp addr n i pi s =
     (if i < n then
        (if \<not> readopen pi \<or> c_killed pr then Inr (Done (-1), [], pi, s)
         else if nwrite pi = nread pi + of_nat PIPESIZE then Inr (Blocked i, [NREAD], pi, s)
         else bnd (copyin (c_kpagetable pr) (c_pagetable pr) chp (addr + of_int i) 1 s) (\<lambda>(r, s1).
           if r = -1 then Inr (Done i, [NREAD], pi, s1)
           else pipewrite pr chp addr n (i + 1)
                  (pi\<lparr>p_data := (p_data pi)[unat (nwrite pi) mod PIPESIZE := mem s1 chp],
                      nwrite := nwrite pi + 1\<rparr>) s1))
      else Inr (Done i, [NREAD], pi, s))"
  by pat_completeness auto
termination by (relation "measure (\<lambda>(pr, chp, addr, n, i, pi, s). nat (n - i))") auto

function piperead_copy :: "uctx \<Rightarrow> u64 \<Rightarrow> u64 \<Rightarrow> int \<Rightarrow> int \<Rightarrow> pipe \<Rightarrow> 'z kmem_scheme \<Rightarrow>
    (int \<times> pipe \<times> 'z kmem_scheme) kres" where
  "piperead_copy pr chp addr n i pi s =
     (if i < n then
        (if nread pi = nwrite pi then Inr (i, pi, s)
         else let s0 = s\<lparr>mem := (mem s)(chp := p_data pi ! (unat (nread pi) mod PIPESIZE))\<rparr> in
           bnd (copyout (c_sz pr) (c_pagetable pr) (c_pagetable pr) (addr + of_int i) chp 1 s0) (\<lambda>(r, s1).
           if r = -1 then Inr (if i = 0 then -1 else i, pi, s1)
           else piperead_copy pr chp addr n (i + 1) (pi\<lparr>nread := nread pi + 1\<rparr>) s1))
      else Inr (i, pi, s))"
  by pat_completeness auto
termination by (relation "measure (\<lambda>(pr, chp, addr, n, i, pi, s). nat (n - i))") auto

declare pipewrite.simps [simp del] piperead_copy.simps [simp del]

definition piperead :: "uctx \<Rightarrow> u64 \<Rightarrow> u64 \<Rightarrow> int \<Rightarrow> pipe \<Rightarrow> 'z kmem_scheme \<Rightarrow>
    (outcome \<times> pchan list \<times> pipe \<times> 'z kmem_scheme) kres" where
  "piperead pr chp addr n pi s =
     (if nread pi = nwrite pi \<and> writeopen pi then
        (if c_killed pr then Inr (Done (-1), [], pi, s) else Inr (Blocked 0, [], pi, s))
      else bnd (piperead_copy pr chp addr n 0 pi s) (\<lambda>(i, pi', s'). Inr (Done i, [NWRITE], pi', s')))"


section \<open>The pipe as a queue\<close>

interpretation pr: ring_counters PIPESIZE "TYPE(32)"
  by unfold_locales (simp_all add: PIPESIZE_def)

definition pipe_bytes :: "pipe \<Rightarrow> u8 list" where
  "pipe_bytes pi = ring_list PIPESIZE (p_data pi) (nread pi) (nwrite pi)"

definition pipe_inv :: "pipe \<Rightarrow> bool" where
  "pipe_inv pi \<longleftrightarrow> length (p_data pi) = PIPESIZE \<and> unat (nwrite pi - nread pi) \<le> PIPESIZE"

lemma not_full:
  assumes "pipe_inv pi" "nwrite pi \<noteq> nread pi + of_nat PIPESIZE"
  shows "unat (nwrite pi - nread pi) < PIPESIZE"
proof -
  have "unat (nwrite pi - nread pi) \<noteq> PIPESIZE"
  proof
    assume "unat (nwrite pi - nread pi) = PIPESIZE"
    then have "of_nat (unat (nwrite pi - nread pi)) = (of_nat PIPESIZE :: u32)" by simp
    then have "nwrite pi - nread pi = of_nat PIPESIZE" by simp
    then show False using assms(2) by (simp add: algebra_simps)
  qed
  then show ?thesis using assms(1) by (simp add: pipe_inv_def)
qed

lemma pipe_push:
  assumes "pipe_inv pi" "nwrite pi \<noteq> nread pi + of_nat PIPESIZE"
    and pi': "pi' = pi\<lparr>p_data := (p_data pi)[unat (nwrite pi) mod PIPESIZE := c], nwrite := nwrite pi + 1\<rparr>"
  shows "pipe_inv pi'" "pipe_bytes pi' = pipe_bytes pi @ [c]"
  using not_full [OF assms(1,2)] assms(1) pr.push [of "nwrite pi" "nread pi" "p_data pi" c]
    pr.counter_succ [of "nwrite pi" "nread pi"]
  by (auto simp: pi' pipe_inv_def pipe_bytes_def)

lemma pipe_pop:
  assumes "pipe_inv pi" "nread pi \<noteq> nwrite pi"
  shows "pipe_inv (pi\<lparr>nread := nread pi + 1\<rparr>)"
    "pipe_bytes pi = p_data pi ! (unat (nread pi) mod PIPESIZE) # pipe_bytes (pi\<lparr>nread := nread pi + 1\<rparr>)"
proof -
  note p = pr.pop [OF assms(2), of "p_data pi"]
  then show "pipe_bytes pi = p_data pi ! (unat (nread pi) mod PIPESIZE) # pipe_bytes (pi\<lparr>nread := nread pi + 1\<rparr>)"
    by (simp add: pipe_bytes_def)
  have "length (ring_list PIPESIZE (p_data pi) (nread pi) (nwrite pi)) =
      Suc (length (ring_list PIPESIZE (p_data pi) (nread pi + 1) (nwrite pi)))" using p by simp
  then show "pipe_inv (pi\<lparr>nread := nread pi + 1\<rparr>)" using assms(1) by (simp add: pipe_inv_def)
qed


section \<open>Writing\<close>

text \<open>A kernel variable that no page of the table holds.\<close>

definition off_table :: "'z kmem_scheme \<Rightarrow> u64 \<Rightarrow> u64 \<Rightarrow> bool" where
  "off_table s pt a \<longleftrightarrow> pg_aligned pt \<and> (\<forall>q\<in>pt_pages (mem s) 2 pt. \<not> in_page q a)"

lemma off_table_write:
  assumes "off_table s pt a"
  shows "pt_map (s\<lparr>mem := (mem s)(a := c)\<rparr>) pt = pt_map s pt" "off_table (s\<lparr>mem := (mem s)(a := c)\<rparr>) pt a"
proof -
  have eq: "page_eq (mem s) ((mem s)(a := c)) q" if "q \<in> pt_pages (mem s) 2 pt" for q
    using that assms by (intro page_eqI) (auto simp: off_table_def)
  have al: "pg_aligned pt" using assms by (simp add: off_table_def)
  show "pt_map (s\<lparr>mem := (mem s)(a := c)\<rparr>) pt = pt_map s pt"
    using pt_get_cong [OF al eq] by (simp add: pt_map_def fun_eq_iff)
  show "off_table (s\<lparr>mem := (mem s)(a := c)\<rparr>) pt a"
    using pt_cong [OF al eq] assms by (simp add: off_table_def)
qed

lemma copyin_byte:
  assumes "kreadable s kpt va"
  shows "copyin kpt pt chp va 1 s = Inr (0, s\<lparr>mem := (mem s)(chp := mem s (user_pa s kpt va))\<rparr>)"
proof -
  have u: "vmove_up kpt (unat (1 :: u32)) chp va s = Inr (s\<lparr>mem := (mem s)(chp := mem s (user_pa s kpt va))\<rparr>)"
    "vmove_down kpt (unat (1 :: u32)) (chp + 1) (va + 1) s = Inr (s\<lparr>mem := (mem s)(chp := mem s (user_pa s kpt va))\<rparr>)"
    using vload_ok [OF assms] by (simp_all add: One_nat_def)
  show ?thesis using u by (simp add: copyin_def copyin_new_def Let_def)
qed

text \<open>The user bytes from \<open>addr + i\<close> on.\<close>

definition user_src :: "'z kmem_scheme \<Rightarrow> u64 \<Rightarrow> u64 \<Rightarrow> int \<Rightarrow> nat \<Rightarrow> u8 list" where
  "user_src s kpt addr i k = map (\<lambda>j. mem s (user_pa s kpt (addr + of_int (i + int j)))) [0..<k]"

lemma user_pa_cong: "pt_map s' pt = pt_map s pt \<Longrightarrow> user_pa s' pt = user_pa s pt"
  by (rule ext) (simp add: user_pa_def)

lemma user_src_Suc: "user_src s kpt addr i (Suc k) = mem s (user_pa s kpt (addr + of_int i)) # user_src s kpt addr (i + 1) k"
  by (simp add: user_src_def upt_conv_Cons map_Suc_upt [symmetric] del: upt_Suc map_Suc_upt) (simp add: add.assoc)

lemma pipewrite_ok:
  assumes "pipe_inv pi" "off_table s (c_kpagetable p) chp" "readopen pi" "\<not> c_killed p" "i \<le> n"
    "\<And>j. i \<le> j \<Longrightarrow> j < n \<Longrightarrow> kreadable s (c_kpagetable p) (addr + of_int j) \<and>
       user_pa s (c_kpagetable p) (addr + of_int j) \<noteq> chp"
  shows "\<exists>pi' s'. pipewrite p chp addr n i pi s = Inr
      (if n - i \<le> int (PIPESIZE - length (pipe_bytes pi)) then Done n
       else Blocked (i + int (PIPESIZE - length (pipe_bytes pi))), [NREAD], pi', s') \<and> pipe_inv pi' \<and>
    pipe_bytes pi' = pipe_bytes pi @
      user_src s (c_kpagetable p) addr i (min (nat (n - i)) (PIPESIZE - length (pipe_bytes pi))) \<and>
    readopen pi' = readopen pi \<and> writeopen pi' = writeopen pi \<and> (\<forall>x. x \<noteq> chp \<longrightarrow> mem s' x = mem s x)"
  using assms
proof (induction "nat (n - i)" arbitrary: i pi s)
  case 0
  then show ?case by (subst pipewrite.simps) (simp add: user_src_def)
next
  case (Suc d)
  let ?kpt = "c_kpagetable p"
  have in': "i < n" using Suc.hyps(2) by simp
  show ?case
  proof (cases "nwrite pi = nread pi + of_nat PIPESIZE")
    case True
    then have "length (pipe_bytes pi) = PIPESIZE" by (simp add: pipe_bytes_def PIPESIZE_def)
    then show ?thesis using True in' Suc.prems by (subst pipewrite.simps) (simp add: user_src_def)
  next
    case False
    define c where c: "c = mem s (user_pa s ?kpt (addr + of_int i))"
    define s1 where s1: "s1 = s\<lparr>mem := (mem s)(chp := c)\<rparr>"
    define pi1 where pi1: "pi1 = pi\<lparr>p_data := (p_data pi)[unat (nwrite pi) mod PIPESIZE := c], nwrite := nwrite pi + 1\<rparr>"
    have r: "kreadable s ?kpt (addr + of_int i)" using Suc.prems(6) [of i] in' by simp
    have step: "pipewrite p chp addr n i pi s = pipewrite p chp addr n (i + 1) pi1 s1"
      using False in' Suc.prems(3,4) copyin_byte [OF r, of "c_pagetable p" chp]
      by (subst pipewrite.simps) (simp add: c s1 pi1)
    note push = pipe_push [OF Suc.prems(1) False pi1]
    note off = off_table_write [OF Suc.prems(2), of c, folded s1]
    have pa: "user_pa s1 ?kpt = user_pa s ?kpt" by (rule user_pa_cong [OF off(1)])
    have ms: "mem s1 = (mem s)(chp := c)" by (simp add: s1)
    have kr: "kreadable s1 ?kpt va = kreadable s ?kpt va" for va by (simp add: kreadable_def off(1))
    have src: "user_src s1 ?kpt addr (i + 1) k = user_src s ?kpt addr (i + 1) k" if "int k \<le> n - (i + 1)" for k
    proof -
      have "user_pa s ?kpt (addr + of_int (i + 1 + int j)) \<noteq> chp" if "j < k" for j
        using Suc.prems(6) [of "i + 1 + int j"] that \<open>int k \<le> n - (i + 1)\<close> by simp
      then show ?thesis by (auto simp: user_src_def pa ms)
    qed
    have room: "length (pipe_bytes pi) < PIPESIZE" using not_full [OF Suc.prems(1) False] by (simp add: pipe_bytes_def)
    define R where R: "R = PIPESIZE - length (pipe_bytes pi)"
    have R1: "PIPESIZE - length (pipe_bytes pi1) = R - 1" "0 < R" using push(2) room by (simp_all add: R)
    have "\<exists>pi' s'. pipewrite p chp addr n (i + 1) pi1 s1 = Inr
        (if n - (i + 1) \<le> int (R - 1) then Done n else Blocked (i + 1 + int (R - 1)), [NREAD], pi', s') \<and> pipe_inv pi' \<and>
      pipe_bytes pi' = pipe_bytes pi1 @ user_src s1 ?kpt addr (i + 1) (min (nat (n - (i + 1))) (R - 1)) \<and>
      readopen pi' = readopen pi1 \<and> writeopen pi' = writeopen pi1 \<and> (\<forall>x. x \<noteq> chp \<longrightarrow> mem s' x = mem s1 x)"
      unfolding R1(1) [symmetric]
      using Suc.hyps(2) in' Suc.prems(3,4,6) by (intro Suc.hyps(1) push off) (auto simp: pi1 kr pa)
    then obtain pi' s' where o: "pipewrite p chp addr n (i + 1) pi1 s1 = Inr
        (if n - (i + 1) \<le> int (R - 1) then Done n else Blocked (i + 1 + int (R - 1)), [NREAD], pi', s')" "pipe_inv pi'"
      "pipe_bytes pi' = pipe_bytes pi1 @ user_src s1 ?kpt addr (i + 1) (min (nat (n - (i + 1))) (R - 1))"
      "readopen pi' = readopen pi1" "writeopen pi' = writeopen pi1" "\<forall>x. x \<noteq> chp \<longrightarrow> mem s' x = mem s1 x"
      by blast
    have k: "min (nat (n - i)) R = Suc (min (nat (n - (i + 1))) (R - 1))" using R1(2) in' by auto
    have "pipe_bytes pi' = pipe_bytes pi @ user_src s ?kpt addr i (min (nat (n - i)) R)"
      unfolding k o(3) push(2) user_src_Suc using src [of "min (nat (n - (i + 1))) (R - 1)"] in' by (simp add: c)
    moreover have "(if n - (i + 1) \<le> int (R - 1) then Done n else Blocked (i + 1 + int (R - 1))) =
        (if n - i \<le> int R then Done n else Blocked (i + int R))" using R1(2) by auto
    ultimately show ?thesis unfolding R [symmetric] step o(1) using o(2,4-6) by (auto simp: pi1 ms)
  qed
qed


section \<open>Reading\<close>

text \<open>A variable on an allocated page that is neither a user page nor a page of the table.\<close>

definition kvar :: "'z kmem_scheme \<Rightarrow> u64 \<Rightarrow> u64 \<Rightarrow> u64 \<Rightarrow> bool" where
  "kvar s pt lim a \<longleftrightarrow> (\<exists>K. in_page K a \<and> pg_aligned K \<and> 1 \<le> page_refs s K \<and> K \<notin> pt_pages (mem s) 2 pt \<and>
     (\<forall>va<lim. \<forall>e. pt_map s pt va = Some e \<longrightarrow> PTE2PA e \<noteq> K))"

lemma kvar_not_user:
  assumes "kvar s pt lim a" "va < lim" "user_writable s pt va"
  shows "a \<noteq> user_pa s pt va"
proof
  assume a: "a = user_pa s pt va"
  obtain e where e: "pt_map s pt va = Some e" using assms(3) by (auto simp: user_writable_def)
  obtain K where K: "in_page K a" "pg_aligned K" "PTE2PA e \<noteq> K" using assms(1,2) e by (auto simp: kvar_def)
  have "in_page (PTE2PA e) a" using user_pa_in_page [OF e] a by simp
  then show False using in_page_unique [OF PTE2PA_aligned K(2)] K(1,3) by blast
qed

lemma kvar_write:
  assumes "uvm_inv s F pt lim" "kvar s pt lim a"
  shows "uvm_inv (s\<lparr>mem := (mem s)(a := c)\<rparr>) F pt lim" "pt_map (s\<lparr>mem := (mem s)(a := c)\<rparr>) pt = pt_map s pt"
    "kvar (s\<lparr>mem := (mem s)(a := c)\<rparr>) pt lim a"
proof -
  obtain K where K: "in_page K a" "pg_aligned K" "1 \<le> page_refs s K" "K \<notin> pt_pages (mem s) 2 pt"
    "\<forall>va<lim. \<forall>e. pt_map s pt va = Some e \<longrightarrow> PTE2PA e \<noteq> K" using assms(2) unfolding kvar_def by blast
  have m: "\<And>x. \<not> in_page K x \<Longrightarrow> ((mem s)(a := c)) x = mem s x" using K(1) by auto
  note w = page_write [OF assms(1) K(2-4) m]
  show "uvm_inv (s\<lparr>mem := (mem s)(a := c)\<rparr>) F pt lim" by (rule w(1))
  show map: "pt_map (s\<lparr>mem := (mem s)(a := c)\<rparr>) pt = pt_map s pt" by (rule w(2))
  have pages: "pt_pages ((mem s)(a := c)) 2 pt = pt_pages (mem s) 2 pt" by (rule w(3))
  show "kvar (s\<lparr>mem := (mem s)(a := c)\<rparr>) pt lim a"
    unfolding kvar_def using K map pages by (intro exI [of _ K]) simp
qed

lemma copyout_byte:
  assumes inv: "uvm_inv s F pt lim" and d: "dst < lim" "user_writable s pt dst" "chp \<noteq> user_pa s pt dst"
  defines "s' \<equiv> s\<lparr>mem := (mem s)(user_pa s pt dst := mem s chp)\<rparr>"
  shows "copyout psz ppt pt dst chp 1 s = Inr (0, s')" "uvm_inv s' F pt lim" "pt_map s' pt = pt_map s pt"
    "pt_pages (mem s') 2 pt = pt_pages (mem s) 2 pt"
proof -
  have "\<exists>m. copyout psz ppt pt dst chp 1 s = Inr (0, s\<lparr>mem := m\<rparr>) \<and>
      uvm_inv (s\<lparr>mem := m\<rparr>) F pt lim \<and> pt_map (s\<lparr>mem := m\<rparr>) pt = pt_map s pt \<and>
      bytes_moved (mem s) m (user_buf s pt dst) chp (unat (1 :: u64))"
    using d u64_bound [of chp] by (intro copyout_ok [OF inv]) (auto simp: user_buf_def word_less_nat_alt)
  then obtain m where m: "copyout psz ppt pt dst chp 1 s = Inr (0, s\<lparr>mem := m\<rparr>)"
    "bytes_moved (mem s) m (user_buf s pt dst) chp 1" by auto
  have "m = (mem s)(user_pa s pt dst := mem s chp)"
    using m(2) by (auto simp: bytes_moved_def user_buf_def lessThan_Suc fun_eq_iff)
  then show "copyout psz ppt pt dst chp 1 s = Inr (0, s')" using m(1) by (simp add: s'_def)
  obtain e where e: "pt_map s pt dst = Some e" using d(2) by (auto simp: user_writable_def)
  have o: "\<And>x. \<not> in_page (PTE2PA e) x \<Longrightarrow> ((mem s)(user_pa s pt dst := mem s chp)) x = mem s x"
    using user_pa_in_page [OF e] by auto
  note w = user_write [OF inv d(1) e o]
  show "uvm_inv s' F pt lim" unfolding s'_def by (rule w(1))
  show "pt_map s' pt = pt_map s pt" unfolding s'_def by (rule w(2))
  have "pt_pages ((mem s)(user_pa s pt dst := mem s chp)) 2 pt = pt_pages (mem s) 2 pt" by (rule w(3))
  then show "pt_pages (mem s') 2 pt = pt_pages (mem s) 2 pt" by (simp add: s'_def)
qed

text \<open>What reading \<open>k\<close> bytes into the buffer from \<open>addr + i\<close> on leaves in memory.\<close>

definition filled :: "(int \<Rightarrow> u64) \<Rightarrow> u64 \<Rightarrow> int \<Rightarrow> u8 list \<Rightarrow> memory \<Rightarrow> memory \<Rightarrow> bool" where
  "filled ua chp i bs m m' \<longleftrightarrow> (\<forall>j<length bs. m' (ua (i + int j)) = bs ! j) \<and>
     (\<forall>x. x \<noteq> chp \<longrightarrow> (\<forall>j<length bs. x \<noteq> ua (i + int j)) \<longrightarrow> m' x = m x)"

lemma filled_Nil: "filled ua chp i [] m m"
  by (simp add: filled_def)

lemma filled_Cons:
  assumes f: "filled ua chp (i + 1) bs (m(chp := c, ua i := c)) m'" and d: "ua i \<noteq> chp"
    and u: "\<And>j. i < j \<Longrightarrow> j \<le> i + int (length bs) \<Longrightarrow> ua j \<noteq> ua i"
  shows "filled ua chp i (c # bs) m m'"
  unfolding filled_def
proof (intro conjI allI impI)
  have apart: "ua i \<noteq> ua (i + 1 + int j)" if "j < length bs" for j using u [of "i + 1 + int j"] that by auto
  fix j assume j: "j < length (c # bs)"
  show "m' (ua (i + int j)) = (c # bs) ! j"
  proof (cases j)
    case 0
    have "m' (ua i) = (m(chp := c, ua i := c)) (ua i)"
      using f d apart unfolding filled_def by blast
    then show ?thesis using 0 by simp
  next
    case (Suc k)
    then have "m' (ua (i + 1 + int k)) = bs ! k" using f j by (auto simp: filled_def)
    then show ?thesis using Suc by (simp add: add.assoc)
  qed
next
  fix x assume x: "x \<noteq> chp" "\<forall>j<length (c # bs). x \<noteq> ua (i + int j)"
  have "x \<noteq> ua i" using x(2) by (auto dest: spec [of _ 0])
  moreover have "x \<noteq> ua (i + 1 + int j)" if "j < length bs" for j
    using x(2) [rule_format, of "Suc j"] that by (simp add: add.assoc)
  ultimately show "m' x = m x" using f x(1) by (simp add: filled_def)
qed


lemma user_range_less:
  assumes "unat addr + nat n \<le> unat lim" "0 \<le> j" "j < n"
  shows "unat (addr + of_int j :: u64) = unat addr + nat j" "addr + of_int j < (lim :: u64)"
proof -
  have "unat (of_nat (nat j) :: u64) = nat j" using assms u64_bound [of lim] by (subst unat_of_nat) simp
  then have u: "unat (of_int j :: u64) = nat j" using of_nat_nat [OF assms(2), where 'a = "64 word"] by (simp only:)
  show w: "unat (addr + of_int j) = unat addr + nat j"
    using assms u64_bound [of lim] u by (subst unat_word_ariths) simp
  show "addr + of_int j < lim" using w assms by (simp add: word_less_nat_alt)
qed

lemma user_range_inj:
  assumes inv: "uvm_inv s F pt lim" and r: "unat addr + nat n \<le> unat lim"
    and j: "0 \<le> j" "j < n" "user_writable s pt (addr + of_int j)"
    and j': "0 \<le> j'" "j' < n" "user_writable s pt (addr + of_int j')" and ne: "j \<noteq> j'"
  shows "user_pa s pt (addr + of_int j) \<noteq> user_pa s pt (addr + of_int j')"
proof
  assume eq: "user_pa s pt (addr + of_int j) = user_pa s pt (addr + of_int j')"
  obtain e e' where e: "pt_map s pt (addr + of_int j) = Some e" "pt_map s pt (addr + of_int j') = Some e'"
    using j(3) j'(3) by (auto simp: user_writable_def)
  have "addr + of_int j = addr + of_int j'"
    by (rule user_pa_inj [OF inv user_range_less(2) [OF r j(1,2)] e(1) user_range_less(2) [OF r j'(1,2)] e(2) eq])
  then have "unat addr + nat j = unat addr + nat j'"
    using user_range_less(1) [OF r j(1,2)] user_range_less(1) [OF r j'(1,2)] by (simp only:)
  then show False using ne j(1) j'(1) by simp
qed

text \<open>One byte, from the pipe through \<^verbatim>\<open>ch\<close> to the user's buffer.\<close>

lemma piperead_step:
  fixes ua :: u64
  assumes inv: "uvm_inv s F (c_pagetable p) lim" and kv: "kvar s (c_pagetable p) lim chp"
    and ne: "nread pi \<noteq> nwrite pi" and d: "i < n" "addr + of_int i < lim" "user_writable s (c_pagetable p) (addr + of_int i)"
    and c: "c = p_data pi ! (unat (nread pi) mod PIPESIZE)" and ua: "ua = user_pa s (c_pagetable p) (addr + of_int i)"
    and s1: "s1 = s\<lparr>mem := (mem s)(chp := c, ua := c)\<rparr>"
  shows "piperead_copy p chp addr n i pi s = piperead_copy p chp addr n (i + 1) (pi\<lparr>nread := nread pi + 1\<rparr>) s1"
    "uvm_inv s1 F (c_pagetable p) lim" "kvar s1 (c_pagetable p) lim chp"
    "pt_map s1 (c_pagetable p) = pt_map s (c_pagetable p)" "ua \<noteq> chp"
proof -
  let ?pt = "c_pagetable p"
  define s0 where s0: "s0 = s\<lparr>mem := (mem s)(chp := c)\<rparr>"
  note kw = kvar_write [OF inv kv, of c, folded s0]
  have pa0: "user_pa s0 ?pt = user_pa s ?pt" by (rule user_pa_cong [OF kw(2)])
  have uw0: "user_writable s0 ?pt (addr + of_int i)" using d(3) by (simp add: user_writable_def kw(2))
  have ap: "chp \<noteq> user_pa s0 ?pt (addr + of_int i)" by (rule kvar_not_user [OF kw(3) d(2) uw0])
  then show "ua \<noteq> chp" by (simp add: ua pa0)
  have e1: "s0\<lparr>mem := (mem s0)(user_pa s0 ?pt (addr + of_int i) := mem s0 chp)\<rparr> = s1"
    by (simp add: s1 s0 ua pa0 [unfolded s0])
  note cb = copyout_byte [OF kw(1) d(2) uw0 ap, unfolded e1]
  show "piperead_copy p chp addr n i pi s = piperead_copy p chp addr n (i + 1) (pi\<lparr>nread := nread pi + 1\<rparr>) s1"
    using ne d(1) cb(1) by (subst piperead_copy.simps) (simp add: Let_def c [symmetric] s0 [symmetric])
  show "uvm_inv s1 F ?pt lim" by (rule cb(2))
  show "pt_map s1 ?pt = pt_map s ?pt" using cb(3) kw(2) by simp
  have "page_refs s1 = page_refs s0" by (simp add: s1 s0 page_refs_def fun_eq_iff)
  then show "kvar s1 ?pt lim chp" using kw(3) unfolding kvar_def cb(3,4) by simp
qed

lemma piperead_copy_ok:
  assumes "uvm_inv s F (c_pagetable p) lim" "kvar s (c_pagetable p) lim chp" "pipe_inv pi" "0 \<le> i" "i \<le> n"
    "unat addr + nat n \<le> unat lim"
    "\<And>j. i \<le> j \<Longrightarrow> j < n \<Longrightarrow> user_writable s (c_pagetable p) (addr + of_int j)"
  shows "\<exists>pi' s'. piperead_copy p chp addr n i pi s = Inr (i + int (min (nat (n - i)) (length (pipe_bytes pi))), pi', s') \<and>
    pipe_inv pi' \<and> pipe_bytes pi' = drop (min (nat (n - i)) (length (pipe_bytes pi))) (pipe_bytes pi) \<and>
    uvm_inv s' F (c_pagetable p) lim \<and>
    filled (\<lambda>j. user_pa s (c_pagetable p) (addr + of_int j)) chp i
      (take (min (nat (n - i)) (length (pipe_bytes pi))) (pipe_bytes pi)) (mem s) (mem s')"
  using assms
proof (induction "nat (n - i)" arbitrary: i pi s)
  case 0
  then show ?case by (subst piperead_copy.simps) (simp add: filled_Nil)
next
  case (Suc d)
  let ?pt = "c_pagetable p"
  have in': "i < n" using Suc.hyps(2) by simp
  show ?case
  proof (cases "nread pi = nwrite pi")
    case True
    then have "pipe_bytes pi = []" by (simp add: pipe_bytes_def)
    then show ?thesis using True in' Suc.prems by (subst piperead_copy.simps) (simp add: filled_Nil)
  next
    case False
    define c where c: "c = p_data pi ! (unat (nread pi) mod PIPESIZE)"
    define ua where ua: "ua = (\<lambda>j. user_pa s ?pt (addr + of_int j))"
    define s1 where s1: "s1 = s\<lparr>mem := (mem s)(chp := c, ua i := c)\<rparr>"
    define pi1 where pi1: "pi1 = pi\<lparr>nread := nread pi + 1\<rparr>"
    note pop = pipe_pop [OF Suc.prems(3) False, folded c, folded pi1]
    have uw: "user_writable s ?pt (addr + of_int j)" if "i \<le> j" "j < n" for j using Suc.prems(7) that by blast
    have lt: "addr + of_int i < lim" using user_range_less(2) [OF Suc.prems(6,4) in'] .
    note st = piperead_step [OF Suc.prems(1,2) False in' lt uw [OF order_refl in'] c fun_cong [OF ua] s1, folded pi1]
    have pa1: "user_pa s1 ?pt = user_pa s ?pt" by (rule user_pa_cong [OF st(4)])
    define k where k: "k = min (nat (n - (i + 1))) (length (pipe_bytes pi1))"
    have k': "min (nat (n - i)) (length (pipe_bytes pi)) = Suc k" using in' pop(2) by (auto simp: k)
    have "\<exists>pi' s'. piperead_copy p chp addr n (i + 1) pi1 s1 = Inr (i + 1 + int k, pi', s') \<and> pipe_inv pi' \<and>
        pipe_bytes pi' = drop k (pipe_bytes pi1) \<and> uvm_inv s' F ?pt lim \<and>
        filled (\<lambda>j. user_pa s1 ?pt (addr + of_int j)) chp (i + 1) (take k (pipe_bytes pi1)) (mem s1) (mem s')"
      unfolding k using Suc.hyps(2) Suc.prems(4,6) in' uw
      by (intro Suc.hyps(1) st pop) (auto simp: user_writable_def st(4))
    then obtain pi' s' where o: "piperead_copy p chp addr n (i + 1) pi1 s1 = Inr (i + 1 + int k, pi', s')" "pipe_inv pi'"
      "pipe_bytes pi' = drop k (pipe_bytes pi1)" "uvm_inv s' F ?pt lim"
      "filled ua chp (i + 1) (take k (pipe_bytes pi1)) (mem s1) (mem s')" unfolding pa1 ua by blast
    have "filled ua chp i (c # take k (pipe_bytes pi1)) (mem s) (mem s')"
    proof (rule filled_Cons)
      show "filled ua chp (i + 1) (take k (pipe_bytes pi1)) ((mem s)(chp := c, ua i := c)) (mem s')"
        using o(5) by (simp add: s1)
      show "ua i \<noteq> chp" by (rule st(5))
      fix j assume j: "i < j" "j \<le> i + int (length (take k (pipe_bytes pi1)))"
      then have "j < n" using k in' by auto
      then show "ua j \<noteq> ua i"
        unfolding ua using j(1) in' Suc.prems(4) uw by (intro user_range_inj [OF Suc.prems(1,6)]) auto
    qed
    then show ?thesis unfolding k' st(1) o(1) using o(2-4) pop(2) by (simp add: ua)
  qed
qed


section \<open>Properties\<close>

text \<open>
  C32. \<^verbatim>\<open>pipewrite\<close> queues the caller's bytes in order: with readable user memory it appends as many bytes
  as fit, wakes the readers, and either returns \<^verbatim>\<open>n\<close> or goes to sleep with the pipe full after the
  bytes it has written; the counters may wrap.
\<close>

theorem pipewrite_queues:
  assumes "pipe_inv pi" "off_table s (c_kpagetable p) chp" "readopen pi" "\<not> c_killed p" "i \<le> n"
    "\<And>j. i \<le> j \<Longrightarrow> j < n \<Longrightarrow> kreadable s (c_kpagetable p) (addr + of_int j) \<and>
       user_pa s (c_kpagetable p) (addr + of_int j) \<noteq> chp"
  defines "room \<equiv> PIPESIZE - length (pipe_bytes pi)"
  shows "\<exists>pi' s'. pipewrite p chp addr n i pi s =
      Inr (if n - i \<le> int room then Done n else Blocked (i + int room), [NREAD], pi', s') \<and> pipe_inv pi' \<and>
    pipe_bytes pi' = pipe_bytes pi @ user_src s (c_kpagetable p) addr i (min (nat (n - i)) room)"
  using pipewrite_ok [OF assms(1-6)] unfolding room_def by blast

text \<open>A kernel page table that maps the one user page readable for the kernel, and a stack variable.\<close>

lemma one_page_kernel:
  obtains s :: kmem where "\<And>va. va < 0x1000 \<Longrightarrow> kreadable s root va \<and> user_pa s root va \<noteq> 0x80008000"
    "off_table s root 0x80008000"
proof -
  let ?F = "pool_page ` {..<8}"
  note pr = pool_pt [of 8 root, simplified]
  have c: "(0 :: u64) < MAXVA" "pg_aligned 0" "PTE_FLAGS PTE_R = PTE_R"
    by (simp_all add: riscv_consts pg_aligned_def PTE_FLAGS_def)
  have "3 \<le> card ?F" using pool_card [of 8] by simp
  then obtain pg s1 s F where o: "kalloc (pool 8) = Inr (pg, s1)" "pg \<noteq> 0" "valid_page (pool 8) pg"
    "mappages root 0 PGSIZE pg PTE_R (s1\<lparr>mem := memset (mem s1) pg 0 4096\<rparr>) = Inr (0, s)"
    "page_added root 0 pg PTE_R (pool 8) ?F s F" "pt_inv s F 2 root" "pg \<notin> pt_pages (mem s) 2 root"
    by (rule alloc_map_one [OF pr(1) c(2,1) pr(2)]) blast
  let ?e = "PA2PTE pg OR PTE_R OR PTE_V"
  have leaf: "PTE2PA ?e = pg" using PTE2PA_leaf(1) [OF o(3) c(3)] .
  have R: "?e AND PTE_R \<noteq> 0"
  proof -
    have "bit (?e AND PTE_R) 1" by (simp add: PTE_R_def bit_simps)
    then show ?thesis by auto
  qed
  have b: "bit (PTE_R :: u64) n \<longleftrightarrow> n = 1" "bit (PTE_U :: u64) n \<longleftrightarrow> n = 4" "bit (PTE_V :: u64) n \<longleftrightarrow> n = 0" for n
    unfolding PTE_R_def PTE_U_def PTE_V_def bit_push_bit_iff bit_1_iff possible_bit_word by auto
  have U: "?e AND PTE_U = 0"
    by (rule bit_word_eqI) (auto simp: b PA2PTE_def bit_simps)
  have k: "kend s = 0x80100000" using o(5) pool_inv [of 8] unfolding page_added_def by auto
  have vp: "valid_page s pg" using o(3,5) unfolding page_added_def by simp
  have high: "a \<noteq> 0x80008000" if "valid_page s q" "in_page q a" for q a
  proof -
    have "0x80100000 \<le> unat q" using that(1) k by (simp add: valid_page_def word_le_nat_alt)
    then have "0x80100000 \<le> unat a" using that in_page_iff [OF valid_page_aligned] by fastforce
    then show ?thesis by auto
  qed
  have "kreadable s root va \<and> user_pa s root va \<noteq> 0x80008000" if "va < 0x1000" for va
  proof -
    have "va < MAXVA" using that by (simp add: riscv_consts word_less_nat_alt)
    moreover have "unat va div 4096 = 0" using that by (simp add: word_less_nat_alt)
    then have "PGROUNDDOWN va = 0" by (intro unat_eqD) (simp add: unat_PGROUNDDOWN)
    ultimately have "pt_map s root va = Some ?e" using o(5) unfolding page_added_def by simp
    then show ?thesis
      using \<open>va < MAXVA\<close> R U high [OF vp] user_pa_in_page [of s root va ?e] leaf by (auto simp: kreadable_def)
  qed
  moreover have "off_table s root 0x80008000"
    using high pt_inv_owned(1) [OF o(6)] pt_inv_aligned [OF o(6)] unfolding off_table_def by blast
  ultimately show thesis using that by blast
qed

theorem pipewrite_queues_witness:
  "\<exists>(s :: kmem) kpt pi' s'. pipewrite \<lparr>c_sz = 0x1000, c_pagetable = 0, c_kpagetable = kpt, c_killed = False\<rparr>
      0x80008000 0x10 600 0 (new_pipe (replicate 512 0)) s = Inr (Blocked 512, [NREAD], pi', s') \<and>
    length (pipe_bytes pi') = 512"
proof -
  let ?p = "\<lparr>c_sz = 0x1000, c_pagetable = 0, c_kpagetable = root, c_killed = False\<rparr>"
  let ?pi = "new_pipe (replicate 512 0)"
  obtain s :: kmem where s: "\<And>va. va < 0x1000 \<Longrightarrow> kreadable s root va \<and> user_pa s root va \<noteq> 0x80008000"
    "off_table s root 0x80008000" by (rule one_page_kernel) blast
  have e: "pipe_inv ?pi" "pipe_bytes ?pi = []" "readopen ?pi"
    by (simp_all add: new_pipe_def pipe_inv_def pipe_bytes_def PIPESIZE_def)
  have u: "0x10 + of_int j < (0x1000 :: u64)" if "0 \<le> j" "j < 600" for j
    using user_range_less(2) [of "0x10" 600 "0x1000" j] that by simp
  have "\<exists>pi' s'. pipewrite ?p 0x80008000 0x10 600 0 ?pi s =
      Inr (if 600 - 0 \<le> int (PIPESIZE - length (pipe_bytes ?pi)) then Done 600
           else Blocked (0 + int (PIPESIZE - length (pipe_bytes ?pi))), [NREAD], pi', s') \<and> pipe_inv pi' \<and>
    pipe_bytes pi' = pipe_bytes ?pi @ user_src s (c_kpagetable ?p) 0x10 0
      (min (nat (600 - 0)) (PIPESIZE - length (pipe_bytes ?pi)))"
    by (rule pipewrite_queues) (use s e u in auto)
  then show ?thesis using e by (force simp: PIPESIZE_def user_src_def)
qed

text \<open>
  C14. Bytes pass through a pipe unchanged and in order: when one process writes \<^verbatim>\<open>n\<close> bytes, at most the
  size of the pipe, into an empty pipe and another then reads \<^verbatim>\<open>n\<close> bytes into writable memory of
  its own, both calls return \<^verbatim>\<open>n\<close>, the reader's buffer holds exactly the writer's bytes, nothing else in
  its memory changes, and the pipe is empty again.
\<close>

theorem pipe_transfers:
  assumes "pipe_inv pi" "pipe_bytes pi = []" "readopen pi" "0 < n" "n \<le> int PIPESIZE"
    and w: "off_table s (c_kpagetable w) chw" "\<not> c_killed w"
      "\<And>j. 0 \<le> j \<Longrightarrow> j < n \<Longrightarrow> kreadable s (c_kpagetable w) (src + of_int j) \<and>
         user_pa s (c_kpagetable w) (src + of_int j) \<noteq> chw"
    and r: "uvm_inv t F (c_pagetable r) lim" "kvar t (c_pagetable r) lim chr" "unat dst + nat n \<le> unat lim"
      "\<And>j. 0 \<le> j \<Longrightarrow> j < n \<Longrightarrow> user_writable t (c_pagetable r) (dst + of_int j)"
  shows "\<exists>pi1 s1 pi2 t2. pipewrite w chw src n 0 pi s = Inr (Done n, [NREAD], pi1, s1) \<and>
    piperead r chr dst n pi1 t = Inr (Done n, [NWRITE], pi2, t2) \<and> pipe_bytes pi2 = [] \<and>
    filled (\<lambda>j. user_pa t (c_pagetable r) (dst + of_int j)) chr 0
      (user_src s (c_kpagetable w) src 0 (nat n)) (mem t) (mem t2)"
proof -
  have "0 \<le> n" using assms(4) by simp
  from pipewrite_ok [OF assms(1) w(1) assms(3) w(2) this w(3)] obtain pi1 s1 where
    1: "pipewrite w chw src n 0 pi s = Inr (Done n, [NREAD], pi1, s1)" "pipe_inv pi1"
      "pipe_bytes pi1 = user_src s (c_kpagetable w) src 0 (nat n)"
    using assms(2,5) by auto
  have l: "length (pipe_bytes pi1) = nat n" using 1(3) by (simp add: user_src_def)
  then have ne: "nread pi1 \<noteq> nwrite pi1" using assms(4) by (auto simp: pipe_bytes_def)
  from piperead_copy_ok [OF r(1,2) 1(2) order_refl \<open>0 \<le> n\<close> r(3,4)] obtain pi2 t2 where
    2: "piperead_copy r chr dst n 0 pi1 t = Inr (n, pi2, t2)" "pipe_bytes pi2 = []"
      "filled (\<lambda>j. user_pa t (c_pagetable r) (dst + of_int j)) chr 0 (pipe_bytes pi1) (mem t) (mem t2)"
    using l assms(4) by auto
  have "piperead r chr dst n pi1 t = Inr (Done n, [NWRITE], pi2, t2)" using 2(1) ne by (simp add: piperead_def)
  then show ?thesis using 1(1,3) 2(2,3) by auto
qed

theorem pipe_transfers_witness:
  "\<exists>kpt pt (s :: kmem) (t :: kmem) pi1 s1 pi2 t2.
     pipewrite \<lparr>c_sz = 0x1000, c_pagetable = 0, c_kpagetable = kpt, c_killed = False\<rparr> 0x80008000 0x10 5 0
       (new_pipe (replicate 512 0)) s = Inr (Done 5, [NREAD], pi1, s1) \<and>
     piperead \<lparr>c_sz = 0x1000, c_pagetable = pt, c_kpagetable = 0, c_killed = False\<rparr> root2 0x20 5 pi1 t =
       Inr (Done 5, [NWRITE], pi2, t2) \<and> mem t2 (user_pa t pt 0x21) = mem s (user_pa s kpt 0x11)"
proof -
  let ?w = "\<lparr>c_sz = 0x1000, c_pagetable = 0, c_kpagetable = root, c_killed = False\<rparr>"
  let ?r = "\<lparr>c_sz = 0x1000, c_pagetable = root, c_kpagetable = 0, c_killed = False\<rparr>"
  let ?pi = "new_pipe (replicate 512 0)"
  obtain s :: kmem where s: "\<And>va. va < 0x1000 \<Longrightarrow> kreadable s root va \<and> user_pa s root va \<noteq> 0x80008000"
    "off_table s root 0x80008000" by (rule one_page_kernel) blast
  obtain pg F and t :: kmem where t: "fork_inv t F root root2 MAXVA"
    "\<And>va. va < 0x1000 \<Longrightarrow> user_writable t root va \<and> user_pa t root va = pg + va"
    by (rule one_page_user) blast
  have e: "pipe_inv ?pi" "pipe_bytes ?pi = []" "readopen ?pi"
    by (simp_all add: new_pipe_def pipe_inv_def pipe_bytes_def PIPESIZE_def)
  have u: "a + of_int j < (0x1000 :: u64)" if "0 \<le> j" "j < 5" "a < 0x100" for j a
    using user_range_less(2) [of a 5 "0x1000" j] that by (simp add: word_less_nat_alt)
  have kv: "kvar t root MAXVA root2"
  proof -
    have p2: "pt_inv t F 2 root2" "pt_pages (mem t) 2 root \<inter> pt_pages (mem t) 2 root2 = {}"
      "\<forall>va<MAXVA. \<forall>e. pt_map t root va = Some e \<longrightarrow> PTE2PA e \<notin> pt_pages (mem t) 2 root2"
      using t(1) unfolding fork_inv_def by blast+
    have r2: "root2 \<in> pt_pages (mem t) 2 root2" by (rule pt_root_in_pages)
    have al: "pg_aligned root2" by (rule pt_inv_aligned [OF p2(1)])
    have "in_page root2 root2" by (simp add: in_page_def)
    moreover have "1 \<le> page_refs t root2" using pt_inv_owned(2) [OF p2(1) r2] by simp
    moreover have "root2 \<notin> pt_pages (mem t) 2 root" using p2(2) r2 by blast
    moreover have "\<forall>va<MAXVA. \<forall>e. pt_map t root va = Some e \<longrightarrow> PTE2PA e \<noteq> root2"
    proof (intro allI impI)
      fix va e assume "va < MAXVA" "pt_map t root va = Some e"
      then have "PTE2PA e \<notin> pt_pages (mem t) 2 root2" using p2(3) by simp
      then show "PTE2PA e \<noteq> root2" using r2 by auto
    qed
    ultimately show ?thesis unfolding kvar_def using al by blast
  qed
  have "\<exists>pi1 s1 pi2 t2. pipewrite ?w 0x80008000 0x10 5 0 ?pi s = Inr (Done 5, [NREAD], pi1, s1) \<and>
    piperead ?r root2 0x20 5 pi1 t = Inr (Done 5, [NWRITE], pi2, t2) \<and> pipe_bytes pi2 = [] \<and>
    filled (\<lambda>j. user_pa t (c_pagetable ?r) (0x20 + of_int j)) root2 0
      (user_src s (c_kpagetable ?w) 0x10 0 (nat 5)) (mem t) (mem t2)"
    by (rule pipe_transfers [where F = F and lim = MAXVA])
       (use s t u e kv fork_inv_old [OF t(1)] in \<open>auto simp: PIPESIZE_def riscv_consts\<close>)
  then obtain pi1 s1 pi2 t2 where o: "pipewrite ?w 0x80008000 0x10 5 0 ?pi s = Inr (Done 5, [NREAD], pi1, s1)"
    "piperead ?r root2 0x20 5 pi1 t = Inr (Done 5, [NWRITE], pi2, t2)"
    "filled (\<lambda>j. user_pa t root (0x20 + of_int j)) root2 0 (user_src s root 0x10 0 5) (mem t) (mem t2)" by auto
  have "\<forall>j<5. mem t2 (user_pa t root (0x20 + of_int (0 + int j))) = user_src s root 0x10 0 5 ! j"
    using o(3) unfolding filled_def by (simp add: user_src_def)
  from this [rule_format, of 1] have "mem t2 (user_pa t root (0x20 + of_int (0 + int 1))) = user_src s root 0x10 0 5 ! 1"
    by simp
  then have "mem t2 (user_pa t root 0x21) = mem s (user_pa s root 0x11)" by (simp add: user_src_def)
  then show ?thesis using o(1,2) by blast
qed

end
