(* ===== verification/Console.thy ===== *)
theory Console
  imports Pipe Printf
begin

text \<open>
  The console: line editing and blocking reads and writes of \<^verbatim>\<open>kernel/console.c\<close> over the transmit and
  receive paths of \<^verbatim>\<open>kernel/uart.c\<close>. The device is the list of received bytes, the transmitter's idle
  bit and the bytes sent. As for pipes, a call runs until it returns or sleeps.
\<close>

section \<open>Operations\<close>

definition INPUT_BUF_SIZE :: nat where
  "INPUT_BUF_SIZE = 128"

record cons =
  cbuf :: "u8 list"
  cr :: u32
  cw :: u32
  ce :: u32

text \<open>The \<^verbatim>\<open>while\<close> loop of Control-U: what is echoed, and the shortened line.\<close>

function kill_line :: "cons \<Rightarrow> u8 list \<times> cons" where
  "kill_line c =
     (if ce c \<noteq> cw c \<and> cbuf c ! (unat (ce c - 1) mod INPUT_BUF_SIZE) \<noteq> 10 then
        let (out, c') = kill_line (c\<lparr>ce := ce c - 1\<rparr>) in (consputc BACKSPACE @ out, c')
      else ([], c))"
  by pat_completeness auto
termination
proof (relation "measure (\<lambda>c. unat (ce c - cw c))")
  fix c :: cons assume "ce c \<noteq> cw c \<and> cbuf c ! (unat (ce c - 1) mod INPUT_BUF_SIZE) \<noteq> 10"
  then have "ce c - cw c \<noteq> 0" by simp
  then have "unat (ce c - cw c - 1) < unat (ce c - cw c)"
    using unat_minus_one [of "ce c - cw c"] unat_gt_0 [of "ce c - cw c"] by simp
  then show "(c\<lparr>ce := ce c - 1\<rparr>, c) \<in> measure (\<lambda>c. unat (ce c - cw c))" by (simp add: algebra_simps)
qed simp

declare kill_line.simps [simp del]

text \<open>
  The result tells whether the process list is printed, what is echoed, whether the readers are
  woken, and the buffer; first the branch that stores the byte.
\<close>

definition consoleintr_store :: "u8 \<Rightarrow> cons \<Rightarrow> bool \<times> u8 list \<times> bool \<times> cons" where
  "consoleintr_store c k =
     (let c = (if c = 13 then 10 else c);
          k = k\<lparr>cbuf := (cbuf k)[unat (ce k) mod INPUT_BUF_SIZE := c], ce := ce k + 1\<rparr> in
      if c = 10 \<or> c = 4 \<or> ce k - cr k = of_nat INPUT_BUF_SIZE
      then (False, consputc (ucast c), True, k\<lparr>cw := ce k\<rparr>)
      else (False, consputc (ucast c), False, k))"

definition consoleintr :: "u8 \<Rightarrow> cons \<Rightarrow> bool \<times> u8 list \<times> bool \<times> cons" where
  "consoleintr c k =
     (if c = 16 then (True, [], False, k)
      else if c = 21 then (let (out, k') = kill_line k in (False, out, False, k'))
      else if c = 8 \<or> c = 127 then
        (if ce k \<noteq> cw k then (False, consputc BACKSPACE, False, k\<lparr>ce := ce k - 1\<rparr>) else (False, [], False, k))
      else if c \<noteq> 0 \<and> ce k - cr k < of_nat INPUT_BUF_SIZE then
        consoleintr_store c k
      else (False, [], False, k))"

text \<open>\<open>cp\<close> is the address of the local variable \<^verbatim>\<open>cbuf\<close>; a blocked read resumes with \<open>n\<close> bytes to go.\<close>

function consoleread_loop :: "uctx \<Rightarrow> u64 \<Rightarrow> bool \<Rightarrow> u64 \<Rightarrow> int \<Rightarrow> int \<Rightarrow> cons \<Rightarrow> 'z kmem_scheme \<Rightarrow>
    (outcome \<times> cons \<times> 'z kmem_scheme) kres" where
  "consoleread_loop p cp user_dst dst n target k s =
     (if n > 0 then
        (if cr k = cw k then (if c_killed p then Inr (Done (-1), k, s) else Inr (Blocked n, k, s))
         else let c = cbuf k ! (unat (cr k) mod INPUT_BUF_SIZE); k1 = k\<lparr>cr := cr k + 1\<rparr> in
           if c = 4 then Inr (Done (target - n), if n < target then k1\<lparr>cr := cr k1 - 1\<rparr> else k1, s)
           else bnd (either_copyout p user_dst dst cp 1 (s\<lparr>mem := (mem s)(cp := c)\<rparr>)) (\<lambda>(r, s1).
             if r = -1 then Inr (Done (target - n), k1, s1)
             else if c = 10 then Inr (Done (target - (n - 1)), k1, s1)
             else consoleread_loop p cp user_dst (dst + 1) (n - 1) target k1 s1))
      else Inr (Done (target - n), k, s))"
  by pat_completeness auto
termination by (relation "measure (\<lambda>(p, cp, ud, dst, n, target, k, s). nat n)") auto

declare consoleread_loop.simps [simp del]

definition consoleread :: "uctx \<Rightarrow> u64 \<Rightarrow> bool \<Rightarrow> u64 \<Rightarrow> int \<Rightarrow> cons \<Rightarrow> 'z kmem_scheme \<Rightarrow>
    (outcome \<times> cons \<times> 'z kmem_scheme) kres" where
  "consoleread p cp user_dst dst n k s = consoleread_loop p cp user_dst dst n n k s"

record uart =
  tx_busy :: bool
  sent :: "u8 list"

text \<open>The registers \<^verbatim>\<open>uartinit\<close> writes, in order.\<close>

definition uartinit :: "(nat \<times> u8) list" where
  "uartinit = [(1, 0), (3, 0x80), (0, 3), (1, 0), (3, 3), (2, 0x07), (1, 0x03)]"

function uartwrite :: "u8 list \<Rightarrow> nat \<Rightarrow> uart \<Rightarrow> outcome \<times> uart" where
  "uartwrite buf i u =
     (if i < length buf then
        (if tx_busy u then (Blocked (int i), u)
         else uartwrite buf (i + 1) (u\<lparr>sent := sent u @ [buf ! i], tx_busy := True\<rparr>))
      else (Done (int (length buf)), u))"
  by pat_completeness auto
termination by (relation "measure (\<lambda>(buf, i, u). length buf - i)") auto

declare uartwrite.simps [simp del]

text \<open>
  \<^verbatim>\<open>consolewrite\<close> at byte \<open>i\<close>: a blocked write stops at byte \<open>k\<close> of the batch that starts at \<open>i\<close>, and
  continues that batch, whose bytes are in the local buffer at \<open>bp\<close>.
\<close>

datatype cwrite = CDone int | CBlocked int int

function consolewrite :: "uctx \<Rightarrow> u64 \<Rightarrow> bool \<Rightarrow> u64 \<Rightarrow> int \<Rightarrow> int \<Rightarrow> uart \<Rightarrow> 'z kmem_scheme \<Rightarrow>
    (cwrite \<times> uart \<times> 'z kmem_scheme) kres" where
  "consolewrite p bp usr_src src n i u s =
     (if i < n then
        let nn = min 32 (n - i) in
        bnd (either_copyin p bp usr_src (src + of_int i) (of_int nn) s) (\<lambda>(r, s1).
        if r = -1 then Inr (CDone i, u, s1)
        else (case uartwrite (mem_read (mem s1) bp (nat nn)) 0 u of
            (Done _, u') \<Rightarrow> consolewrite p bp usr_src src n (i + nn) u' s1
          | (Blocked k, u') \<Rightarrow> Inr (CBlocked i k, u', s1)))
      else Inr (CDone i, u, s))"
  by pat_completeness auto
termination by (relation "measure (\<lambda>(p, bp, us, src, n, i, u, s). nat (n - i))") auto

declare consolewrite.simps [simp del]

definition consolewrite_resume :: "uctx \<Rightarrow> u64 \<Rightarrow> bool \<Rightarrow> u64 \<Rightarrow> int \<Rightarrow> int \<Rightarrow> int \<Rightarrow> uart \<Rightarrow> 'z kmem_scheme \<Rightarrow>
    (cwrite \<times> uart \<times> 'z kmem_scheme) kres" where
  "consolewrite_resume p bp usr_src src n i k u s =
     (let nn = min 32 (n - i) in
      case uartwrite (mem_read (mem s) bp (nat nn)) (nat k) u of
        (Done _, u') \<Rightarrow> consolewrite p bp usr_src src n (i + nn) u' s
      | (Blocked k', u') \<Rightarrow> Inr (CBlocked i k', u', s))"

definition uartgetc :: "u8 list \<Rightarrow> int \<times> u8 list" where
  "uartgetc rx = (case rx of [] \<Rightarrow> (-1, []) | c # rx \<Rightarrow> (uint c, rx))"

function uart_receive :: "u8 list \<Rightarrow> cons \<Rightarrow> nat \<times> u8 list \<times> bool \<times> cons" where
  "uart_receive rx k =
     (let (c, rx') = uartgetc rx in
      if c = -1 then (0, [], False, k)
      else let (dump, out, wake, k1) = consoleintr (of_int c) k; (dumps, out', wake', k2) = uart_receive rx' k1 in
        (of_bool dump + dumps, out @ out', wake \<or> wake', k2))"
  by pat_completeness auto
termination
  by (relation "measure (\<lambda>(rx, k). length rx)") (auto simp: uartgetc_def split: list.splits)

declare uart_receive.simps [simp del]

text \<open>The result says whether the writers are woken, how often the process list is printed, what is echoed
  and whether the readers are woken.\<close>

definition uartintr :: "bool \<Rightarrow> u8 list \<Rightarrow> uart \<Rightarrow> cons \<Rightarrow> bool \<times> nat \<times> u8 list \<times> bool \<times> uart \<times> cons" where
  "uartintr tx_idle rx u k =
     (let u' = (if tx_idle then u\<lparr>tx_busy := False\<rparr> else u); (dumps, out, wake, k') = uart_receive rx k in
      (tx_idle, dumps, out, wake, u', k'))"


section \<open>Line editing\<close>

interpretation cb: ring_counters INPUT_BUF_SIZE "TYPE(32)"
  by unfold_locales (simp_all add: INPUT_BUF_SIZE_def)

text \<open>The buffer as the bytes ready for readers and the line being edited.\<close>

definition committed :: "cons \<Rightarrow> u8 list" where
  "committed k = ring_list INPUT_BUF_SIZE (cbuf k) (cr k) (cw k)"

definition edit_line :: "cons \<Rightarrow> u8 list" where
  "edit_line k = ring_list INPUT_BUF_SIZE (cbuf k) (cw k) (ce k)"

definition cons_inv :: "cons \<Rightarrow> bool" where
  "cons_inv k \<longleftrightarrow> length (cbuf k) = INPUT_BUF_SIZE \<and> unat (cw k - cr k) \<le> unat (ce k - cr k) \<and>
     unat (ce k - cr k) \<le> INPUT_BUF_SIZE \<and> 10 \<notin> set (edit_line k)"

text \<open>What a line editor does with a byte.\<close>

definition line_edit :: "u8 \<Rightarrow> u8 list \<times> u8 list \<Rightarrow> u8 list \<times> u8 list" where
  "line_edit c = (\<lambda>(ready, line).
     if c = 16 then (ready, line)
     else if c = 21 then (ready, [])
     else if c = 8 \<or> c = 127 then (ready, butlast line)
     else if c \<noteq> 0 \<and> length ready + length line < INPUT_BUF_SIZE then
       let c = (if c = 13 then 10 else c); line = line @ [c] in
       if c = 10 \<or> c = 4 \<or> length ready + length line = INPUT_BUF_SIZE then (ready @ line, []) else (ready, line)
     else (ready, line))"

lemma cons_split:
  assumes "cons_inv k"
  shows "ring_list INPUT_BUF_SIZE (cbuf k) (cr k) (ce k) = committed k @ edit_line k"
    "length (committed k) + length (edit_line k) = unat (ce k - cr k)"
proof -
  have "unat (cw k - cr k) \<le> unat (ce k - cr k)" using assms by (simp add: cons_inv_def)
  from cb.split_at [OF this, of "cbuf k"]
  show s: "ring_list INPUT_BUF_SIZE (cbuf k) (cr k) (ce k) = committed k @ edit_line k"
    by (simp add: committed_def edit_line_def)
  then show "length (committed k) + length (edit_line k) = unat (ce k - cr k)"
    by (metis length_append length_ring_list)
qed

lemma edit_last:
  assumes "edit_line k \<noteq> []"
  shows "last (edit_line k) = cbuf k ! (unat (ce k - 1) mod INPUT_BUF_SIZE)"
proof -
  let ?n = "unat (ce k - cw k)"
  have n: "0 < ?n" using assms by (simp add: edit_line_def ring_list_Nil unat_gt_0)
  have "last (edit_line k) = edit_line k ! (?n - 1)" using assms by (simp add: last_conv_nth edit_line_def)
  also have "\<dots> = cbuf k ! (unat (cw k + of_nat (?n - 1)) mod INPUT_BUF_SIZE)"
    using n by (simp add: edit_line_def ring_nth)
  also have "cw k + of_nat (?n - 1) = ce k - 1" using n by (simp add: of_nat_diff)
  finally show ?thesis .
qed

text \<open>Erasing keeps everything before the erased byte.\<close>

lemma erase_one:
  assumes "cons_inv k" "ce k \<noteq> cw k"
  defines "k' \<equiv> k\<lparr>ce := ce k - 1\<rparr>"
  shows "cons_inv k'" "committed k' = committed k" "edit_line k' = butlast (edit_line k)"
proof -
  have e: "edit_line k' = butlast (edit_line k)"
    using cb.erase [of "cw k" "ce k" "cbuf k"] assms(2) by (simp add: edit_line_def k'_def)
  then show "edit_line k' = butlast (edit_line k)" .
  show "committed k' = committed k" by (simp add: committed_def k'_def)
  have ne: "edit_line k \<noteq> []" using assms(2) by (simp add: edit_line_def ring_list_Nil)
  have "unat (ce k - 1 - cr k) = unat (ce k - cr k) - 1"
  proof -
    have "0 < length (edit_line k)" using ne by simp
    then have "unat (ce k - cr k) \<noteq> 0" using cons_split(2) [OF assms(1)] by linarith
    then show ?thesis using unat_minus_one [of "ce k - cr k"] by (simp add: algebra_simps unat_eq_zero)
  qed
  moreover have "unat (cw k - cr k) + length (edit_line k) = unat (ce k - cr k)"
    using cons_split(2) [OF assms(1)] by (simp add: committed_def)
  then have "unat (cw k - cr k) < unat (ce k - cr k)" using ne by (cases "edit_line k") auto
  ultimately show "cons_inv k'"
    using assms(1) e by (auto simp: cons_inv_def k'_def edit_line_def dest: in_set_butlastD)
qed

lemma kill_line_ok:
  "cons_inv k \<Longrightarrow> kill_line k = (out, k') \<Longrightarrow> cons_inv k' \<and> committed k' = committed k \<and> edit_line k' = []"
proof (induction k arbitrary: out k' rule: kill_line.induct)
  case (1 k)
  show ?case
  proof (cases "ce k \<noteq> cw k")
    case True
    then have ne: "edit_line k \<noteq> []" by (simp add: edit_line_def ring_list_Nil)
    then have "last (edit_line k) \<noteq> 10" using "1.prems"(1) by (auto simp: cons_inv_def dest: last_in_set)
    then have c: "ce k \<noteq> cw k \<and> cbuf k ! (unat (ce k - 1) mod INPUT_BUF_SIZE) \<noteq> 10" using edit_last [OF ne] True by simp
    note e = erase_one [OF "1.prems"(1) True]
    obtain o' where "kill_line (k\<lparr>ce := ce k - 1\<rparr>) = (o', k')"
      using "1.prems"(2) c by (subst (asm) kill_line.simps) (auto split: prod.splits)
    from "1.IH" [OF c e(1) this] show ?thesis using e(2) by simp
  next
    case False
    then show ?thesis using "1.prems" by (subst (asm) kill_line.simps) (auto simp: edit_line_def)
  qed
qed


text \<open>Storing a byte at the end of the line.\<close>

lemma append_one:
  assumes inv: "cons_inv k" and room: "unat (ce k - cr k) < INPUT_BUF_SIZE"
    and k': "k' = k\<lparr>cbuf := (cbuf k)[unat (ce k) mod INPUT_BUF_SIZE := c], ce := ce k + 1\<rparr>"
  shows "committed k' = committed k" "edit_line k' = edit_line k @ [c]"
    "length (cbuf k') = INPUT_BUF_SIZE" "unat (ce k' - cr k') = Suc (unat (ce k - cr k))"
    "unat (cw k' - cr k') \<le> unat (ce k' - cr k')"
proof -
  have len: "length (cbuf k) = INPUT_BUF_SIZE" and le: "unat (cw k - cr k) \<le> unat (ce k - cr k)"
    using inv by (simp_all add: cons_inv_def)
  show l': "length (cbuf k') = INPUT_BUF_SIZE" using len by (simp add: k')
  show s: "unat (ce k' - cr k') = Suc (unat (ce k - cr k))" using cb.counter_succ [OF room] by (simp add: k')
  show le': "unat (cw k' - cr k') \<le> unat (ce k' - cr k')" using s le by (simp add: k')
  have all: "ring_list INPUT_BUF_SIZE (cbuf k') (cr k') (ce k') = (committed k @ edit_line k) @ [c]"
    using cb.push [OF room len, of c] cons_split(1) [OF inv] by (simp add: k')
  have split: "ring_list INPUT_BUF_SIZE (cbuf k') (cr k') (ce k') = committed k' @ edit_line k'"
    using cb.split_at [OF le', of "cbuf k'"] by (simp add: committed_def edit_line_def)
  have "length (committed k') = length (committed k)" by (simp add: committed_def k')
  with all split show "committed k' = committed k" "edit_line k' = edit_line k @ [c]"
    by (simp_all add: append_eq_append_conv)
qed

lemma store_ok:
  assumes inv: "cons_inv k" and room: "unat (ce k - cr k) < INPUT_BUF_SIZE"
    and r: "consoleintr_store c k = (dump, out, wake, k')"
  shows "cons_inv k' \<and> cr k' = cr k \<and> (wake \<longleftrightarrow> committed k' \<noteq> committed k) \<and>
    (committed k', edit_line k') =
      (let c = (if c = 13 then 10 else c); line = edit_line k @ [c] in
       if c = 10 \<or> c = 4 \<or> length (committed k) + length line = INPUT_BUF_SIZE then (committed k @ line, [])
       else (committed k, line))"
proof -
  define d where d: "d = (if c = 13 then 10 else c)"
  define k1 where k1: "k1 = k\<lparr>cbuf := (cbuf k)[unat (ce k) mod INPUT_BUF_SIZE := d], ce := ce k + 1\<rparr>"
  note a = append_one [OF inv room k1]
  have len: "length (committed k) + length (edit_line k) = unat (ce k - cr k)" by (rule cons_split(2) [OF inv])
  have full: "ce k1 - cr k1 = of_nat INPUT_BUF_SIZE \<longleftrightarrow> length (committed k) + length (edit_line k @ [d]) = INPUT_BUF_SIZE"
    using len a(4) by (simp add: INPUT_BUF_SIZE_def word_unat_eq_iff)
  let ?commit = "d = 10 \<or> d = 4 \<or> ce k1 - cr k1 = of_nat INPUT_BUF_SIZE"
  have r': "(wake, k') = (?commit, if ?commit then k1\<lparr>cw := ce k1\<rparr> else k1)"
    using r unfolding consoleintr_store_def Let_def d [symmetric] k1 [symmetric] by (auto split: if_splits)
  have cr: "cr k1 = cr k" by (simp add: k1)
  show ?thesis
  proof (cases ?commit)
    case True
    have "committed (k1\<lparr>cw := ce k1\<rparr>) = committed k1 @ edit_line k1"
      using cb.split_at [OF a(5), of "cbuf k1"] by (simp add: committed_def edit_line_def)
    moreover have "edit_line (k1\<lparr>cw := ce k1\<rparr>) = []" by (simp add: edit_line_def)
    ultimately show ?thesis
      using True r' a room cr full unfolding d [symmetric] Let_def by (auto simp: cons_inv_def)
  next
    case False
    then have "10 \<notin> set (edit_line k1)" using a(2) inv by (auto simp: cons_inv_def)
    then show ?thesis
      using False r' a room cr full unfolding d [symmetric] Let_def by (auto simp: cons_inv_def)
  qed
qed

lemma consoleintr_ok:
  assumes inv: "cons_inv k" and r: "consoleintr c k = (dump, out, wake, k')"
  shows "cons_inv k'" "(committed k', edit_line k') = line_edit c (committed k, edit_line k)"
    "cr k' = cr k" "wake \<longleftrightarrow> committed k' \<noteq> committed k"
proof -
  have len: "length (committed k) + length (edit_line k) = unat (ce k - cr k)" by (rule cons_split(2) [OF inv])
  have full: "ce k - cr k < of_nat INPUT_BUF_SIZE \<longleftrightarrow> unat (ce k - cr k) < INPUT_BUF_SIZE"
    by (simp add: word_less_nat_alt INPUT_BUF_SIZE_def)
  have "cons_inv k' \<and> (committed k', edit_line k') = line_edit c (committed k, edit_line k) \<and> cr k' = cr k \<and>
      (wake \<longleftrightarrow> committed k' \<noteq> committed k)"
  proof -
    consider (dump) "c = 16" | (kill) "c = 21" | (erase) "c = 8 \<or> c = 127"
      | (none) "c \<notin> {16, 21, 8, 127}" "\<not> (c \<noteq> 0 \<and> unat (ce k - cr k) < INPUT_BUF_SIZE)"
      | (app) "c \<notin> {16, 21, 8, 127}" "c \<noteq> 0" "unat (ce k - cr k) < INPUT_BUF_SIZE" by blast
    then show ?thesis
    proof cases
      case dump
      then show ?thesis using r inv by (auto simp: consoleintr_def line_edit_def)
    next
      case kill
      then obtain o' where "kill_line k = (o', k')" "\<not> wake" using r by (auto simp: consoleintr_def split: prod.splits)
      moreover have "cr (snd (kill_line k)) = cr k" by (induction k rule: kill_line.induct) (subst kill_line.simps, auto split: prod.splits)
      ultimately show ?thesis using kill_line_ok [OF inv] kill by (auto simp: line_edit_def)
    next
      case erase
      show ?thesis
      proof (cases "ce k = cw k")
        case True
        then have "edit_line k = []" by (simp add: edit_line_def)
        then show ?thesis using erase True r inv by (auto simp: consoleintr_def line_edit_def)
      next
        case False
        then show ?thesis using erase r erase_one [OF inv False] by (auto simp: consoleintr_def line_edit_def)
      qed
    next
      case none
      then show ?thesis using r inv len full by (auto simp: consoleintr_def line_edit_def)
    next
      case app
      then have "consoleintr_store c k = (dump, out, wake, k')" using full r by (simp add: consoleintr_def)
      from store_ok [OF inv app(3) this] show ?thesis using app len by (auto simp: line_edit_def Let_def)
    qed
  qed
  then show "cons_inv k'" "(committed k', edit_line k') = line_edit c (committed k, edit_line k)"
    "cr k' = cr k" "wake \<longleftrightarrow> committed k' \<noteq> committed k" by blast+
qed


section \<open>Properties\<close>

text \<open>
  C15. The console buffer implements a line editor: for every input byte, \<^verbatim>\<open>consoleintr\<close> on the ring with
  its three wrapping counters does to the bytes ready for readers and to the line being typed what
  \<open>line_edit\<close> says, keeps the invariant, and wakes the readers exactly when bytes became ready.
\<close>

theorem consoleintr_refines_line_edit:
  assumes "cons_inv k" "consoleintr c k = (dump, out, wake, k')"
  shows "cons_inv k' \<and> (committed k', edit_line k') = line_edit c (committed k, edit_line k) \<and>
    (wake \<longleftrightarrow> committed k' \<noteq> committed k)"
  using consoleintr_ok [OF assms] by blast

theorem consoleintr_refines_line_edit_witness:
  "let k = \<lparr>cbuf = replicate 128 97, cr = 0xFFFFFFFE, cw = 0xFFFFFFFF, ce = 1\<rparr> in
   (case consoleintr 13 k of (dump, out, wake, k') \<Rightarrow>
      wake \<and> committed k' = [97, 97, 97, 10] \<and> edit_line k' = [])"
proof -
  let ?k = "\<lparr>cbuf = replicate 128 97, cr = 0xFFFFFFFE, cw = 0xFFFFFFFF, ce = 1\<rparr>"
  have e: "edit_line ?k = [97, 97]" "committed ?k = [97]" "length (cbuf ?k) = INPUT_BUF_SIZE"
    by (simp_all add: edit_line_def committed_def ring_list_def INPUT_BUF_SIZE_def upt_rec)
  then have "cons_inv ?k" by (simp add: cons_inv_def INPUT_BUF_SIZE_def)
  moreover obtain dump out wake k' where r: "consoleintr 13 ?k = (dump, out, wake, k')" by (metis prod_cases4)
  ultimately have "(committed k', edit_line k') = line_edit 13 (committed ?k, edit_line ?k) \<and> (wake \<longleftrightarrow> committed k' \<noteq> committed ?k)"
    using consoleintr_refines_line_edit by blast
  then show ?thesis using r e by (simp add: line_edit_def Let_def)
qed

end
