(* ===== verification/Kstate.thy ===== *)
theory Kstate
  imports Console Dir
begin

text \<open>
  The state of the kernel above its memory and its file system: open files, processes and the devices
  that files lead to (\<^verbatim>\<open>kernel/file.h\<close>, \<^verbatim>\<open>kernel/proc.h\<close>). A run is that of the process \<open>cur\<close>, whose
  pid is \<open>curpid\<close>; \<open>um\<close> is the memory with the page tables, \<open>kbuf\<close> the address of local variables whose
  address the code takes. Waiting channels, which are addresses in the code, are told apart by name.
\<close>

section \<open>State\<close>

datatype ftype = FD_NONE | FD_PIPE | FD_INODE | FD_DEVICE

record kfile =
  f_type :: ftype
  f_ref :: int
  f_readable :: bool
  f_writable :: bool
  f_pipe :: u64
  f_ip :: nat
  f_off :: u32
  f_major :: u16

datatype procstate = UNUSED | USED | SLEEPING | RUNNABLE | RUNNING | ZOMBIE

datatype chan = ChNone | ChNread u64 | ChNwrite u64 | ChProc nat | ChTicks | ChCons | ChTx

text \<open>\<open>regs\<close> are the registers from \<^verbatim>\<open>ra\<close> to \<^verbatim>\<open>t6\<close> in the order of the structure.\<close>

record trapframe =
  kernel_satp :: u64
  kernel_sp :: u64
  kernel_trap :: u64
  epc :: u64
  kernel_hartid :: u64
  regs :: "u64 list"

definition reg_sp :: nat where
  "reg_sp = 1"

definition reg_a :: "nat \<Rightarrow> nat" where
  "reg_a n = 9 + n"

definition set_reg :: "nat \<Rightarrow> u64 \<Rightarrow> trapframe \<Rightarrow> trapframe" where
  "set_reg r v t = t\<lparr>regs := (regs t)[r := v]\<rparr>"

record kcontext =
  ctx_ra :: u64
  ctx_sp :: u64
  ctx_s :: "u64 list"

record proc =
  p_state :: procstate
  p_chan :: chan
  p_killed :: bool
  p_xstate :: int
  p_pid :: int
  p_parent :: "nat option"
  p_kstack :: u64
  p_sz :: u64
  p_pagetable :: u64
  p_kpagetable :: u64
  p_trapframe :: u64
  p_tf :: trapframe
  p_context :: kcontext
  p_ofile :: "nat option list"
  p_cwd :: "nat option"
  p_name :: "u8 list"
  p_tracemask :: u64
  p_alarm_ticks :: int
  p_alarm_interval :: int
  p_alarm_handler :: u64
  p_alarm_trapframe :: u64
  p_alarm_tf :: trapframe
  p_alarm_active :: bool

record ksys = fsys +
  um :: kmem
  ftable :: "kfile list"
  pipes :: "u64 \<Rightarrow> pipe"
  procs :: "proc list"
  nextpid :: int
  initproc :: "nat option"
  cur :: nat
  kticks :: u32
  kcons :: cons
  kuart :: uart
  kbuf :: u64
  kernel_pagetable :: u64
  etext :: u64
  trampoline :: u64

abbreviation prc :: "'z ksys_scheme \<Rightarrow> nat \<Rightarrow> proc" where
  "prc s p \<equiv> procs s ! p"

abbreviation myproc :: "'z ksys_scheme \<Rightarrow> proc" where
  "myproc s \<equiv> procs s ! cur s"

definition upd_proc :: "nat \<Rightarrow> (proc \<Rightarrow> proc) \<Rightarrow> 'z ksys_scheme \<Rightarrow> 'z ksys_scheme" where
  "upd_proc p f s = s\<lparr>procs := (procs s)[p := f (procs s ! p)]\<rparr>"

definition upd_file :: "nat \<Rightarrow> (kfile \<Rightarrow> kfile) \<Rightarrow> 'z ksys_scheme \<Rightarrow> 'z ksys_scheme" where
  "upd_file fp f s = s\<lparr>ftable := (ftable s)[fp := f (ftable s ! fp)]\<rparr>"

text \<open>What the copy routines use of the running process.\<close>

definition my_uctx :: "'z ksys_scheme \<Rightarrow> uctx" where
  "my_uctx s = \<lparr>c_sz = p_sz (myproc s), c_pagetable = p_pagetable (myproc s), c_kpagetable = p_kpagetable (myproc s),
     c_killed = p_killed (myproc s)\<rparr>"

text \<open>\<^verbatim>\<open>copyout\<close> of the bytes of a local variable.\<close>

definition copyout_bytes :: "u64 \<Rightarrow> u8 list \<Rightarrow> 'z ksys_scheme \<Rightarrow> (int \<times> 'z ksys_scheme) kres" where
  "copyout_bytes dst bs s =
     (let u = my_uctx s; m = (um s)\<lparr>mem := mem_write (mem (um s)) (kbuf s) bs\<rparr> in
      bnd (copyout (c_sz u) (c_pagetable u) (c_pagetable u) dst (kbuf s) (of_nat (length bs)) m) (\<lambda>(r, m'). Inr (r, s\<lparr>um := m'\<rparr>)))"

section \<open>Wakeup\<close>

definition wake_proc :: "chan \<Rightarrow> proc \<Rightarrow> proc" where
  "wake_proc c p = (if p_state p = SLEEPING \<and> p_chan p = c then p\<lparr>p_state := RUNNABLE\<rparr> else p)"

definition wakeup :: "chan \<Rightarrow> 'z ksys_scheme \<Rightarrow> 'z ksys_scheme" where
  "wakeup c s = s\<lparr>procs := map (\<lambda>i. if i = cur s then prc s i else wake_proc c (prc s i)) [0..<length (procs s)]\<rparr>"

definition pipe_chan :: "u64 \<Rightarrow> pchan \<Rightarrow> chan" where
  "pipe_chan pi c = (case c of NREAD \<Rightarrow> ChNread pi | NWRITE \<Rightarrow> ChNwrite pi)"

definition wakeups :: "u64 \<Rightarrow> pchan list \<Rightarrow> 'z ksys_scheme \<Rightarrow> 'z ksys_scheme" where
  "wakeups pi cs s = fold (\<lambda>c. wakeup (pipe_chan pi c)) cs s"

end
