(* ===== verification/File.thy ===== *)
theory File
  imports Kstate
begin

text \<open>
  Open files (\<^verbatim>\<open>kernel/file.c\<close>) and the creation of pipes (\<^verbatim>\<open>pipealloc\<close> of \<^verbatim>\<open>kernel/pipe.c\<close>). A pointer to
  a file is its index in the file table.
\<close>

section \<open>Operations\<close>

definition CONSOLE :: u16 where
  "CONSOLE = 1"

definition empty_file :: kfile where
  "empty_file = \<lparr>f_type = FD_NONE, f_ref = 0, f_readable = False, f_writable = False, f_pipe = 0, f_ip = 0, f_off = 0, f_major = 0\<rparr>"

definition filealloc :: "'z ksys_scheme \<Rightarrow> nat option \<times> 'z ksys_scheme" where
  "filealloc s = (case List.find (\<lambda>f. f_ref (ftable s ! f) = 0) [0..<NFILE] of
     Some f \<Rightarrow> (Some f, upd_file f (\<lambda>x. x\<lparr>f_ref := 1\<rparr>) s)
   | None \<Rightarrow> (None, s))"

definition filedup :: "nat \<Rightarrow> 'z ksys_scheme \<Rightarrow> 'z ksys_scheme kres" where
  "filedup f s = panic_if (f_ref (ftable s ! f) < 1) ''filedup'' (Inr (upd_file f (\<lambda>x. x\<lparr>f_ref := f_ref x + 1\<rparr>) s))"

definition close_pipe :: "u64 \<Rightarrow> bool \<Rightarrow> 'z ksys_scheme \<Rightarrow> 'z ksys_scheme kres" where
  "close_pipe pi writable s =
     (let (freed, cs, p) = pipeclose (pipes s pi) writable; s = wakeups pi cs (s\<lparr>pipes := (pipes s)(pi := p)\<rparr>) in
      if freed then bnd (kfree pi (um s)) (\<lambda>m. Inr (s\<lparr>um := m\<rparr>)) else Inr s)"

definition fileclose :: "nat \<Rightarrow> 'z ksys_scheme \<Rightarrow> 'z ksys_scheme kres" where
  "fileclose f s =
     panic_if (f_ref (ftable s ! f) < 1) ''fileclose'' (
     let s = upd_file f (\<lambda>x. x\<lparr>f_ref := f_ref x - 1\<rparr>) s in
     if f_ref (ftable s ! f) > 0 then Inr s
     else let ff = ftable s ! f; s = upd_file f (\<lambda>x. x\<lparr>f_ref := 0, f_type := FD_NONE\<rparr>) s in
       (case f_type ff of
          FD_PIPE \<Rightarrow> close_pipe (f_pipe ff) (f_writable ff) s
        | FD_NONE \<Rightarrow> Inr s
        | _ \<Rightarrow> bnd (begin_op s) (\<lambda>s. bnd (iput (f_ip ff) s) end_op)))"

text \<open>The bytes of \<^verbatim>\<open>struct stat\<close>; the four bytes before the size are padding, left as they were.\<close>

definition stat_bytes :: "u8 list \<Rightarrow> stat \<Rightarrow> u8 list" where
  "stat_bytes pad st = le_bytes 4 (st_dev st) @ le_bytes 4 (st_ino st) @ le_bytes 2 (st_type st) @ le_bytes 2 (st_nlink st) @
     take 4 pad @ le_bytes 8 (st_size st)"

definition filestat :: "nat \<Rightarrow> u64 \<Rightarrow> 'z ksys_scheme \<Rightarrow> (int \<times> 'z ksys_scheme) kres" where
  "filestat f addr s =
     (let fl = ftable s ! f in
      if f_type fl = FD_INODE \<or> f_type fl = FD_DEVICE then
        bnd (ilock (f_ip fl) s) (\<lambda>s.
        let st = stati (ino s (f_ip fl)) in
        bnd (iunlock (f_ip fl) s) (\<lambda>s.
        bnd (copyout_bytes addr (stat_bytes (mem_read (mem (um s)) (kbuf s + 12) 4) st) s) (\<lambda>(r, s).
        Inr (if r < 0 then -1 else 0, s))))
      else Inr (-1, s))"

text \<open>\<^verbatim>\<open>either_copyout\<close> of part of a buffer to user memory, and \<^verbatim>\<open>either_copyin\<close> from it into a buffer.\<close>

definition to_user :: "uctx \<Rightarrow> u64 \<Rightarrow> kmem copier" where
  "to_user u kb dst bs m = either_copyout u True dst kb (of_nat (length bs)) (m\<lparr>mem := mem_write (mem m) kb bs\<rparr>)"

definition from_user :: "uctx \<Rightarrow> u64 \<Rightarrow> kmem \<Rightarrow> copyin_fn" where
  "from_user u kb m src k = bnd (either_copyin u kb True src (of_nat k) m) (\<lambda>(r, m'). Inr (r, mem_read (mem m') kb k))"

definition fileread :: "nat \<Rightarrow> u64 \<Rightarrow> int \<Rightarrow> 'z ksys_scheme \<Rightarrow> (outcome \<times> 'z ksys_scheme) kres" where
  "fileread f addr n s =
     (let fl = ftable s ! f in
      if \<not> f_readable fl then Inr (Done (-1), s)
      else case f_type fl of
        FD_PIPE \<Rightarrow>
          bnd (piperead (my_uctx s) (kbuf s) addr n (pipes s (f_pipe fl)) (um s)) (\<lambda>(r, cs, pi, m).
          Inr (r, wakeups (f_pipe fl) cs (s\<lparr>pipes := (pipes s)(f_pipe fl := pi), um := m\<rparr>)))
      | FD_DEVICE \<Rightarrow>
          if sint (f_major fl) < 0 \<or> sint (f_major fl) \<ge> int NDEV \<or> f_major fl \<noteq> CONSOLE then Inr (Done (-1), s)
          else bnd (consoleread (my_uctx s) (kbuf s) True addr n (kcons s) (um s)) (\<lambda>(r, k, m). Inr (r, s\<lparr>kcons := k, um := m\<rparr>))
      | FD_INODE \<Rightarrow>
          bnd (ilock (f_ip fl) s) (\<lambda>s.
          bnd (readi (to_user (my_uctx s) (kbuf s)) (f_ip fl) addr (f_off fl) (of_int n) s (um s)) (\<lambda>(r, s, m).
          let s = s\<lparr>um := m\<rparr>; s = (if r > 0 then upd_file f (\<lambda>x. x\<lparr>f_off := f_off x + of_int r\<rparr>) s else s) in
          bnd (iunlock (f_ip fl) s) (\<lambda>s. Inr (Done r, s))))
      | FD_NONE \<Rightarrow> Inl (Panic ''fileread''))"

definition max_write :: int where
  "max_write = int ((MAXOPBLOCKS - 1 - 1 - 2) div 2 * BSIZE)"

text \<open>The chunks of a write to an inode; each is a transaction of its own.\<close>

function filewrite_loop :: "nat \<Rightarrow> u64 \<Rightarrow> int \<Rightarrow> int \<Rightarrow> 'z ksys_scheme \<Rightarrow> (int \<times> 'z ksys_scheme) kres" where
  "filewrite_loop f addr n i s =
     (if i < n then
        let n1 = min (n - i) max_write; fl = ftable s ! f in
        bnd (begin_op s) (\<lambda>s.
        bnd (ilock (f_ip fl) s) (\<lambda>s.
        bnd (writei (from_user (my_uctx s) (kbuf s) (um s)) (f_ip fl) (addr + of_int i) (f_off fl) (of_int n1) s) (\<lambda>(r, s).
        let s = (if r > 0 then upd_file f (\<lambda>x. x\<lparr>f_off := f_off x + of_int r\<rparr>) s else s) in
        bnd (iunlock (f_ip fl) s) (\<lambda>s.
        bnd (end_op s) (\<lambda>s.
        if r \<noteq> n1 then Inr (i, s) else filewrite_loop f addr n (i + n1) s)))))
      else Inr (i, s))"
  by pat_completeness auto
termination
  by (relation "measure (\<lambda>(f, addr, n, i, s). nat (n - i))") (auto simp: max_write_def MAXOPBLOCKS_def BSIZE_def)

declare filewrite_loop.simps [simp del]

text \<open>A write to the console that blocks returns the batch and the byte it stopped at.\<close>

datatype woutcome = WDone int | WPipe int | WCons int int

definition filewrite :: "nat \<Rightarrow> u64 \<Rightarrow> int \<Rightarrow> 'z ksys_scheme \<Rightarrow> (woutcome \<times> 'z ksys_scheme) kres" where
  "filewrite f addr n s =
     (let fl = ftable s ! f in
      if \<not> f_writable fl then Inr (WDone (-1), s)
      else case f_type fl of
        FD_PIPE \<Rightarrow>
          bnd (pipewrite (my_uctx s) (kbuf s) addr n 0 (pipes s (f_pipe fl)) (um s)) (\<lambda>(r, cs, pi, m).
          Inr (case r of Done k \<Rightarrow> WDone k | Blocked k \<Rightarrow> WPipe k, wakeups (f_pipe fl) cs (s\<lparr>pipes := (pipes s)(f_pipe fl := pi), um := m\<rparr>)))
      | FD_DEVICE \<Rightarrow>
          if sint (f_major fl) < 0 \<or> sint (f_major fl) \<ge> int NDEV \<or> f_major fl \<noteq> CONSOLE then Inr (WDone (-1), s)
          else bnd (consolewrite (my_uctx s) (kbuf s) True addr n 0 (kuart s) (um s)) (\<lambda>(r, u, m).
            Inr (case r of CDone k \<Rightarrow> WDone k | CBlocked i k \<Rightarrow> WCons i k, s\<lparr>kuart := u, um := m\<rparr>))
      | FD_INODE \<Rightarrow> bnd (filewrite_loop f addr n 0 s) (\<lambda>(i, s). Inr (WDone (if i = n then n else -1), s))
      | FD_NONE \<Rightarrow> Inl (Panic ''filewrite''))"

text \<open>\<^verbatim>\<open>pipealloc\<close>: two files and a page; on failure everything taken is given back.\<close>

definition pipe_file :: "bool \<Rightarrow> u64 \<Rightarrow> kfile \<Rightarrow> kfile" where
  "pipe_file reader pi x = x\<lparr>f_type := FD_PIPE, f_readable := reader, f_writable := \<not> reader, f_pipe := pi\<rparr>"

definition close_opt :: "nat option \<Rightarrow> 'z ksys_scheme \<Rightarrow> 'z ksys_scheme kres" where
  "close_opt f s = (case f of None \<Rightarrow> Inr s | Some f \<Rightarrow> fileclose f s)"

definition pipealloc :: "'z ksys_scheme \<Rightarrow> ((nat \<times> nat) option \<times> 'z ksys_scheme) kres" where
  "pipealloc s =
     (let (f0, s) = filealloc s; (f1, s) = (if f0 = None then (None, s) else filealloc s) in
      case (f0, f1) of
        (Some a, Some b) \<Rightarrow>
          bnd (kalloc (um s)) (\<lambda>(pi, m).
          let s = s\<lparr>um := m\<rparr> in
          if pi = 0 then bnd (fileclose a s) (\<lambda>s. bnd (fileclose b s) (\<lambda>s. Inr (None, s)))
          else let s = s\<lparr>pipes := (pipes s)(pi := new_pipe (mem_read (mem m) (pi + 24) PIPESIZE))\<rparr> in
            Inr (Some (a, b), upd_file b (pipe_file False pi) (upd_file a (pipe_file True pi) s)))
      | _ \<Rightarrow> bnd (close_opt f0 s) (\<lambda>s. bnd (close_opt f1 s) (\<lambda>s. Inr (None, s))))"

end
