(* ===== verification/Proc.thy ===== *)
theory Proc
  imports File
begin

text \<open>
  Processes (\<^verbatim>\<open>kernel/proc.c\<close>) and the kernel page tables they get (\<^verbatim>\<open>kvmmake\<close> of \<^verbatim>\<open>kernel/vm.c\<close>). The code
  under \<^verbatim>\<open>p->lock\<close> or \<^verbatim>\<open>wait_lock\<close> is one step. \<^verbatim>\<open>kvmfreeproc\<close> calls two functions that the kernel does not
  define; they are parameters.
\<close>

unbundle bit_operations_syntax

section \<open>Operations\<close>

subsection \<open>Page tables of processes\<close>

primrec mapstacks_loop :: "u64 \<Rightarrow> nat list \<Rightarrow> kmem \<Rightarrow> kmem kres" where
  "mapstacks_loop kpgtbl [] m = Inr m"
| "mapstacks_loop kpgtbl (p # ps) m =
     bnd (kalloc m) (\<lambda>(pa, m).
     panic_if (pa = 0) ''kalloc'' (
     bnd (kvmmap kpgtbl (KSTACK p) pa PGSIZE (PTE_R OR PTE_W) m) (mapstacks_loop kpgtbl ps)))"

definition proc_mapstacks :: "u64 \<Rightarrow> kmem \<Rightarrow> kmem kres" where
  "proc_mapstacks kpgtbl m = mapstacks_loop kpgtbl [0..<NPROC] m"

text \<open>\<open>et\<close> and \<open>tr\<close> are the addresses of \<^verbatim>\<open>etext\<close> and \<^verbatim>\<open>trampoline\<close>. Clearing page 0 would fault.\<close>

definition kvmmake :: "u64 \<Rightarrow> u64 \<Rightarrow> kmem \<Rightarrow> (u64 \<times> kmem) kres" where
  "kvmmake et tr m =
     bnd (kalloc m) (\<lambda>(kpgtbl, m).
     if kpgtbl = 0 then Inl (Panic ''kerneltrap'')
     else
       bnd (kvmmap kpgtbl UART0 UART0 PGSIZE (PTE_R OR PTE_W) (m\<lparr>mem := memset (mem m) kpgtbl 0 4096\<rparr>)) (\<lambda>m.
       bnd (kvmmap kpgtbl VIRTIO0 VIRTIO0 PGSIZE (PTE_R OR PTE_W) m) (\<lambda>m.
       bnd (kvmmap kpgtbl PLIC PLIC 0x4000000 (PTE_R OR PTE_W) m) (\<lambda>m.
       bnd (kvmmap kpgtbl KERNBASE KERNBASE (et - KERNBASE) (PTE_R OR PTE_X) m) (\<lambda>m.
       bnd (kvmmap kpgtbl et et (PHYSTOP - et) (PTE_R OR PTE_W) m) (\<lambda>m.
       bnd (kvmmap kpgtbl TRAMPOLINE tr PGSIZE (PTE_R OR PTE_X) m) (\<lambda>m.
       bnd (proc_mapstacks kpgtbl m) (\<lambda>m. Inr (kpgtbl, m)))))))))"

definition kvminit :: "'z ksys_scheme \<Rightarrow> 'z ksys_scheme kres" where
  "kvminit s = bnd (kvmmake (etext s) (trampoline s) (um s)) (\<lambda>(pt, m). Inr (s\<lparr>kernel_pagetable := pt, um := m\<rparr>))"

record kvm_ext =
  ukvmunmap :: "u64 \<Rightarrow> u64 \<Rightarrow> u64 \<Rightarrow> kmem \<Rightarrow> kmem kres"
  ufreewalk :: "u64 \<Rightarrow> kmem \<Rightarrow> kmem kres"

definition kvmfreeproc :: "kvm_ext \<Rightarrow> u64 \<Rightarrow> u64 \<Rightarrow> u64 \<Rightarrow> kmem \<Rightarrow> kmem kres" where
  "kvmfreeproc x et kpagetable kstack m =
     bnd (ukvmunmap x kpagetable kstack 1 m) (\<lambda>m.
     bnd (ukvmunmap x kpagetable TRAMPOLINE 1 m) (\<lambda>m.
     bnd (ukvmunmap x kpagetable et ((PHYSTOP - et) div PGSIZE) m) (\<lambda>m.
     bnd (ukvmunmap x kpagetable KERNBASE ((et - KERNBASE) div PGSIZE) m) (\<lambda>m.
     bnd (ukvmunmap x kpagetable PLIC (0x400000 div PGSIZE) m) (\<lambda>m.
     bnd (ukvmunmap x kpagetable VIRTIO0 1 m) (\<lambda>m.
     bnd (ukvmunmap x kpagetable UART0 1 m) (ufreewalk x kpagetable)))))))"

definition proc_pagetable :: "u64 \<Rightarrow> u64 \<Rightarrow> kmem \<Rightarrow> (u64 \<times> kmem) kres" where
  "proc_pagetable tr tf m =
     bnd (uvmcreate m) (\<lambda>(pagetable, m).
     if pagetable = 0 then Inr (0, m)
     else bnd (mappages pagetable TRAMPOLINE PGSIZE tr (PTE_R OR PTE_X) m) (\<lambda>(r, m).
       if r < 0 then bnd (uvmfree pagetable 0 m) (\<lambda>m. Inr (0, m))
       else bnd (mappages pagetable TRAPFRAME PGSIZE tf (PTE_R OR PTE_W) m) (\<lambda>(r, m).
         if r < 0 then
           bnd (uvmunmap pagetable TRAMPOLINE 1 False m) (\<lambda>m. bnd (uvmfree pagetable 0 m) (\<lambda>m. Inr (0, m)))
         else Inr (pagetable, m))))"

definition proc_freepagetable :: "u64 \<Rightarrow> u64 \<Rightarrow> kmem \<Rightarrow> kmem kres" where
  "proc_freepagetable pagetable sz m =
     bnd (uvmunmap pagetable TRAMPOLINE 1 False m) (\<lambda>m.
     bnd (uvmunmap pagetable TRAPFRAME 1 False m) (uvmfree pagetable sz))"

definition on_um :: "(kmem \<Rightarrow> ('a \<times> kmem) kres) \<Rightarrow> 'z ksys_scheme \<Rightarrow> ('a \<times> 'z ksys_scheme) kres" where
  "on_um f s = bnd (f (um s)) (\<lambda>(r, m). Inr (r, s\<lparr>um := m\<rparr>))"

definition on_um' :: "(kmem \<Rightarrow> kmem kres) \<Rightarrow> 'z ksys_scheme \<Rightarrow> 'z ksys_scheme kres" where
  "on_um' f s = bnd (f (um s)) (\<lambda>m. Inr (s\<lparr>um := m\<rparr>))"

subsection \<open>The process table\<close>

definition empty_tf :: trapframe where
  "empty_tf = \<lparr>kernel_satp = 0, kernel_sp = 0, kernel_trap = 0, epc = 0, kernel_hartid = 0, regs = replicate 31 0\<rparr>"

definition empty_proc :: proc where
  "empty_proc = \<lparr>p_state = UNUSED, p_chan = ChNone, p_killed = False, p_xstate = 0, p_pid = 0, p_parent = None, p_kstack = 0, p_sz = 0,
     p_pagetable = 0, p_kpagetable = 0, p_trapframe = 0, p_tf = empty_tf, p_context = \<lparr>ctx_ra = 0, ctx_sp = 0, ctx_s = replicate 12 0\<rparr>,
     p_ofile = replicate NOFILE None, p_cwd = None, p_name = [], p_tracemask = 0, p_alarm_ticks = 0, p_alarm_interval = 0,
     p_alarm_handler = 0, p_alarm_trapframe = 0, p_alarm_tf = empty_tf, p_alarm_active = False\<rparr>"

definition procinit :: "'z ksys_scheme \<Rightarrow> 'z ksys_scheme" where
  "procinit s = s\<lparr>procs := map (\<lambda>p. (prc s p)\<lparr>p_state := UNUSED, p_kstack := KSTACK p\<rparr>) [0..<NPROC]\<rparr>"

definition allocpid :: "'z ksys_scheme \<Rightarrow> int \<times> 'z ksys_scheme" where
  "allocpid s = (nextpid s, s\<lparr>nextpid := nextpid s + 1\<rparr>)"

definition freeproc :: "kvm_ext \<Rightarrow> nat \<Rightarrow> 'z ksys_scheme \<Rightarrow> 'z ksys_scheme kres" where
  "freeproc x p s =
     bnd (if p_trapframe (prc s p) \<noteq> 0 then on_um' (kfree (p_trapframe (prc s p))) s else Inr s) (\<lambda>s.
     let s = upd_proc p (\<lambda>q. q\<lparr>p_trapframe := 0\<rparr>) s in
     bnd (if p_pagetable (prc s p) \<noteq> 0 then on_um' (proc_freepagetable (p_pagetable (prc s p)) (p_sz (prc s p))) s else Inr s) (\<lambda>s.
     let s = upd_proc p (\<lambda>q. q\<lparr>p_pagetable := 0, p_sz := 0, p_pid := 0, p_name := [], p_chan := ChNone, p_killed := False, p_xstate := 0,
           p_state := UNUSED, p_tracemask := 0, p_alarm_interval := 0, p_alarm_handler := 0, p_alarm_ticks := 0, p_alarm_trapframe := 0\<rparr>) s in
     if p_kpagetable (prc s p) \<noteq> 0 then
       bnd (on_um' (kvmfreeproc x (etext s) (p_kpagetable (prc s p)) (p_kstack (prc s p))) s) (\<lambda>s.
       Inr (upd_proc p (\<lambda>q. q\<lparr>p_kpagetable := 0\<rparr>) s))
     else Inr s))"

text \<open>The frame of a fresh page from \<^verbatim>\<open>kalloc\<close>, which is filled with fives.\<close>

definition junk_tf :: trapframe where
  "junk_tf = (let j = 0x0505050505050505 in
     \<lparr>kernel_satp = j, kernel_sp = j, kernel_trap = j, epc = j, kernel_hartid = j, regs = replicate 31 j\<rparr>)"

text \<open>Steps of \<^verbatim>\<open>allocproc\<close> after a slot is found; \<open>fr\<close> is the address of \<^verbatim>\<open>forkret\<close>.\<close>

definition alloc_fail :: "kvm_ext \<Rightarrow> nat \<Rightarrow> 'z ksys_scheme \<Rightarrow> (nat option \<times> 'z ksys_scheme) kres" where
  "alloc_fail x p s = bnd (freeproc x p s) (\<lambda>s. Inr (None, s))"

definition alloc_kpagetable :: "nat \<Rightarrow> 'z ksys_scheme \<Rightarrow> 'z ksys_scheme kres" where
  "alloc_kpagetable p s =
     bnd (on_um (kvmmake (etext s) (trampoline s)) s) (\<lambda>(kpt, s).
     let s = upd_proc p (\<lambda>q. q\<lparr>p_kpagetable := kpt\<rparr>) s in
     if kpt \<noteq> 0 then
       bnd (on_um kalloc s) (\<lambda>(pa, s).
       panic_if (pa = 0) ''allocproc: pa kalloc'' (
       on_um' (\<lambda>m. kvmmap kpt (p_kstack (prc s p)) pa PGSIZE (PTE_R OR PTE_W) (m\<lparr>mem := memset (mem m) pa 0 4096\<rparr>)) s))
     else Inr s)"

definition alloc_rest :: "kvm_ext \<Rightarrow> u64 \<Rightarrow> nat \<Rightarrow> 'z ksys_scheme \<Rightarrow> (nat option \<times> 'z ksys_scheme) kres" where
  "alloc_rest x fr p s =
     (if p_pagetable (prc s p) = 0 \<or> p_kpagetable (prc s p) = 0 then alloc_fail x p s
      else let s = upd_proc p (\<lambda>q. q\<lparr>p_context := \<lparr>ctx_ra = fr, ctx_sp = p_kstack q + PGSIZE, ctx_s = replicate 12 0\<rparr>,
             p_tracemask := 0, p_alarm_interval := 0, p_alarm_handler := 0, p_alarm_ticks := 0\<rparr>) s in
        bnd (on_um kalloc s) (\<lambda>(pg, s).
        let s = upd_proc p (\<lambda>q. q\<lparr>p_alarm_trapframe := pg, p_alarm_tf := junk_tf\<rparr>) s in
        if pg = 0 then alloc_fail x p s
        else Inr (Some p, upd_proc p (\<lambda>q. q\<lparr>p_alarm_active := False\<rparr>) s)))"

definition allocproc :: "kvm_ext \<Rightarrow> u64 \<Rightarrow> 'z ksys_scheme \<Rightarrow> (nat option \<times> 'z ksys_scheme) kres" where
  "allocproc x fr s =
     (case List.find (\<lambda>p. p_state (prc s p) = UNUSED) [0..<NPROC] of
        None \<Rightarrow> Inr (None, s)
      | Some p \<Rightarrow>
         let (pid, s) = allocpid s; s = upd_proc p (\<lambda>q. q\<lparr>p_pid := pid, p_state := USED\<rparr>) s in
         bnd (on_um kalloc s) (\<lambda>(tf, s).
         let s = upd_proc p (\<lambda>q. q\<lparr>p_trapframe := tf, p_tf := junk_tf\<rparr>) s in
         if tf = 0 then alloc_fail x p s
         else bnd (on_um (proc_pagetable (trampoline s) tf) s) (\<lambda>(pt, s).
           bnd (alloc_kpagetable p (upd_proc p (\<lambda>q. q\<lparr>p_pagetable := pt\<rparr>) s)) (alloc_rest x fr p))))"

text \<open>A null result of \<^verbatim>\<open>allocproc\<close> is dereferenced at once.\<close>

definition userinit :: "kvm_ext \<Rightarrow> u64 \<Rightarrow> 'z ksys_scheme \<Rightarrow> 'z ksys_scheme kres" where
  "userinit x fr s =
     bnd (allocproc x fr s) (\<lambda>(p, s).
     case p of None \<Rightarrow> Inl (Panic ''kerneltrap'')
     | Some p \<Rightarrow>
        bnd (namei 0 [47] (s\<lparr>initproc := Some p\<rparr>)) (\<lambda>(ip, s).
        let s = upd_proc p (\<lambda>q. q\<lparr>p_cwd := ip, p_state := RUNNABLE\<rparr>) s in
        on_um' (copy_proc_to_kernel (p_pagetable (prc s p)) (p_kpagetable (prc s p)) 0 (p_sz (prc s p))) s))"

definition growproc :: "int \<Rightarrow> 'z ksys_scheme \<Rightarrow> (int \<times> 'z ksys_scheme) kres" where
  "growproc n s =
     (let p = myproc s; sz = p_sz p;
          finish = (\<lambda>sz' s. bnd (on_um' (copy_proc_to_kernel (p_pagetable p) (p_kpagetable p) sz sz') s) (\<lambda>s.
            Inr (0, upd_proc (cur s) (\<lambda>q. q\<lparr>p_sz := sz'\<rparr>) s))) in
      if n > 0 then
        (if sz + of_int n > TRAPFRAME then Inr (-1, s)
         else bnd (on_um (uvmalloc (p_pagetable p) sz (sz + of_int n) PTE_W) s) (\<lambda>(sz', s).
           if sz' = 0 then Inr (-1, s) else finish sz' s))
      else if n < 0 then bnd (on_um (uvmdealloc (p_pagetable p) sz (sz + of_int n)) s) (\<lambda>(sz', s). finish sz' s)
      else finish sz s)"

subsection \<open>fork, exit and wait\<close>

primrec dup_files :: "nat \<Rightarrow> nat list \<Rightarrow> 'z ksys_scheme \<Rightarrow> 'z ksys_scheme kres" where
  "dup_files np [] s = Inr s"
| "dup_files np (i # is) s =
     (case p_ofile (myproc s) ! i of
        None \<Rightarrow> dup_files np is s
      | Some f \<Rightarrow> bnd (filedup f s) (\<lambda>s. dup_files np is (upd_proc np (\<lambda>q. q\<lparr>p_ofile := (p_ofile q)[i := Some f]\<rparr>) s)))"

definition opt_idup :: "nat option \<Rightarrow> 'z ksys_scheme \<Rightarrow> 'z ksys_scheme kres" where
  "opt_idup ip s = (case ip of None \<Rightarrow> Inl (Panic ''kerneltrap'') | Some ip \<Rightarrow> Inr (idup ip s))"

definition kfork :: "kvm_ext \<Rightarrow> u64 \<Rightarrow> 'z ksys_scheme \<Rightarrow> (int \<times> 'z ksys_scheme) kres" where
  "kfork x fr s =
     bnd (allocproc x fr s) (\<lambda>(np, s).
     case np of None \<Rightarrow> Inr (-1, s)
     | Some np \<Rightarrow>
        let p = myproc s in
        bnd (on_um (uvmcopy (p_pagetable p) (p_pagetable (prc s np)) (p_sz p)) s) (\<lambda>(r, s).
        if r < 0 then bnd (freeproc x np s) (\<lambda>s. Inr (-1, s))
        else
          let s = upd_proc np (\<lambda>q. q\<lparr>p_sz := p_sz p, p_tf := set_reg (reg_a 0) 0 (p_tf p)\<rparr>) s in
          bnd (dup_files np [0..<NOFILE] s) (\<lambda>s.
          bnd (opt_idup (p_cwd p) s) (\<lambda>s.
          let s = upd_proc np (\<lambda>q. q\<lparr>p_cwd := p_cwd p, p_name := take 15 (p_name p)\<rparr>) s;
              pid = p_pid (prc s np);
              s = upd_proc np (\<lambda>q. q\<lparr>p_parent := Some (cur s)\<rparr>) s;
              s = upd_proc np (\<lambda>q. q\<lparr>p_state := RUNNABLE\<rparr>) s in
          bnd (on_um' (copy_proc_to_kernel (p_pagetable (prc s np)) (p_kpagetable (prc s np)) 0 (p_sz (prc s np))) s) (\<lambda>s.
          Inr (pid, s))))))"

definition proc_chan :: "nat option \<Rightarrow> chan" where
  "proc_chan p = (case p of None \<Rightarrow> ChNone | Some p \<Rightarrow> ChProc p)"

primrec reparent_loop :: "nat \<Rightarrow> nat list \<Rightarrow> 'z ksys_scheme \<Rightarrow> 'z ksys_scheme" where
  "reparent_loop p [] s = s"
| "reparent_loop p (pp # pps) s =
     (if p_parent (prc s pp) = Some p
      then reparent_loop p pps (wakeup (proc_chan (initproc s)) (upd_proc pp (\<lambda>q. q\<lparr>p_parent := initproc s\<rparr>) s))
      else reparent_loop p pps s)"

definition reparent :: "nat \<Rightarrow> 'z ksys_scheme \<Rightarrow> 'z ksys_scheme" where
  "reparent p s = reparent_loop p [0..<NPROC] s"

primrec close_files :: "nat list \<Rightarrow> 'z ksys_scheme \<Rightarrow> 'z ksys_scheme kres" where
  "close_files [] s = Inr s"
| "close_files (fd # fds) s =
     (case p_ofile (myproc s) ! fd of
        None \<Rightarrow> close_files fds s
      | Some f \<Rightarrow> bnd (fileclose f s) (\<lambda>s. close_files fds (upd_proc (cur s) (\<lambda>q. q\<lparr>p_ofile := (p_ofile q)[fd := None]\<rparr>) s)))"

definition opt_iput :: "nat option \<Rightarrow> 'z ksys_scheme \<Rightarrow> 'z ksys_scheme kres" where
  "opt_iput ip s = (case ip of None \<Rightarrow> Inl (Panic ''kerneltrap'') | Some ip \<Rightarrow> iput ip s)"

text \<open>What \<^verbatim>\<open>kexit\<close> has done when it calls the scheduler for the last time.\<close>

definition kexit :: "int \<Rightarrow> 'z ksys_scheme \<Rightarrow> 'z ksys_scheme kres" where
  "kexit status s =
     panic_if (initproc s = Some (cur s)) ''init exiting'' (
     bnd (close_files [0..<NOFILE] s) (\<lambda>s.
     bnd (begin_op s) (\<lambda>s.
     bnd (opt_iput (p_cwd (myproc s)) s) (\<lambda>s.
     bnd (end_op s) (\<lambda>s.
     let s = upd_proc (cur s) (\<lambda>q. q\<lparr>p_cwd := None\<rparr>) s;
         s = reparent (cur s) s;
         s = wakeup (proc_chan (p_parent (myproc s))) s in
     Inr (upd_proc (cur s) (\<lambda>q. q\<lparr>p_xstate := status, p_state := ZOMBIE\<rparr>) s))))))"

text \<open>
  One scan of \<^verbatim>\<open>kwait\<close>: the first zombie child in the order of the table is freed. A process that finds
  children but no zombie goes to sleep on its own address.
\<close>

definition kwait :: "kvm_ext \<Rightarrow> u64 \<Rightarrow> 'z ksys_scheme \<Rightarrow> (int \<times> 'z ksys_scheme) kres" where
  "kwait x addr s =
     (case List.find (\<lambda>pp. p_parent (prc s pp) = Some (cur s) \<and> p_state (prc s pp) = ZOMBIE) [0..<NPROC] of
        Some pp \<Rightarrow>
          let pid = p_pid (prc s pp) in
          bnd (if addr \<noteq> 0 then copyout_bytes addr (le_bytes 4 (of_int (p_xstate (prc s pp)) :: u32)) s else Inr (0, s)) (\<lambda>(r, s).
          if r < 0 then Inr (-1, s)
          else bnd (freeproc x pp (upd_proc pp (\<lambda>q. q\<lparr>p_parent := None\<rparr>) s)) (\<lambda>s. Inr (pid, s)))
      | None \<Rightarrow>
          if (\<forall>pp\<in>set [0..<NPROC]. p_parent (prc s pp) \<noteq> Some (cur s)) \<or> p_killed (myproc s) then Inr (-1, s)
          else Inl (Sleeps ''wait''))"

subsection \<open>Scheduling\<close>

text \<open>
  \<^verbatim>\<open>sched\<close> on hart \<open>h\<close> with the lock \<open>lk\<close> of the process: its checks, and the CPU \<open>c'\<close> it returns on, whose
  \<^verbatim>\<open>intena\<close> it sets to that of its own thread.
\<close>

definition sched :: "nat \<Rightarrow> spinlock \<Rightarrow> proc \<Rightarrow> cpu \<Rightarrow> cpu \<Rightarrow> cpu kres" where
  "sched h lk p c c' =
     panic_if (\<not> holding lk h) ''sched p->lock'' (
     panic_if (noff c \<noteq> 1) ''sched locks'' (
     panic_if (p_state p = RUNNING) ''sched RUNNING'' (
     panic_if (sie c) ''sched interruptible'' (
     Inr (c'\<lparr>intena := intena c\<rparr>)))))"

definition sleep_proc :: "chan \<Rightarrow> proc \<Rightarrow> proc" where
  "sleep_proc c p = p\<lparr>p_chan := c, p_state := SLEEPING\<rparr>"

definition yield_proc :: "proc \<Rightarrow> proc" where
  "yield_proc p = p\<lparr>p_state := RUNNABLE\<rparr>"

definition kkill :: "int \<Rightarrow> 'z ksys_scheme \<Rightarrow> int \<times> 'z ksys_scheme" where
  "kkill pid s = (case List.find (\<lambda>p. p_pid (prc s p) = pid) [0..<NPROC] of
     None \<Rightarrow> (-1, s)
   | Some p \<Rightarrow> (0, upd_proc p (\<lambda>q. q\<lparr>p_killed := True, p_state := if p_state q = SLEEPING then RUNNABLE else p_state q\<rparr>) s))"

definition setkilled :: "nat \<Rightarrow> 'z ksys_scheme \<Rightarrow> 'z ksys_scheme" where
  "setkilled p s = upd_proc p (\<lambda>q. q\<lparr>p_killed := True\<rparr>) s"

definition killed :: "nat \<Rightarrow> 'z ksys_scheme \<Rightarrow> bool" where
  "killed p s = p_killed (prc s p)"

definition state_name :: "procstate \<Rightarrow> string" where
  "state_name st = (case st of UNUSED \<Rightarrow> ''unused'' | USED \<Rightarrow> ''used'' | SLEEPING \<Rightarrow> ''sleep '' | RUNNABLE \<Rightarrow> ''runble''
     | RUNNING \<Rightarrow> ''run   '' | ZOMBIE \<Rightarrow> ''zombie'')"

primrec procdump_loop :: "proc list \<Rightarrow> u8 list kres" where
  "procdump_loop [] = Inr []"
| "procdump_loop (p # ps) =
     (if p_state p = UNUSED then procdump_loop ps
      else bnd (printk (ascii ''%d %s %s'') [Num (of_int (p_pid p)), Str (Some (ascii (state_name (p_state p)))), Str (Some (p_name p))]) (\<lambda>o1.
        bnd (procdump_loop ps) (\<lambda>o2. Inr (o1 @ [10] @ o2))))"

definition procdump :: "'z ksys_scheme \<Rightarrow> u8 list kres" where
  "procdump s = bnd (procdump_loop (procs s)) (\<lambda>out. Inr ([10] @ out))"

definition nproc :: "'z ksys_scheme \<Rightarrow> int" where
  "nproc s = int (length (filter (\<lambda>p. p_state p \<noteq> UNUSED) (procs s)))"

end
