(* ===== verification/Sysfile.thy ===== *)
theory Sysfile
  imports Proc
begin

text \<open>
  System call arguments (\<^verbatim>\<open>kernel/syscall.c\<close>) and the file system calls (\<^verbatim>\<open>kernel/sysfile.c\<close>). A string
  argument is copied to the local variable at \<open>kbuf\<close> and is the list of its bytes.
\<close>

unbundle bit_operations_syntax

section \<open>Arguments\<close>

definition argraw :: "nat \<Rightarrow> 'z ksys_scheme \<Rightarrow> u64 kres" where
  "argraw n s = (if n \<le> 5 then Inr (regs (p_tf (myproc s)) ! reg_a n) else Inl (Panic ''argraw''))"

definition argint :: "nat \<Rightarrow> 'z ksys_scheme \<Rightarrow> int kres" where
  "argint n s = bnd (argraw n s) (\<lambda>v. Inr (sint (ucast v :: u32)))"

definition argaddr :: "nat \<Rightarrow> 'z ksys_scheme \<Rightarrow> u64 kres" where
  "argaddr n s = argraw n s"

definition fetchaddr :: "u64 \<Rightarrow> 'z ksys_scheme \<Rightarrow> (u64 option \<times> 'z ksys_scheme) kres" where
  "fetchaddr addr s =
     (let p = myproc s in
      if addr \<ge> p_sz p \<or> addr + 8 > p_sz p then Inr (None, s)
      else bnd (on_um (copyin (p_kpagetable p) (p_pagetable p) (kbuf s) addr 8) s) (\<lambda>(r, s).
        if r \<noteq> 0 then Inr (None, s) else Inr (Some (ld64 (mem (um s)) (kbuf s)), s)))"

definition cstring_at :: "memory \<Rightarrow> u64 \<Rightarrow> nat \<Rightarrow> u8 list" where
  "cstring_at m a n = takeWhile (\<lambda>c. c \<noteq> 0) (mem_read m a n)"

text \<open>The string at \<open>addr\<close>, copied to \<open>buf\<close>.\<close>

definition fetchstr :: "u64 \<Rightarrow> u64 \<Rightarrow> nat \<Rightarrow> 'z ksys_scheme \<Rightarrow> (u8 list option \<times> 'z ksys_scheme) kres" where
  "fetchstr addr buf mx s =
     bnd (on_um (copyinstr (p_pagetable (myproc s)) buf addr (of_nat mx)) s) (\<lambda>(r, s).
     if r < 0 then Inr (None, s) else Inr (Some (cstring_at (mem (um s)) buf mx), s))"

definition argstr :: "nat \<Rightarrow> nat \<Rightarrow> 'z ksys_scheme \<Rightarrow> (u8 list option \<times> 'z ksys_scheme) kres" where
  "argstr n mx s = bnd (argaddr n s) (\<lambda>addr. fetchstr addr (kbuf s) mx s)"

text \<open>The descriptor and the file of argument \<open>n\<close>.\<close>

definition argfd :: "nat \<Rightarrow> 'z ksys_scheme \<Rightarrow> (nat \<times> nat) option kres" where
  "argfd n s = bnd (argint n s) (\<lambda>fd.
     if fd < 0 \<or> fd \<ge> int NOFILE then Inr None
     else case p_ofile (myproc s) ! nat fd of None \<Rightarrow> Inr None | Some f \<Rightarrow> Inr (Some (nat fd, f)))"

definition fdalloc :: "nat \<Rightarrow> 'z ksys_scheme \<Rightarrow> int \<times> 'z ksys_scheme" where
  "fdalloc f s = (case List.find (\<lambda>fd. p_ofile (myproc s) ! fd = None) [0..<NOFILE] of
     None \<Rightarrow> (-1, s)
   | Some fd \<Rightarrow> (int fd, upd_proc (cur s) (\<lambda>q. q\<lparr>p_ofile := (p_ofile q)[fd := Some f]\<rparr>) s))"

definition clear_fd :: "nat \<Rightarrow> 'z ksys_scheme \<Rightarrow> 'z ksys_scheme" where
  "clear_fd fd s = upd_proc (cur s) (\<lambda>q. q\<lparr>p_ofile := (p_ofile q)[fd := None]\<rparr>) s"

section \<open>System calls on descriptors\<close>

definition sys_dup :: "'z ksys_scheme \<Rightarrow> (int \<times> 'z ksys_scheme) kres" where
  "sys_dup s = bnd (argfd 0 s) (\<lambda>fd. case fd of None \<Rightarrow> Inr (-1, s)
     | Some (_, f) \<Rightarrow>
        let (fd, s) = fdalloc f s in
        if fd < 0 then Inr (-1, s) else bnd (filedup f s) (\<lambda>s. Inr (fd, s)))"

definition sys_read :: "'z ksys_scheme \<Rightarrow> (outcome \<times> 'z ksys_scheme) kres" where
  "sys_read s = bnd (argaddr 1 s) (\<lambda>p. bnd (argint 2 s) (\<lambda>n. bnd (argfd 0 s) (\<lambda>fd.
     case fd of None \<Rightarrow> Inr (Done (-1), s) | Some (_, f) \<Rightarrow> fileread f p n s)))"

definition sys_write :: "'z ksys_scheme \<Rightarrow> (woutcome \<times> 'z ksys_scheme) kres" where
  "sys_write s = bnd (argaddr 1 s) (\<lambda>p. bnd (argint 2 s) (\<lambda>n. bnd (argfd 0 s) (\<lambda>fd.
     case fd of None \<Rightarrow> Inr (WDone (-1), s) | Some (_, f) \<Rightarrow> filewrite f p n s)))"

definition sys_close :: "'z ksys_scheme \<Rightarrow> (int \<times> 'z ksys_scheme) kres" where
  "sys_close s = bnd (argfd 0 s) (\<lambda>fd. case fd of None \<Rightarrow> Inr (-1, s)
     | Some (fd, f) \<Rightarrow> bnd (fileclose f (clear_fd fd s)) (\<lambda>s. Inr (0, s)))"

definition sys_fstat :: "'z ksys_scheme \<Rightarrow> (int \<times> 'z ksys_scheme) kres" where
  "sys_fstat s = bnd (argaddr 1 s) (\<lambda>st. bnd (argfd 0 s) (\<lambda>fd. case fd of None \<Rightarrow> Inr (-1, s) | Some (_, f) \<Rightarrow> filestat f st s))"

section \<open>System calls on paths\<close>

definition my_cwd :: "'z ksys_scheme \<Rightarrow> nat" where
  "my_cwd s = (case p_cwd (myproc s) of None \<Rightarrow> 0 | Some ip \<Rightarrow> ip)"

text \<open>Leaving a transaction with a result, after releasing an inode.\<close>

definition end_with :: "int \<Rightarrow> 'z ksys_scheme \<Rightarrow> (int \<times> 'z ksys_scheme) kres" where
  "end_with r s = bnd (end_op s) (\<lambda>s. Inr (r, s))"

definition put_end_with :: "nat \<Rightarrow> int \<Rightarrow> 'z ksys_scheme \<Rightarrow> (int \<times> 'z ksys_scheme) kres" where
  "put_end_with ip r s = bnd (iunlockput ip s) (end_with r)"

definition link_bad :: "nat \<Rightarrow> 'z ksys_scheme \<Rightarrow> (int \<times> 'z ksys_scheme) kres" where
  "link_bad ip s = bnd (ilock ip s) (\<lambda>s.
     bnd (iupdate ip (upd_inode ip (\<lambda>i. i\<lparr>i_nlink := i_nlink i - 1\<rparr>) s)) (put_end_with ip (-1)))"

definition link_new :: "nat \<Rightarrow> u8 list \<Rightarrow> 'z ksys_scheme \<Rightarrow> (int \<times> 'z ksys_scheme) kres" where
  "link_new ip new s =
     bnd (nameiparent (my_cwd s) new s) (\<lambda>(dp, name, s). case dp of None \<Rightarrow> link_bad ip s
     | Some dp \<Rightarrow>
        bnd (ilock dp s) (\<lambda>s.
        bnd (if i_dev (ino s dp) \<noteq> i_dev (ino s ip) then Inr (-1, s) else dirlink dp name (i_inum (ino s ip)) s) (\<lambda>(r, s).
        bnd (iunlockput dp s) (\<lambda>s.
        if r < 0 then link_bad ip s else bnd (iput ip s) (end_with 0)))))"

definition link_paths :: "u8 list \<Rightarrow> u8 list \<Rightarrow> 'z ksys_scheme \<Rightarrow> (int \<times> 'z ksys_scheme) kres" where
  "link_paths old new s =
     bnd (begin_op s) (\<lambda>s.
     bnd (namei (my_cwd s) old s) (\<lambda>(ip, s). case ip of None \<Rightarrow> end_with (-1) s
     | Some ip \<Rightarrow>
        bnd (ilock ip s) (\<lambda>s.
        if i_type (ino s ip) = T_DIR then put_end_with ip (-1) s
        else
          bnd (iupdate ip (upd_inode ip (\<lambda>i. i\<lparr>i_nlink := i_nlink i + 1\<rparr>) s)) (\<lambda>s.
          bnd (iunlock ip s) (link_new ip new)))))"

definition sys_link :: "'z ksys_scheme \<Rightarrow> (int \<times> 'z ksys_scheme) kres" where
  "sys_link s =
     bnd (argstr 0 MAXPATH s) (\<lambda>(old, s). case old of None \<Rightarrow> Inr (-1, s)
     | Some old \<Rightarrow> bnd (argstr 1 MAXPATH s) (\<lambda>(new, s). case new of None \<Rightarrow> Inr (-1, s) | Some new \<Rightarrow> link_paths old new s))"

primrec empty_loop :: "nat \<Rightarrow> u32 list \<Rightarrow> 'z fsys_scheme \<Rightarrow> (bool \<times> 'z fsys_scheme) kres" where
  "empty_loop dp [] s = Inr (True, s)"
| "empty_loop dp (off # offs) s =
     bnd (readi to_var dp 0 off (of_nat DIRENT) s (replicate DIRENT 0)) (\<lambda>(r, s, de).
     panic_if (r \<noteq> int DIRENT) ''isdirempty: readi'' (
     if get16 0 de \<noteq> 0 then Inr (False, s) else empty_loop dp offs s))"

definition isdirempty :: "nat \<Rightarrow> 'z fsys_scheme \<Rightarrow> (bool \<times> 'z fsys_scheme) kres" where
  "isdirempty dp s = empty_loop dp (drop 2 (dir_offsets (i_size (ino s dp)))) s"

definition unlink_entry :: "nat \<Rightarrow> nat \<Rightarrow> u32 \<Rightarrow> 'z ksys_scheme \<Rightarrow> (int \<times> 'z ksys_scheme) kres" where
  "unlink_entry dp ip off s =
     bnd (writei (from_var (replicate DIRENT 0)) dp 0 off (of_nat DIRENT) s) (\<lambda>(r, s).
     panic_if (r \<noteq> int DIRENT) ''unlink: writei'' (
     bnd (if i_type (ino s ip) = T_DIR then iupdate dp (upd_inode dp (\<lambda>i. i\<lparr>i_nlink := i_nlink i - 1\<rparr>) s) else Inr s) (\<lambda>s.
     bnd (iunlockput dp s) (\<lambda>s.
     bnd (iupdate ip (upd_inode ip (\<lambda>i. i\<lparr>i_nlink := i_nlink i - 1\<rparr>) s)) (put_end_with ip 0)))))"

definition unlink_path :: "u8 list \<Rightarrow> 'z ksys_scheme \<Rightarrow> (int \<times> 'z ksys_scheme) kres" where
  "unlink_path path s =
     bnd (begin_op s) (\<lambda>s.
     bnd (nameiparent (my_cwd s) path s) (\<lambda>(dp, name, s). case dp of None \<Rightarrow> end_with (-1) s
     | Some dp \<Rightarrow>
        bnd (ilock dp s) (\<lambda>s.
        if namecmp name [46] = 0 \<or> namecmp name [46, 46] = 0 then put_end_with dp (-1) s
        else bnd (dirlookup dp name s) (\<lambda>(found, s). case found of None \<Rightarrow> put_end_with dp (-1) s
        | Some (ip, off) \<Rightarrow>
           bnd (ilock ip s) (\<lambda>s.
           panic_if (sint (i_nlink (ino s ip)) < 1) ''unlink: nlink < 1'' (
           bnd (if i_type (ino s ip) = T_DIR then isdirempty ip s else Inr (True, s)) (\<lambda>(empty, s).
           if \<not> empty then bnd (iunlockput ip s) (put_end_with dp (-1))
           else unlink_entry dp ip off s)))))))"

definition sys_unlink :: "'z ksys_scheme \<Rightarrow> (int \<times> 'z ksys_scheme) kres" where
  "sys_unlink s = bnd (argstr 0 MAXPATH s) (\<lambda>(path, s). case path of None \<Rightarrow> Inr (-1, s) | Some path \<Rightarrow> unlink_path path s)"

text \<open>\<^verbatim>\<open>create\<close> returns a locked inode; \<open>create_fail\<close> is its label \<^verbatim>\<open>fail\<close>.\<close>

definition create_fail :: "nat \<Rightarrow> nat \<Rightarrow> 'z fsys_scheme \<Rightarrow> (nat option \<times> 'z fsys_scheme) kres" where
  "create_fail ip dp s =
     bnd (iupdate ip (upd_inode ip (\<lambda>i. i\<lparr>i_nlink := 0\<rparr>) s)) (\<lambda>s.
     bnd (iunlockput ip s) (\<lambda>s. bnd (iunlockput dp s) (\<lambda>s. Inr (None, s))))"

definition create_dots :: "nat \<Rightarrow> nat \<Rightarrow> 'z fsys_scheme \<Rightarrow> (bool \<times> 'z fsys_scheme) kres" where
  "create_dots ip dp s =
     bnd (dirlink ip [46] (i_inum (ino s ip)) s) (\<lambda>(r, s).
     if r < 0 then Inr (False, s)
     else bnd (dirlink ip [46, 46] (i_inum (ino s dp)) s) (\<lambda>(r, s). Inr (\<not> r < 0, s)))"

definition create_new :: "nat \<Rightarrow> nat \<Rightarrow> u8 list \<Rightarrow> u16 \<Rightarrow> u16 \<Rightarrow> u16 \<Rightarrow> 'z fsys_scheme \<Rightarrow> (nat option \<times> 'z fsys_scheme) kres" where
  "create_new ip dp name ty major minor s =
     bnd (ilock ip s) (\<lambda>s.
     bnd (iupdate ip (upd_inode ip (\<lambda>i. i\<lparr>i_major := major, i_minor := minor, i_nlink := 1\<rparr>) s)) (\<lambda>s.
     bnd (if ty = T_DIR then create_dots ip dp s else Inr (True, s)) (\<lambda>(ok, s).
     if \<not> ok then create_fail ip dp s
     else bnd (dirlink dp name (i_inum (ino s ip)) s) (\<lambda>(r, s).
       if r < 0 then create_fail ip dp s
       else bnd (if ty = T_DIR then iupdate dp (upd_inode dp (\<lambda>i. i\<lparr>i_nlink := i_nlink i + 1\<rparr>) s) else Inr s) (\<lambda>s.
         bnd (iunlockput dp s) (\<lambda>s. Inr (Some ip, s)))))))"

definition create :: "nat \<Rightarrow> u8 list \<Rightarrow> u16 \<Rightarrow> u16 \<Rightarrow> u16 \<Rightarrow> 'z fsys_scheme \<Rightarrow> (nat option \<times> 'z fsys_scheme) kres" where
  "create cwd path ty major minor s =
     bnd (nameiparent cwd path s) (\<lambda>(dp, name, s). case dp of None \<Rightarrow> Inr (None, s)
     | Some dp \<Rightarrow>
        bnd (ilock dp s) (\<lambda>s.
        bnd (dirlookup dp name s) (\<lambda>(found, s). case found of
          Some (ip, _) \<Rightarrow>
            bnd (iunlockput dp s) (\<lambda>s. bnd (ilock ip s) (\<lambda>s.
            if ty = T_FILE \<and> (i_type (ino s ip) = T_FILE \<or> i_type (ino s ip) = T_DEVICE) then Inr (Some ip, s)
            else bnd (iunlockput ip s) (\<lambda>s. Inr (None, s))))
        | None \<Rightarrow>
            bnd (ialloc ty s) (\<lambda>(ip, s). case ip of
              None \<Rightarrow> bnd (iunlockput dp s) (\<lambda>s. Inr (None, s))
            | Some ip \<Rightarrow> create_new ip dp name ty major minor s))))"

definition O_WRONLY :: u32 where
  "O_WRONLY = 1"

definition O_RDWR :: u32 where
  "O_RDWR = 2"

definition O_CREATE :: u32 where
  "O_CREATE = 0x200"

definition O_TRUNC :: u32 where
  "O_TRUNC = 0x400"

text \<open>The end of \<^verbatim>\<open>sys_open\<close>, with the locked inode \<open>ip\<close>.\<close>

definition open_file :: "u32 \<Rightarrow> inode \<Rightarrow> nat \<Rightarrow> kfile \<Rightarrow> kfile" where
  "open_file omode i ip f =
     (if i_type i = T_DEVICE then f\<lparr>f_type := FD_DEVICE, f_major := i_major i\<rparr> else f\<lparr>f_type := FD_INODE, f_off := 0\<rparr>)
     \<lparr>f_ip := ip, f_readable := omode AND O_WRONLY = 0, f_writable := omode AND O_WRONLY \<noteq> 0 \<or> omode AND O_RDWR \<noteq> 0\<rparr>"

definition open_inode :: "u32 \<Rightarrow> nat \<Rightarrow> 'z ksys_scheme \<Rightarrow> (int \<times> 'z ksys_scheme) kres" where
  "open_inode omode ip s =
     (if i_type (ino s ip) = T_DEVICE \<and> (sint (i_major (ino s ip)) < 0 \<or> sint (i_major (ino s ip)) \<ge> int NDEV) then put_end_with ip (-1) s
      else case filealloc s of
        (None, s) \<Rightarrow> put_end_with ip (-1) s
      | (Some f, s) \<Rightarrow>
         let (fd, s) = fdalloc f s in
         if fd < 0 then bnd (fileclose f s) (put_end_with ip (-1))
         else
           let s = upd_file f (open_file omode (ino s ip) ip) s in
           bnd (if omode AND O_TRUNC \<noteq> 0 \<and> i_type (ino s ip) = T_FILE then itrunc ip s else Inr s) (\<lambda>s.
           bnd (iunlock ip s) (end_with fd)))"

definition open_path :: "u8 list \<Rightarrow> u32 \<Rightarrow> 'z ksys_scheme \<Rightarrow> (int \<times> 'z ksys_scheme) kres" where
  "open_path path omode s =
     bnd (begin_op s) (\<lambda>s.
     if omode AND O_CREATE \<noteq> 0 then
       bnd (create (my_cwd s) path T_FILE 0 0 s) (\<lambda>(ip, s). case ip of None \<Rightarrow> end_with (-1) s | Some ip \<Rightarrow> open_inode omode ip s)
     else
       bnd (namei (my_cwd s) path s) (\<lambda>(ip, s). case ip of None \<Rightarrow> end_with (-1) s
       | Some ip \<Rightarrow>
          bnd (ilock ip s) (\<lambda>s.
          if i_type (ino s ip) = T_DIR \<and> omode \<noteq> 0 then put_end_with ip (-1) s else open_inode omode ip s)))"

definition sys_open :: "'z ksys_scheme \<Rightarrow> (int \<times> 'z ksys_scheme) kres" where
  "sys_open s = bnd (argint 1 s) (\<lambda>omode. bnd (argstr 0 MAXPATH s) (\<lambda>(path, s). case path of None \<Rightarrow> Inr (-1, s)
     | Some path \<Rightarrow> open_path path (of_int omode) s))"

definition make_node :: "u16 \<Rightarrow> u16 \<Rightarrow> u16 \<Rightarrow> 'z ksys_scheme \<Rightarrow> (int \<times> 'z ksys_scheme) kres" where
  "make_node ty major minor s =
     bnd (argstr 0 MAXPATH s) (\<lambda>(path, s). case path of None \<Rightarrow> end_with (-1) s
     | Some path \<Rightarrow>
        bnd (create (my_cwd s) path ty major minor s) (\<lambda>(ip, s). case ip of None \<Rightarrow> end_with (-1) s | Some ip \<Rightarrow> put_end_with ip 0 s))"

definition sys_mkdir :: "'z ksys_scheme \<Rightarrow> (int \<times> 'z ksys_scheme) kres" where
  "sys_mkdir s = bnd (begin_op s) (make_node T_DIR 0 0)"

definition sys_mknod :: "'z ksys_scheme \<Rightarrow> (int \<times> 'z ksys_scheme) kres" where
  "sys_mknod s = bnd (begin_op s) (\<lambda>s. bnd (argint 1 s) (\<lambda>major. bnd (argint 2 s) (\<lambda>minor. make_node T_DEVICE (of_int major) (of_int minor) s)))"

definition sys_chdir :: "'z ksys_scheme \<Rightarrow> (int \<times> 'z ksys_scheme) kres" where
  "sys_chdir s =
     bnd (begin_op s) (\<lambda>s.
     bnd (argstr 0 MAXPATH s) (\<lambda>(path, s). case path of None \<Rightarrow> end_with (-1) s
     | Some path \<Rightarrow>
        bnd (namei (my_cwd s) path s) (\<lambda>(ip, s). case ip of None \<Rightarrow> end_with (-1) s
        | Some ip \<Rightarrow>
           bnd (ilock ip s) (\<lambda>s.
           if i_type (ino s ip) \<noteq> T_DIR then put_end_with ip (-1) s
           else bnd (iunlock ip s) (\<lambda>s. bnd (opt_iput (p_cwd (myproc s)) s) (\<lambda>s. bnd (end_op s) (\<lambda>s.
             Inr (0, upd_proc (cur s) (\<lambda>q. q\<lparr>p_cwd := Some ip\<rparr>) s))))))))"

definition pipe_undo :: "int \<Rightarrow> int \<Rightarrow> nat \<Rightarrow> nat \<Rightarrow> 'z ksys_scheme \<Rightarrow> (int \<times> 'z ksys_scheme) kres" where
  "pipe_undo fd0 fd1 rfl wfl s =
     (let s = (if fd0 \<ge> 0 then clear_fd (nat fd0) s else s); s = (if fd1 \<ge> 0 then clear_fd (nat fd1) s else s) in
      bnd (fileclose rfl s) (\<lambda>s. bnd (fileclose wfl s) (\<lambda>s. Inr (-1, s))))"

definition sys_pipe :: "'z ksys_scheme \<Rightarrow> (int \<times> 'z ksys_scheme) kres" where
  "sys_pipe s =
     bnd (argaddr 0 s) (\<lambda>fdarray.
     bnd (pipealloc s) (\<lambda>(fs, s). case fs of None \<Rightarrow> Inr (-1, s)
     | Some (rfl, wfl) \<Rightarrow>
        let (fd0, s) = fdalloc rfl s in
        if fd0 < 0 then pipe_undo (-1) (-1) rfl wfl s
        else let (fd1, s) = fdalloc wfl s in
          if fd1 < 0 then pipe_undo fd0 (-1) rfl wfl s
          else bnd (copyout_bytes fdarray (le_bytes 4 (of_int fd0 :: u32)) s) (\<lambda>(r, s).
            if r < 0 then pipe_undo fd0 fd1 rfl wfl s
            else bnd (copyout_bytes (fdarray + 4) (le_bytes 4 (of_int fd1 :: u32)) s) (\<lambda>(r, s).
              if r < 0 then pipe_undo fd0 fd1 rfl wfl s else Inr (0, s)))))"

end
