(* ===== verification/Exec.thy ===== *)
theory Exec
  imports Sysfile
begin

text \<open>
  Loading a program (\<^verbatim>\<open>kernel/exec.c\<close>) and the system call around it. The headers are read into local
  variables, the segments straight into the pages of the new address space.
\<close>

unbundle bit_operations_syntax

section \<open>Operations\<close>

definition get64 :: "nat \<Rightarrow> u8 list \<Rightarrow> u64" where
  "get64 off d = le_word (get_at off 8 d)"

definition ELF_MAGIC :: u32 where
  "ELF_MAGIC = 0x464C457F"

definition ELFHDR :: nat where
  "ELFHDR = 64"

definition PROGHDR :: nat where
  "PROGHDR = 56"

definition USERSTACK :: u64 where
  "USERSTACK = 1"

record proghdr =
  ph_type :: u32
  ph_flags :: u32
  ph_off :: u64
  ph_vaddr :: u64
  ph_filesz :: u64
  ph_memsz :: u64

definition proghdr_of :: "u8 list \<Rightarrow> proghdr" where
  "proghdr_of d = \<lparr>ph_type = get32 0 d, ph_flags = get32 4 d, ph_off = get64 8 d, ph_vaddr = get64 16 d,
     ph_filesz = get64 32 d, ph_memsz = get64 40 d\<rparr>"

definition flags2perm :: "u32 \<Rightarrow> u64" where
  "flags2perm flags = (if flags AND 1 \<noteq> 0 then PTE_X else 0) OR (if flags AND 2 \<noteq> 0 then PTE_W else 0)"

text \<open>Reading a structure of \<open>n\<close> bytes from an inode into a local variable.\<close>

definition read_struct :: "nat \<Rightarrow> u32 \<Rightarrow> nat \<Rightarrow> 'z fsys_scheme \<Rightarrow> (u8 list option \<times> 'z fsys_scheme) kres" where
  "read_struct ip off n s =
     bnd (readi to_var ip 0 off (of_nat n) s (replicate n 0)) (\<lambda>(r, s, v). Inr (if r \<noteq> int n then None else Some v, s))"

definition to_phys :: "kmem copier" where
  "to_phys dst bs m = Inr (0, m\<lparr>mem := mem_write (mem m) dst bs\<rparr>)"

text \<open>
  The pages of a segment. A segment longer than the file ends the loop with -1 long before the counter
  could wrap.
\<close>

primrec loadseg_loop :: "u64 \<Rightarrow> u64 \<Rightarrow> nat \<Rightarrow> u32 \<Rightarrow> u32 \<Rightarrow> u32 list \<Rightarrow> 'z ksys_scheme \<Rightarrow> (int \<times> 'z ksys_scheme) kres" where
  "loadseg_loop pagetable va ip offset sz [] s = Inr (0, s)"
| "loadseg_loop pagetable va ip offset sz (i # is) s =
     bnd (walkaddr pagetable (va + ucast i) (um s)) (\<lambda>pa.
     panic_if (pa = 0) ''loadseg: address should exist'' (
     let n = (if sz - i < 4096 then sz - i else 4096) in
     bnd (readi to_phys ip pa (offset + i) n s (um s)) (\<lambda>(r, s, m).
     let s = s\<lparr>um := m\<rparr> in
     if r \<noteq> int (unat n) then Inr (-1, s) else loadseg_loop pagetable va ip offset sz is s)))"

definition loadseg :: "u64 \<Rightarrow> u64 \<Rightarrow> nat \<Rightarrow> u32 \<Rightarrow> u32 \<Rightarrow> 'z ksys_scheme \<Rightarrow> (int \<times> 'z ksys_scheme) kres" where
  "loadseg pagetable va ip offset sz s =
     loadseg_loop pagetable va ip offset sz (map (\<lambda>k. of_nat (4096 * k)) [0..<(unat sz + 4095) div 4096]) s"

text \<open>The program headers: whether all went well, and the size of the image so far.\<close>

primrec load_headers :: "nat \<Rightarrow> u64 \<Rightarrow> u32 \<Rightarrow> nat \<Rightarrow> u64 \<Rightarrow> 'z ksys_scheme \<Rightarrow> (bool \<times> u64 \<times> 'z ksys_scheme) kres" where
  "load_headers ip pagetable off 0 sz s = Inr (True, sz, s)"
| "load_headers ip pagetable off (Suc n) sz s =
     bnd (read_struct ip off PROGHDR s) (\<lambda>(d, s). case d of None \<Rightarrow> Inr (False, sz, s)
     | Some d \<Rightarrow>
        let ph = proghdr_of d; next = load_headers ip pagetable (off + of_nat PROGHDR) n in
        if ph_type ph \<noteq> 1 then next sz s
        else if ph_memsz ph < ph_filesz ph \<or> ph_vaddr ph + ph_memsz ph < ph_vaddr ph \<or> ph_vaddr ph mod PGSIZE \<noteq> 0 then Inr (False, sz, s)
        else bnd (on_um (uvmalloc pagetable sz (ph_vaddr ph + ph_memsz ph) (flags2perm (ph_flags ph))) s) (\<lambda>(sz1, s).
          if sz1 = 0 then Inr (False, sz, s)
          else bnd (loadseg pagetable (ph_vaddr ph) ip (ucast (ph_off ph)) (ucast (ph_filesz ph)) s) (\<lambda>(r, s).
            if r < 0 then Inr (False, sz1, s) else next sz1 s)))"

definition copyout_to :: "u64 \<Rightarrow> u64 \<Rightarrow> u8 list \<Rightarrow> 'z ksys_scheme \<Rightarrow> (int \<times> 'z ksys_scheme) kres" where
  "copyout_to pt dst bs s =
     (let p = myproc s in
      on_um (\<lambda>m. copyout (p_sz p) (p_pagetable p) pt dst (kbuf s) (of_nat (length bs)) (m\<lparr>mem := mem_write (mem m) (kbuf s) bs\<rparr>)) s)"

definition align16 :: "u64 \<Rightarrow> u64" where
  "align16 sp = sp - sp mod 16"

text \<open>The argument strings, last first on the stack; the result has their addresses in order.\<close>

primrec push_args :: "u64 \<Rightarrow> u64 \<Rightarrow> u8 list list \<Rightarrow> nat \<Rightarrow> u64 \<Rightarrow> u64 list \<Rightarrow> 'z ksys_scheme \<Rightarrow> ((u64 \<times> u64 list) option \<times> 'z ksys_scheme) kres" where
  "push_args pt stackbase [] argc sp ustack s = Inr (Some (sp, ustack), s)"
| "push_args pt stackbase (a # as) argc sp ustack s =
     (if argc \<ge> MAXARG then Inr (None, s)
      else let sp = align16 (sp - of_nat (length a + 1)) in
        if sp < stackbase then Inr (None, s)
        else bnd (copyout_to pt sp (a @ [0]) s) (\<lambda>(r, s).
          if r < 0 then Inr (None, s) else push_args pt stackbase as (argc + 1) sp (ustack @ [sp]) s))"

definition push_argv :: "u64 \<Rightarrow> u64 \<Rightarrow> u64 \<Rightarrow> u64 list \<Rightarrow> 'z ksys_scheme \<Rightarrow> (u64 option \<times> 'z ksys_scheme) kres" where
  "push_argv pt stackbase sp ustack s =
     (let sp = align16 (sp - of_nat (8 * (length ustack + 1))) in
      if sp < stackbase then Inr (None, s)
      else bnd (copyout_to pt sp (concat (map (le_bytes 8) (ustack @ [0]))) s) (\<lambda>(r, s). Inr (if r < 0 then None else Some sp, s)))"

definition last_elem :: "u8 list \<Rightarrow> u8 list" where
  "last_elem path = rev (takeWhile (\<lambda>c. c \<noteq> 47) (rev path))"

definition exec_bad :: "u64 \<Rightarrow> u64 \<Rightarrow> nat option \<Rightarrow> 'z ksys_scheme \<Rightarrow> (int \<times> 'z ksys_scheme) kres" where
  "exec_bad pt sz ip s =
     bnd (if pt \<noteq> 0 then on_um' (proc_freepagetable pt sz) s else Inr s) (\<lambda>s.
     case ip of None \<Rightarrow> Inr (-1, s) | Some ip \<Rightarrow> put_end_with ip (-1) s)"

definition exec_commit :: "u8 list \<Rightarrow> u64 \<Rightarrow> u64 \<Rightarrow> u64 \<Rightarrow> u64 \<Rightarrow> nat \<Rightarrow> 'z ksys_scheme \<Rightarrow> (int \<times> 'z ksys_scheme) kres" where
  "exec_commit path entry pt sz sp argc s =
     (let old = myproc s;
          s = upd_proc (cur s) (\<lambda>q. q\<lparr>p_name := take 15 (last_elem path), p_pagetable := pt, p_sz := sz,
                p_tf := (set_reg reg_sp sp (set_reg (reg_a 1) sp (p_tf q)))\<lparr>epc := entry\<rparr>\<rparr>) s in
      bnd (on_um' (proc_freepagetable (p_pagetable old) (p_sz old)) s) (\<lambda>s.
      bnd (on_um' (copy_proc_to_kernel pt (p_kpagetable old) 0 sz) s) (\<lambda>s. Inr (int argc, s))))"

definition exec_stack :: "u8 list \<Rightarrow> u64 \<Rightarrow> u8 list list \<Rightarrow> u64 \<Rightarrow> u64 \<Rightarrow> 'z ksys_scheme \<Rightarrow> (int \<times> 'z ksys_scheme) kres" where
  "exec_stack path entry argv pt sz s =
     (let sz = PGROUNDUP sz in
      bnd (on_um (uvmalloc pt sz (sz + (USERSTACK + 1) * PGSIZE) PTE_W) s) (\<lambda>(sz1, s).
      if sz1 = 0 then exec_bad pt sz None s
      else bnd (on_um' (uvmclear pt (sz1 - (USERSTACK + 1) * PGSIZE)) s) (\<lambda>s.
        let stackbase = sz1 - USERSTACK * PGSIZE in
        bnd (push_args pt stackbase argv 0 sz1 [] s) (\<lambda>(a, s). case a of None \<Rightarrow> exec_bad pt sz1 None s
        | Some (sp, ustack) \<Rightarrow>
           bnd (push_argv pt stackbase sp ustack s) (\<lambda>(sp, s). case sp of None \<Rightarrow> exec_bad pt sz1 None s
           | Some sp \<Rightarrow> exec_commit path entry pt sz1 sp (length ustack) s)))))"

definition kexec :: "u8 list \<Rightarrow> u8 list list \<Rightarrow> 'z ksys_scheme \<Rightarrow> (int \<times> 'z ksys_scheme) kres" where
  "kexec path argv s =
     bnd (begin_op s) (\<lambda>s.
     bnd (namei (my_cwd s) path s) (\<lambda>(ip, s). case ip of None \<Rightarrow> end_with (-1) s
     | Some ip \<Rightarrow>
        bnd (ilock ip s) (\<lambda>s.
        bnd (read_struct ip 0 ELFHDR s) (\<lambda>(elf, s). case elf of None \<Rightarrow> exec_bad 0 0 (Some ip) s
        | Some elf \<Rightarrow>
           if get32 0 elf \<noteq> ELF_MAGIC then exec_bad 0 0 (Some ip) s
           else bnd (on_um (proc_pagetable (trampoline s) (p_trapframe (myproc s))) s) (\<lambda>(pt, s).
             if pt = 0 then exec_bad 0 0 (Some ip) s
             else bnd (load_headers ip pt (ucast (get64 32 elf)) (unat (get16 56 elf)) 0 s) (\<lambda>(ok, sz, s).
               if \<not> ok then exec_bad pt sz (Some ip) s
               else bnd (iunlockput ip s) (\<lambda>s. bnd (end_op s) (exec_stack path (get64 24 elf) argv pt sz)))))))) "

section \<open>The system call\<close>

primrec kfree_all :: "u64 list \<Rightarrow> kmem \<Rightarrow> kmem kres" where
  "kfree_all [] m = Inr m"
| "kfree_all (p # ps) m = bnd (kfree p m) (kfree_all ps)"

text \<open>The strings of the user's \<^verbatim>\<open>argv\<close>, each in a page of its own, from entry \<open>i\<close> on; \<open>n\<close> entries are left.\<close>

primrec fetch_args :: "nat \<Rightarrow> u64 \<Rightarrow> u64 list \<Rightarrow> u8 list list \<Rightarrow> 'z ksys_scheme \<Rightarrow> (u8 list list option \<times> u64 list \<times> 'z ksys_scheme) kres" where
  "fetch_args 0 uargv pages args s = Inr (None, pages, s)"
| "fetch_args (Suc n) uargv pages args s =
     bnd (fetchaddr uargv s) (\<lambda>(uarg, s). case uarg of None \<Rightarrow> Inr (None, pages, s)
     | Some uarg \<Rightarrow>
        if uarg = 0 then Inr (Some args, pages, s)
        else bnd (on_um kalloc s) (\<lambda>(pg, s).
          if pg = 0 then Inr (None, pages, s)
          else bnd (fetchstr uarg pg 4096 s) (\<lambda>(a, s). case a of None \<Rightarrow> Inr (None, pages @ [pg], s)
            | Some a \<Rightarrow> fetch_args n (uargv + 8) (pages @ [pg]) (args @ [a]) s)))"

definition sys_exec :: "'z ksys_scheme \<Rightarrow> (int \<times> 'z ksys_scheme) kres" where
  "sys_exec s =
     bnd (argaddr 1 s) (\<lambda>uargv.
     bnd (argstr 0 MAXPATH s) (\<lambda>(path, s). case path of None \<Rightarrow> Inr (-1, s)
     | Some path \<Rightarrow>
        bnd (fetch_args MAXARG uargv [] [] s) (\<lambda>(args, pages, s).
        bnd (case args of None \<Rightarrow> Inr (-1, s) | Some args \<Rightarrow> kexec path args s) (\<lambda>(r, s).
        bnd (on_um' (kfree_all pages) s) (\<lambda>s. Inr (r, s))))))"

end
