(* ===== verification/Syscall.thy ===== *)
theory Syscall
  imports Exec
begin

text \<open>
  The remaining system calls (\<^verbatim>\<open>kernel/sysproc.c\<close>, the alarm calls at the end of \<^verbatim>\<open>kernel/proc.c\<close>), their
  dispatch (\<^verbatim>\<open>kernel/syscall.c\<close>) and traps (\<^verbatim>\<open>kernel/trap.c\<close>). \<^verbatim>\<open>sys_sysinfo\<close> is declared but not defined in
  the kernel and is a parameter. What the CPU registers hold is an argument.
\<close>

unbundle bit_operations_syntax

section \<open>System calls on processes\<close>

datatype sysret = Ret u64 | Waits | Exits

definition int_ret :: "(int \<times> 'z ksys_scheme) kres \<Rightarrow> (sysret \<times> 'z ksys_scheme) kres" where
  "int_ret m = bnd m (\<lambda>(r, s). Inr (Ret (of_int r), s))"

definition sys_exit :: "'z ksys_scheme \<Rightarrow> (sysret \<times> 'z ksys_scheme) kres" where
  "sys_exit s = bnd (argint 0 s) (\<lambda>n. bnd (kexit n s) (\<lambda>s. Inr (Exits, s)))"

definition sys_getpid :: "'z ksys_scheme \<Rightarrow> (int \<times> 'z ksys_scheme) kres" where
  "sys_getpid s = Inr (p_pid (myproc s), s)"

definition sys_fork :: "kvm_ext \<Rightarrow> u64 \<Rightarrow> 'z ksys_scheme \<Rightarrow> (int \<times> 'z ksys_scheme) kres" where
  "sys_fork x fr s = kfork x fr s"

definition sys_wait :: "kvm_ext \<Rightarrow> 'z ksys_scheme \<Rightarrow> (int \<times> 'z ksys_scheme) kres" where
  "sys_wait x s = bnd (argaddr 0 s) (\<lambda>p. kwait x p s)"

definition SBRK_EAGER :: int where
  "SBRK_EAGER = 1"

definition sys_sbrk :: "'z ksys_scheme \<Rightarrow> (sysret \<times> 'z ksys_scheme) kres" where
  "sys_sbrk s = bnd (argint 0 s) (\<lambda>n. bnd (argint 1 s) (\<lambda>t.
     let addr = p_sz (myproc s) in
     if t = SBRK_EAGER \<or> n < 0 then
       bnd (growproc n s) (\<lambda>(r, s). Inr (if r < 0 then Ret (-1) else Ret addr, s))
     else if addr + of_int n < addr \<or> addr + of_int n > TRAPFRAME then Inr (Ret (-1), s)
     else Inr (Ret addr, upd_proc (cur s) (\<lambda>q. q\<lparr>p_sz := p_sz q + of_int n\<rparr>) s)))"

text \<open>\<open>pause_wait\<close> is the loop of \<^verbatim>\<open>sys_pause\<close> at any later time.\<close>

definition pause_wait :: "u32 \<Rightarrow> int \<Rightarrow> 'z ksys_scheme \<Rightarrow> (int \<times> 'z ksys_scheme) kres" where
  "pause_wait ticks0 n s =
     (if kticks s - ticks0 < of_int n then (if p_killed (myproc s) then Inr (-1, s) else Inl (Sleeps ''ticks''))
      else Inr (0, s))"

definition sys_pause :: "'z ksys_scheme \<Rightarrow> (int \<times> 'z ksys_scheme) kres" where
  "sys_pause s = bnd (argint 0 s) (\<lambda>n. pause_wait (kticks s) (if n < 0 then 0 else n) s)"

definition sys_kill :: "'z ksys_scheme \<Rightarrow> (int \<times> 'z ksys_scheme) kres" where
  "sys_kill s = bnd (argint 0 s) (\<lambda>pid. Inr (kkill pid s))"

definition sys_uptime :: "'z ksys_scheme \<Rightarrow> (int \<times> 'z ksys_scheme) kres" where
  "sys_uptime s = Inr (uint (kticks s), s)"

definition sys_trace :: "'z ksys_scheme \<Rightarrow> (int \<times> 'z ksys_scheme) kres" where
  "sys_trace s = bnd (argint 0 s) (\<lambda>m. Inr (0, upd_proc (cur s) (\<lambda>q. q\<lparr>p_tracemask := of_int m\<rparr>) s))"

definition sys_sigalarm :: "'z ksys_scheme \<Rightarrow> (int \<times> 'z ksys_scheme) kres" where
  "sys_sigalarm s = bnd (argint 0 s) (\<lambda>interval. bnd (argaddr 1 s) (\<lambda>handler.
     Inr (0, upd_proc (cur s) (\<lambda>q. q\<lparr>p_alarm_interval := interval, p_alarm_handler := handler, p_alarm_ticks := 0\<rparr>) s)))"

definition sys_sigreturn :: "'z ksys_scheme \<Rightarrow> (int \<times> 'z ksys_scheme) kres" where
  "sys_sigreturn s = Inr (0, upd_proc (cur s) (\<lambda>q. q\<lparr>p_tf := p_alarm_tf q, p_alarm_active := False\<rparr>) s)"

section \<open>Dispatch\<close>

definition read_ret :: "(outcome \<times> 'z ksys_scheme) kres \<Rightarrow> (sysret \<times> 'z ksys_scheme) kres" where
  "read_ret m = bnd m (\<lambda>(r, s). Inr (case r of Done k \<Rightarrow> Ret (of_int k) | Blocked _ \<Rightarrow> Waits, s))"

definition write_ret :: "(woutcome \<times> 'z ksys_scheme) kres \<Rightarrow> (sysret \<times> 'z ksys_scheme) kres" where
  "write_ret m = bnd m (\<lambda>(r, s). Inr (case r of WDone k \<Rightarrow> Ret (of_int k) | _ \<Rightarrow> Waits, s))"

record sys_ext = kvm_ext +
  forkret_addr :: u64
  x_sysinfo :: "ksys \<Rightarrow> (int \<times> ksys) kres"

definition syscalls :: "sys_ext \<Rightarrow> int \<Rightarrow> (ksys \<Rightarrow> (sysret \<times> ksys) kres) option" where
  "syscalls x num =
     (let k = kvm_ext.truncate x in
      if num = 1 then Some (\<lambda>s. int_ret (sys_fork k (forkret_addr x) s))
      else if num = 2 then Some sys_exit
      else if num = 3 then Some (\<lambda>s. int_ret (sys_wait k s))
      else if num = 4 then Some (\<lambda>s. int_ret (sys_pipe s))
      else if num = 5 then Some (\<lambda>s. read_ret (sys_read s))
      else if num = 6 then Some (\<lambda>s. int_ret (sys_kill s))
      else if num = 7 then Some (\<lambda>s. int_ret (sys_exec s))
      else if num = 8 then Some (\<lambda>s. int_ret (sys_fstat s))
      else if num = 9 then Some (\<lambda>s. int_ret (sys_chdir s))
      else if num = 10 then Some (\<lambda>s. int_ret (sys_dup s))
      else if num = 11 then Some (\<lambda>s. int_ret (sys_getpid s))
      else if num = 12 then Some sys_sbrk
      else if num = 14 then Some (\<lambda>s. int_ret (sys_uptime s))
      else if num = 15 then Some (\<lambda>s. int_ret (sys_open s))
      else if num = 16 then Some (\<lambda>s. write_ret (sys_write s))
      else if num = 17 then Some (\<lambda>s. int_ret (sys_mknod s))
      else if num = 18 then Some (\<lambda>s. int_ret (sys_unlink s))
      else if num = 19 then Some (\<lambda>s. int_ret (sys_link s))
      else if num = 20 then Some (\<lambda>s. int_ret (sys_mkdir s))
      else if num = 21 then Some (\<lambda>s. int_ret (sys_close s))
      else if num = 22 then Some (\<lambda>s. int_ret (sys_pause s))
      else if num = 23 then Some (\<lambda>s. int_ret (bnd (sys_sync s) (\<lambda>s. Inr (0, s))))
      else if num = 24 then Some (\<lambda>s. int_ret (sys_trace s))
      else if num = 25 then Some (\<lambda>s. int_ret (x_sysinfo x s))
      else if num = 26 then Some (\<lambda>s. int_ret (sys_sigalarm s))
      else if num = 27 then Some (\<lambda>s. int_ret (sys_sigreturn s))
      else None)"

definition syscall_names :: "string list" where
  "syscall_names = ['''', ''fork'', ''exit'', ''wait'', ''pipe'', ''read'', ''kill'', ''exec'', ''fstat'', ''chdir'', ''dup'', ''getpid'',
     ''sbrk'', '''', ''uptime'', ''open'', ''write'', ''mknod'', ''unlink'', ''link'', ''mkdir'', ''close'', ''pause'', ''sync'', ''trace'',
     ''sysinfo'', ''sigalarm'', ''sigreturn'']"

definition set_a0 :: "u64 \<Rightarrow> 'z ksys_scheme \<Rightarrow> 'z ksys_scheme" where
  "set_a0 v s = upd_proc (cur s) (\<lambda>q. q\<lparr>p_tf := set_reg (reg_a 0) v (p_tf q)\<rparr>) s"

text \<open>The result, what is printed, and the state.\<close>

definition trace_line :: "int \<Rightarrow> 'z ksys_scheme \<Rightarrow> u8 list kres" where
  "trace_line num s =
     (let p = myproc s in
      if p_tracemask p AND push_bit (nat num) 1 \<noteq> 0 then
        printk (ascii ''%d: syscall: %s -> %ld'' @ [10])
          [Num (of_int (p_pid p)), Str (Some (ascii (syscall_names ! nat num))), Num (regs (p_tf p) ! reg_a 0)]
      else Inr [])"

definition syscall :: "sys_ext \<Rightarrow> ksys \<Rightarrow> (sysret \<times> u8 list \<times> ksys) kres" where
  "syscall x s =
     (let num = sint (ucast (regs (p_tf (myproc s)) ! reg_a 7) :: u32) in
      case syscalls x num of
        Some f \<Rightarrow>
          bnd (f s) (\<lambda>(r, s). case r of
            Ret v \<Rightarrow> let s = set_a0 v s in bnd (trace_line num s) (\<lambda>out. Inr (Ret v, out, s))
          | _ \<Rightarrow> Inr (r, [], s))
      | None \<Rightarrow>
          bnd (printk (ascii ''%d %s: unknown sys call %d'' @ [10])
                 [Num (of_int (p_pid (myproc s))), Str (Some (p_name (myproc s))), Num (of_int num)]) (\<lambda>out.
          Inr (Ret (-1), out, set_a0 (-1) s)))"

end
