(* ===== verification/Trap.thy ===== *)
theory Trap
  imports Syscall
begin

text \<open>
  Traps (\<^verbatim>\<open>kernel/trap.c\<close>). The registers that the hardware has set (\<^verbatim>\<open>scause\<close>, \<^verbatim>\<open>stval\<close>, \<^verbatim>\<open>sepc\<close>, \<^verbatim>\<open>sstatus\<close>)
  and what the devices report are arguments. The disk's interrupt has no effect here: it is a step of
  the driver's own theory, and the transfers of the file system are complete when they return.
\<close>

unbundle bit_operations_syntax

section \<open>Operations\<close>

record trapregs =
  scause :: u64
  stval :: u64
  sepc :: u64
  spp :: bool
  satp :: u64
  hartid :: nat
  time :: u64
  irq :: nat
  tx_idle :: bool
  rx :: "u8 list"

definition clockintr :: "nat \<Rightarrow> u64 \<Rightarrow> 'z ksys_scheme \<Rightarrow> u64 \<times> 'z ksys_scheme" where
  "clockintr h now s = (now + 1000000, if h = 0 then wakeup ChTicks (s\<lparr>kticks := kticks s + 1\<rparr>) else s)"

definition dev_uart :: "trapregs \<Rightarrow> 'z ksys_scheme \<Rightarrow> 'z ksys_scheme" where
  "dev_uart t s =
     (let (wtx, dumps, out, wrx, u, k) = uartintr (tx_idle t) (rx t) (kuart s) (kcons s);
          s = s\<lparr>kuart := u\<lparr>sent := sent u @ out\<rparr>, kcons := k\<rparr>;
          s = (if wtx then wakeup ChTx s else s) in
      if wrx then wakeup ChCons s else s)"

text \<open>2 for the timer, 1 for another device, 0 for none; and what is printed.\<close>

definition devintr :: "trapregs \<Rightarrow> 'z ksys_scheme \<Rightarrow> (nat \<times> u8 list \<times> 'z ksys_scheme) kres" where
  "devintr t s =
     (if scause t = 0x8000000000000009 then
        (if irq t = UART0_IRQ then Inr (1, [], dev_uart t s)
         else if irq t = VIRTIO0_IRQ \<or> irq t = 0 then Inr (1, [], s)
         else bnd (printk (ascii ''unexpected interrupt irq=%d'' @ [10]) [Num (of_nat (irq t))]) (\<lambda>out. Inr (1, out, s)))
      else if scause t = 0x8000000000000005 then Inr (2, [], snd (clockintr (hartid t) (time t) s))
      else Inr (0, [], s))"

definition alarm_tick :: "proc \<Rightarrow> proc" where
  "alarm_tick p =
     (if p_alarm_interval p > 0 \<and> \<not> p_alarm_active p then
        let p = p\<lparr>p_alarm_ticks := p_alarm_ticks p + 1\<rparr> in
        if p_alarm_ticks p = p_alarm_interval p then
          p\<lparr>p_alarm_active := True, p_alarm_tf := p_tf p, p_tf := (p_tf p)\<lparr>epc := p_alarm_handler p\<rparr>, p_alarm_ticks := 0\<rparr>
        else p
      else p)"

text \<open>A store to a copy-on-write page: whether memory was found, and the memory.\<close>

definition cow_fault :: "u64 \<Rightarrow> kmem \<Rightarrow> (bool \<times> kmem) kres" where
  "cow_fault pte m =
     (let old_pa = PTE2PA (ld64 (mem m) pte) in
      bnd (kalloc m) (\<lambda>(pg, m).
      if pg = 0 then Inr (False, m)
      else
        let m = m\<lparr>mem := memmove (mem m) pg old_pa 4096\<rparr>;
            flags = (PTE_FLAGS (ld64 (mem m) pte) OR PTE_W) AND NOT PTE_COW;
            m = m\<lparr>mem := st64 (mem m) pte (PA2PTE pg OR flags)\<rparr> in
        bnd (kfree old_pa m) (\<lambda>m. Inr (True, m))))"

definition lazy_fault :: "u64 \<Rightarrow> 'z ksys_scheme \<Rightarrow> 'z ksys_scheme kres" where
  "lazy_fault va s =
     (let p = myproc s in
      bnd (on_um (vmfault (p_sz p) (p_pagetable p) (p_pagetable p) va) s) (\<lambda>(pa, s).
      Inr (if pa = 0 then setkilled (cur s) s else s)))"

definition store_fault :: "u64 \<Rightarrow> 'z ksys_scheme \<Rightarrow> 'z ksys_scheme kres" where
  "store_fault va s =
     bnd (on_um (walk (p_pagetable (myproc s)) va False) s) (\<lambda>(pte, s).
     if pte \<noteq> 0 \<and> ld64 (mem (um s)) pte AND PTE_COW \<noteq> 0 then
       bnd (on_um (cow_fault pte) s) (\<lambda>(ok, s). Inr (if ok then s else setkilled (cur s) s))
     else lazy_fault va s)"

text \<open>The end of \<^verbatim>\<open>usertrap\<close>: the trap frame that the next trap will need.\<close>

definition prepare_return :: "trapregs \<Rightarrow> u64 \<Rightarrow> 'z ksys_scheme \<Rightarrow> 'z ksys_scheme" where
  "prepare_return t usertrap_addr s = upd_proc (cur s) (\<lambda>q. q\<lparr>p_tf := (p_tf q)\<lparr>kernel_satp := satp t,
     kernel_sp := p_kstack q + PGSIZE, kernel_trap := usertrap_addr, kernel_hartid := of_nat (hartid t)\<rparr>\<rparr>) s"

text \<open>
  What \<^verbatim>\<open>usertrap\<close> does: return to user space, possibly after giving up the CPU (it then does
  \<^verbatim>\<open>prepare_return\<close> when it runs again), wait in a system call, or exit.
\<close>

datatype trapret = Return | YieldReturn | TrapWaits | TrapExits

definition trap_end :: "trapregs \<Rightarrow> u64 \<Rightarrow> nat \<Rightarrow> ksys \<Rightarrow> (trapret \<times> ksys) kres" where
  "trap_end t ua which_dev s =
     (if killed (cur s) s then bnd (kexit (-1) s) (\<lambda>s. Inr (TrapExits, s))
      else if which_dev = 2 then Inr (YieldReturn, upd_proc (cur s) yield_proc s)
      else Inr (Return, prepare_return t ua s))"

definition usertrap :: "sys_ext \<Rightarrow> u64 \<Rightarrow> trapregs \<Rightarrow> ksys \<Rightarrow> (trapret \<times> u8 list \<times> ksys) kres" where
  "usertrap x ua t s =
     panic_if (spp t) ''usertrap: not from user mode'' (
     let s = upd_proc (cur s) (\<lambda>q. q\<lparr>p_tf := (p_tf q)\<lparr>epc := sepc t\<rparr>\<rparr>) s;
         finish = (\<lambda>which out s. bnd (trap_end t ua which s) (\<lambda>(r, s). Inr (r, out, s))) in
     if scause t = 8 then
       (if killed (cur s) s then bnd (kexit (-1) s) (\<lambda>s. Inr (TrapExits, [], s))
        else
          let s = upd_proc (cur s) (\<lambda>q. q\<lparr>p_tf := (p_tf q)\<lparr>epc := epc (p_tf q) + 4\<rparr>\<rparr>) s in
          bnd (syscall x s) (\<lambda>(r, out, s). case r of
            Ret _ \<Rightarrow> finish 0 out s
          | Waits \<Rightarrow> Inr (TrapWaits, out, s)
          | Exits \<Rightarrow> Inr (TrapExits, out, s)))
     else
       bnd (devintr t s) (\<lambda>(which, out, s).
       if which \<noteq> 0 then finish which out (if which = 2 then upd_proc (cur s) alarm_tick s else s)
       else if scause t = 15 then bnd (store_fault (stval t) s) (finish 0 [])
       else if scause t = 13 then bnd (lazy_fault (stval t) s) (finish 0 [])
       else
         bnd (printk (ascii ''usertrap(): unexpected scause 0x%lx pid=%d'' @ [10]) [Num (scause t), Num (of_int (p_pid (myproc s)))]) (\<lambda>o1.
         bnd (printk (ascii ''            sepc=0x%lx stval=0x%lx'' @ [10]) [Num (sepc t), Num (stval t)]) (\<lambda>o2.
         finish 0 (o1 @ o2) (setkilled (cur s) s)))))"

text \<open>\<open>running\<close>: this hart runs a process; \<open>ie\<close>: interrupts are enabled. The flag says that it yields.\<close>

definition kerneltrap :: "bool \<Rightarrow> bool \<Rightarrow> trapregs \<Rightarrow> 'z ksys_scheme \<Rightarrow> (bool \<times> u8 list \<times> 'z ksys_scheme) kres" where
  "kerneltrap running ie t s =
     panic_if (\<not> spp t) ''kerneltrap: not from supervisor mode'' (
     panic_if ie ''kerneltrap: interrupts enabled'' (
     bnd (devintr t s) (\<lambda>(which, out, s).
     panic_if (which = 0) ''kerneltrap'' (
     if which = 2 \<and> running then Inr (True, out, upd_proc (cur s) yield_proc s) else Inr (False, out, s)))))"

end
