(* ===== verification/Sched.thy ===== *)
theory Sched
  imports Trap Balloc "HOL-Library.Sublist"
begin

text \<open>
  Scheduling (\<^verbatim>\<open>kernel/proc.c\<close>): the loop of \<^verbatim>\<open>scheduler\<close> over the process table, the first return of a process in
  \<^verbatim>\<open>forkret\<close>, and the protocol of \<^verbatim>\<open>sleep\<close>, \<^verbatim>\<open>wakeup\<close>, \<^verbatim>\<open>sched\<close>, \<^verbatim>\<open>yield\<close> and \<^verbatim>\<open>scheduler\<close> with the locks they take, run by
  any number of harts and processes in any interleaving. A lock here is taken in one step, which is what the
  mutual exclusion of spin locks gives; its owner is the thread of control that has it, a process or the scheduler of
  a hart, and \<^verbatim>\<open>swtch\<close> hands the lock of the process over between the two.
\<close>

section \<open>The scheduler\<close>

text \<open>
  One round of the loop. \<open>run i\<close> is what happens between \<^verbatim>\<open>swtch\<close> to process \<open>i\<close> and its \<^verbatim>\<open>swtch\<close> back; the round returns the
  processes it switched to, each with the value of \<^verbatim>\<open>satp\<close> it installed for it (\<^verbatim>\<open>kvminithart\<close> puts back the kernel's table when the process is done). \<open>c->proc\<close> is \<open>cur\<close>.
\<close>

primrec sched_scan :: "(nat \<Rightarrow> 'z ksys_scheme \<Rightarrow> 'z ksys_scheme kres) \<Rightarrow> nat list \<Rightarrow> 'z ksys_scheme \<Rightarrow> ((nat \<times> u64) list \<times> 'z ksys_scheme) kres" where
  "sched_scan run [] s = Inr ([], s)"
| "sched_scan run (i # is) s =
     (if p_state (prc s i) = RUNNABLE then
        let s = (upd_proc i (\<lambda>q. q\<lparr>p_state := RUNNING\<rparr>) s)\<lparr>cur := i, curpid := p_pid (prc s i)\<rparr>; w = MAKE_SATP (p_kpagetable (prc s i)) in
        bnd (run i s) (\<lambda>s. bnd (sched_scan run is s) (\<lambda>(ran, s). Inr ((i, w) # ran, s)))
      else sched_scan run is s)"

text \<open>A whole round, and whether the hart then waits for an interrupt.\<close>

definition scheduler_round :: "(nat \<Rightarrow> 'z ksys_scheme \<Rightarrow> 'z ksys_scheme kres) \<Rightarrow> 'z ksys_scheme \<Rightarrow> ((nat \<times> u64) list \<times> bool \<times> 'z ksys_scheme) kres" where
  "scheduler_round run s = bnd (sched_scan run [0..<NPROC] s) (\<lambda>(ran, s). Inr (ran, ran = [], s))"

text \<open>The first return of a process; \<open>first\<close> is the static variable, the result the value of \<^verbatim>\<open>satp\<close> passed to \<^verbatim>\<open>userret\<close>.\<close>

definition forkret :: "trapregs \<Rightarrow> u64 \<Rightarrow> bool \<Rightarrow> 'z ksys_scheme \<Rightarrow> (u64 \<times> bool \<times> 'z ksys_scheme) kres" where
  "forkret t ua first s =
     bnd (if first then
            bnd (fsinit s) (\<lambda>s.
            bnd (kexec (ascii ''/init'') [ascii ''/init''] s) (\<lambda>(r, s).
            let s = upd_proc (cur s) (\<lambda>q. q\<lparr>p_tf := set_reg (reg_a 0) (of_int r) (p_tf q)\<rparr>) s in
            panic_if (regs (p_tf (myproc s)) ! reg_a 0 = -1) ''exec'' (Inr s)))
          else Inr s) (\<lambda>s.
     let s = prepare_return t ua s in
     Inr (MAKE_SATP (p_pagetable (myproc s)), False, s))"

section \<open>Sleeping and waking\<close>

datatype thread = Pr nat | Sc nat

text \<open>How a process came to give up the CPU: in \<^verbatim>\<open>sleep\<close> on the channel looked at, on another one, in \<^verbatim>\<open>yield\<close>, or it never ran.\<close>

datatype why = Slept | SleptOther | Yielded

text \<open>
  Where a process is. The clients of a condition protect it by the lock \<open>lk\<close>: a consumer tests the condition under the lock and sleeps
  while it does not hold, a producer makes it hold under the lock and calls \<^verbatim>\<open>wakeup\<close>.
\<close>

datatype ppc =
    User
  | WantLk bool
  | Test
  | Crit
  | SleepP
  | SleepR
  | SleepS chan
  | SwOut why
  | Off why
  | SwIn why
  | Wake nat
  | WakeAt nat
  | RelLk

datatype hart_pc = Scan nat | Look nat | Exec nat | Back nat

record ssys =
  tproc :: "nat \<Rightarrow> proc"
  plock :: "nat \<Rightarrow> thread option"
  lk :: "nat option"
  ready :: bool
  ppc :: "nat \<Rightarrow> ppc"
  hat :: "nat \<Rightarrow> hart_pc"

definition at :: "nat \<Rightarrow> ppc \<Rightarrow> ssys \<Rightarrow> ssys" where
  "at p c s = s\<lparr>ppc := (ppc s)(p := c)\<rparr>"

definition hgoto :: "nat \<Rightarrow> hart_pc \<Rightarrow> ssys \<Rightarrow> ssys" where
  "hgoto h c s = s\<lparr>hat := (hat s)(h := c)\<rparr>"

definition own :: "nat \<Rightarrow> thread option \<Rightarrow> ssys \<Rightarrow> ssys" where
  "own p t s = s\<lparr>plock := (plock s)(p := t)\<rparr>"

definition setp :: "nat \<Rightarrow> (proc \<Rightarrow> proc) \<Rightarrow> ssys \<Rightarrow> ssys" where
  "setp p f s = s\<lparr>tproc := (tproc s)(p := f (tproc s p))\<rparr>"

lemmas moves = at_def hgoto_def own_def setp_def

definition after :: "why \<Rightarrow> ppc" where
  "after y = (if y = Slept then WantLk True else User)"

definition tidy :: "why \<Rightarrow> proc \<Rightarrow> proc" where
  "tidy y p = (if y = Yielded then p else p\<lparr>p_chan := ChNone\<rparr>)"

definition on_hart :: "ssys \<Rightarrow> nat \<Rightarrow> bool" where
  "on_hart s p \<longleftrightarrow> (\<exists>h. hat s h = Exec p)"

text \<open>The steps: those of the scheduler of a hart \<open>h\<close>, then those of a process \<open>p\<close> that runs on a hart. \<open>n\<close> is the size of the table, \<open>c\<close> the channel.\<close>

inductive sstep :: "nat \<Rightarrow> chan \<Rightarrow> ssys \<Rightarrow> ssys \<Rightarrow> bool" for n c where
  look: "hat s h = Scan i \<Longrightarrow> plock s i = None \<Longrightarrow> sstep n c s (hgoto h (Look i) (own i (Some (Sc h)) s))"
| pick: "hat s h = Look i \<Longrightarrow> p_state (tproc s i) = RUNNABLE \<Longrightarrow> ppc s i = Off y \<Longrightarrow>
    sstep n c s (at i (SwIn y) (hgoto h (Exec i) (own i (Some (Pr i)) (setp i (\<lambda>q. q\<lparr>p_state := RUNNING\<rparr>) s))))"
| pass: "hat s h = Look i \<Longrightarrow> p_state (tproc s i) \<noteq> RUNNABLE \<Longrightarrow> sstep n c s (hgoto h (Scan (Suc i mod n)) (own i None s))"
| swback: "hat s h = Back i \<Longrightarrow> sstep n c s (hgoto h (Scan (Suc i mod n)) (own i None s))"
| want: "on_hart s p \<Longrightarrow> ppc s p = User \<Longrightarrow> sstep n c s (at p (WantLk b) s)"
| take: "on_hart s p \<Longrightarrow> ppc s p = WantLk True \<Longrightarrow> lk s = None \<Longrightarrow> sstep n c s (at p Test (s\<lparr>lk := Some p\<rparr>))"
| go: "on_hart s p \<Longrightarrow> ppc s p = Test \<Longrightarrow> ready s \<Longrightarrow> sstep n c s (at p Crit s)"
| wait: "on_hart s p \<Longrightarrow> ppc s p = Test \<Longrightarrow> \<not> ready s \<Longrightarrow> sstep n c s (at p SleepP s)"
| consume: "on_hart s p \<Longrightarrow> ppc s p = Crit \<Longrightarrow> sstep n c s (at p RelLk (s\<lparr>ready := b \<and> ready s\<rparr>))"
| produce: "on_hart s p \<Longrightarrow> ppc s p = WantLk False \<Longrightarrow> lk s = None \<Longrightarrow> sstep n c s (at p (Wake 0) (s\<lparr>lk := Some p, ready := True\<rparr>))"
| sleep_acq: "on_hart s p \<Longrightarrow> ppc s p = SleepP \<Longrightarrow> plock s p = None \<Longrightarrow> sstep n c s (at p SleepR (own p (Some (Pr p)) s))"
| sleep_rel: "on_hart s p \<Longrightarrow> ppc s p = SleepR \<Longrightarrow> sstep n c s (at p (SleepS c) (s\<lparr>lk := None\<rparr>))"
| sleep_set: "on_hart s p \<Longrightarrow> ppc s p = SleepS d \<Longrightarrow>
    sstep n c s (at p (SwOut (if d = c then Slept else SleptOther)) (setp p (sleep_proc d) s))"
| switch: "hat s h = Exec p \<Longrightarrow> ppc s p = SwOut y \<Longrightarrow> sstep n c s (at p (Off y) (hgoto h (Back p) (own p (Some (Sc h)) s)))"
| resume: "on_hart s p \<Longrightarrow> ppc s p = SwIn y \<Longrightarrow> sstep n c s (at p (after y) (own p None (setp p (tidy y) s)))"
| wake_acq: "on_hart s p \<Longrightarrow> ppc s p = Wake i \<Longrightarrow> i < n \<Longrightarrow> i \<noteq> p \<Longrightarrow> plock s i = None \<Longrightarrow> sstep n c s (at p (WakeAt i) (own i (Some (Pr p)) s))"
| wake_self: "on_hart s p \<Longrightarrow> ppc s p = Wake p \<Longrightarrow> p < n \<Longrightarrow> sstep n c s (at p (Wake (Suc p)) s)"
| wake_set: "on_hart s p \<Longrightarrow> ppc s p = WakeAt i \<Longrightarrow> sstep n c s (at p (Wake (Suc i)) (own i None (setp i (wake_proc c) s)))"
| wake_end: "on_hart s p \<Longrightarrow> ppc s p = Wake i \<Longrightarrow> \<not> i < n \<Longrightarrow> sstep n c s (at p RelLk s)"
| rel: "on_hart s p \<Longrightarrow> ppc s p = RelLk \<Longrightarrow> sstep n c s (at p User (s\<lparr>lk := None\<rparr>))"
| yield: "on_hart s p \<Longrightarrow> ppc s p = User \<Longrightarrow> plock s p = None \<Longrightarrow>
    sstep n c s (at p (SwOut Yielded) (own p (Some (Pr p)) (setp p yield_proc s)))"
| other: "on_hart s p \<Longrightarrow> ppc s p = User \<Longrightarrow> plock s p = None \<Longrightarrow> d \<noteq> c \<Longrightarrow> sstep n c s (at p (SleepS d) (own p (Some (Pr p)) s))"

text \<open>At first all harts are in the scheduler and no process has run.\<close>

definition sstart :: "nat \<Rightarrow> ssys \<Rightarrow> bool" where
  "sstart n s \<longleftrightarrow> (\<forall>p. plock s p = None \<and> ppc s p = Off Yielded \<and> p_state (tproc s p) \<noteq> RUNNING \<and> p_state (tproc s p) \<noteq> SLEEPING) \<and>
     lk s = None \<and> (\<forall>h. \<exists>i<n. hat s h = Scan i)"

definition sreach :: "nat \<Rightarrow> chan \<Rightarrow> ssys \<Rightarrow> bool" where
  "sreach n c s \<longleftrightarrow> (\<exists>s0. sstart n s0 \<and> (sstep n c)\<^sup>*\<^sup>* s0 s)"

section \<open>Invariants\<close>

text \<open>The lock of the process table that a process or a scheduler has.\<close>

fun plk :: "nat \<Rightarrow> ppc \<Rightarrow> nat option" where
  "plk p SleepR = Some p"
| "plk p (SleepS d) = Some p"
| "plk p (SwOut y) = Some p"
| "plk p (SwIn y) = Some p"
| "plk p (WakeAt i) = Some i"
| "plk p _ = None"

fun hlk :: "hart_pc \<Rightarrow> nat option" where
  "hlk (Look i) = Some i"
| "hlk (Back i) = Some i"
| "hlk _ = None"

definition plock_inv :: "ssys \<Rightarrow> bool" where
  "plock_inv s \<longleftrightarrow> (\<forall>p i. plock s i = Some (Pr p) \<longleftrightarrow> plk p (ppc s p) = Some i) \<and> (\<forall>h i. plock s i = Some (Sc h) \<longleftrightarrow> hlk (hat s h) = Some i)"

lemma plk_after [simp]: "plk p (after y) = None"
  by (simp add: after_def)

lemma plock_inv_step: "sstep n c s s' \<Longrightarrow> plock_inv s \<Longrightarrow> plock_inv s'"
  by (induction rule: sstep.induct) (simp_all add: plock_inv_def moves, (metis option.distinct(1) option.inject thread.inject thread.distinct(1) hlk.simps plk.simps)+)

fun in_cs :: "ppc \<Rightarrow> bool" where
  "in_cs User = False"
| "in_cs (WantLk b) = False"
| "in_cs (SleepS d) = False"
| "in_cs (SwOut y) = False"
| "in_cs (Off y) = False"
| "in_cs (SwIn y) = False"
| "in_cs _ = True"

definition lk_inv :: "ssys \<Rightarrow> bool" where
  "lk_inv s \<longleftrightarrow> (\<forall>p. lk s = Some p \<longleftrightarrow> in_cs (ppc s p)) \<and> (\<forall>p. ppc s p = SleepP \<or> ppc s p = SleepR \<longrightarrow> \<not> ready s)"

lemma after_cases: "after y = WantLk True \<or> after y = User"
  by (simp add: after_def)

lemma in_cs_after [simp]: "\<not> in_cs (after y)" "after y \<noteq> SleepP" "after y \<noteq> SleepR"
  by (simp_all add: after_def)

lemma lk_inv_step: "sstep n c s s' \<Longrightarrow> lk_inv s \<Longrightarrow> lk_inv s'"
  by (induction rule: sstep.induct) (simp_all add: lk_inv_def moves, (metis option.distinct(1) option.inject in_cs.simps ppc.distinct)+)

text \<open>A process runs on one hart at most, is \<^verbatim>\<open>RUNNING\<close> from \<^verbatim>\<open>scheduler\<close>'s choice until it gives up the CPU, and not \<^verbatim>\<open>RUNNING\<close> when it does.\<close>

fun off :: "ppc \<Rightarrow> bool" where
  "off (Off y) = True"
| "off _ = False"

fun out :: "ppc \<Rightarrow> bool" where
  "out (Off y) = True"
| "out (SwOut y) = True"
| "out _ = False"

fun hix :: "hart_pc \<Rightarrow> nat" where
  "hix (Scan i) = i"
| "hix (Look i) = i"
| "hix (Exec i) = i"
| "hix (Back i) = i"

definition run_inv :: "nat \<Rightarrow> ssys \<Rightarrow> bool" where
  "run_inv n s \<longleftrightarrow> (\<forall>h p. hat s h = Exec p \<longrightarrow> \<not> off (ppc s p)) \<and> (\<forall>h h' p. hat s h = Exec p \<longrightarrow> hat s h' = Exec p \<longrightarrow> h = h') \<and>
     (\<forall>p. p_state (tproc s p) = RUNNING \<longleftrightarrow> \<not> out (ppc s p)) \<and> (\<forall>h. hix (hat s h) < n) \<and> (\<forall>p. \<not> off (ppc s p) \<longrightarrow> on_hart s p)"

lemma off_after [simp]: "\<not> off (after y)" "\<not> out (after y)"
  by (simp_all add: after_def)

lemma tidy_state [simp]: "p_state (tidy y q) = p_state q"
  by (simp add: tidy_def)

lemma wake_running [simp]: "p_state (wake_proc c q) = RUNNING \<longleftrightarrow> p_state q = RUNNING"
  by (simp add: wake_proc_def)

lemma run_on: "run_inv n s \<Longrightarrow> \<not> off (ppc s p) \<Longrightarrow> \<exists>h. hat s h = Exec p"
  by (auto simp: run_inv_def on_hart_def)

lemma run_off: "run_inv n s \<Longrightarrow> hat s h = Exec p \<Longrightarrow> \<not> off (ppc s p)"
  by (auto simp: run_inv_def)

lemma run_state: "run_inv n s \<Longrightarrow> p_state (tproc s p) = RUNNING \<longleftrightarrow> \<not> out (ppc s p)"
  by (simp add: run_inv_def)

lemma run_one: "run_inv n s \<Longrightarrow> hat s h = Exec p \<Longrightarrow> hat s h' = Exec p \<Longrightarrow> h' = h"
  unfolding run_inv_def by blast

lemma on_hart_move:
  assumes "run_inv n s" "\<And>q. off (ppc s q) \<Longrightarrow> off (ppc s' q)" "hat s' = (hat s)(h := x)" "\<And>p. hat s h \<noteq> Exec p"
  shows "\<forall>p. \<not> off (ppc s' p) \<longrightarrow> on_hart s' p"
proof (intro allI impI)
  fix p assume "\<not> off (ppc s' p)"
  then obtain h' where "hat s h' = Exec p" using run_on [OF assms(1)] assms(2) by blast
  moreover from this have "h' \<noteq> h" using assms(4) by auto
  ultimately show "on_hart s' p" using assms(3) by (auto simp: on_hart_def intro: exI [of _ h'])
qed

lemma run_inv_idle:
  assumes r: "run_inv n s" and s': "ppc s' = ppc s" "hat s' = (hat s)(h := x)" "tproc s' = tproc s" and h: "\<And>p. hat s h \<noteq> Exec p" "\<And>p. x \<noteq> Exec p" "hix x < n"
  shows "run_inv n s'"
proof -
  have "\<forall>p. \<not> off (ppc s' p) \<longrightarrow> on_hart s' p" by (rule on_hart_move [OF r _ s'(2) h(1)]) (simp add: s')
  then show ?thesis using r h s' by (simp add: run_inv_def)
qed

lemma hix_hat: "run_inv n s \<Longrightarrow> hat s h = x \<Longrightarrow> hix x < n"
  by (auto simp: run_inv_def)

lemma run_inv_step:
  assumes st: "sstep n c s s'" and r: "run_inv n s"
  shows "run_inv n s'"
  using st
proof cases
  case (look h i)
  show ?thesis by (rule run_inv_idle [OF r, where x = "Look i" and h = h]) (use look hix_hat [OF r, of h] in \<open>simp_all add: moves\<close>)
next
  case (pick h i)
  have i: "i < n" using hix_hat [OF r, of h] pick by simp
  have no: "hat s h' \<noteq> Exec i" for h' using run_off [OF r, of h' i] pick by auto
  have "on_hart s' p" if o: "\<not> off (ppc s' p)" for p
  proof (cases "p = i")
    case True
    then show ?thesis using pick by (auto simp: on_hart_def moves)
  next
    case False
    then obtain h' where h': "hat s h' = Exec p" using run_on [OF r, of p] o pick by (auto simp: moves)
    then have "h' \<noteq> h" using pick by auto
    then show ?thesis using h' pick by (auto simp: on_hart_def moves intro: exI [of _ h'])
  qed
  moreover have "\<forall>h. hix (hat s' h) < n" using r pick i by (auto simp: run_inv_def moves)
  moreover have "\<forall>h p. hat s' h = Exec p \<longrightarrow> \<not> off (ppc s' p)" using r pick by (auto simp: run_inv_def moves)
  moreover have "\<forall>h h' p. hat s' h = Exec p \<longrightarrow> hat s' h' = Exec p \<longrightarrow> h = h'" using r pick no by (auto simp: run_inv_def moves)
  moreover have "\<forall>p. p_state (tproc s' p) = RUNNING \<longleftrightarrow> \<not> out (ppc s' p)" using r pick by (auto simp: run_inv_def moves)
  ultimately show ?thesis by (simp add: run_inv_def)
next
  case (pass h i)
  show ?thesis by (rule run_inv_idle [OF r, where x = "Scan (Suc i mod n)" and h = h]) (use pass hix_hat [OF r, of h] in \<open>simp_all add: moves\<close>)
next
  case (swback h i)
  show ?thesis by (rule run_inv_idle [OF r, where x = "Scan (Suc i mod n)" and h = h]) (use swback hix_hat [OF r, of h] in \<open>simp_all add: moves\<close>)
next
  case (switch h p y)
  have u: "hat s h' = Exec p \<Longrightarrow> h' = h" for h' using run_one [OF r, of h p h'] switch by simp
  have "on_hart s' q" if o: "\<not> off (ppc s' q)" for q
  proof -
    have "q \<noteq> p" using that switch by (auto simp: moves)
    then obtain h' where h': "hat s h' = Exec q" "h' \<noteq> h" using run_on [OF r, of q] o switch by (force simp: moves)
    then show ?thesis using switch by (auto simp: on_hart_def moves intro: exI [of _ h'])
  qed
  moreover have "\<forall>h. hix (hat s' h) < n" using r switch hix_hat [OF r, of h] by (auto simp: run_inv_def moves)
  moreover have "\<not> off (ppc s' q)" if "hat s' h' = Exec q" for h' q
  proof -
    have "h' \<noteq> h" using that switch by (auto simp: moves)
    then have "hat s h' = Exec q" "q \<noteq> p" using that switch u [of h'] by (auto simp: moves)
    then show ?thesis using run_off [OF r, of h' q] switch by (simp add: moves)
  qed
  moreover have "h1 = h2" if "hat s' h1 = Exec q" "hat s' h2 = Exec q" for h1 h2 q
    using that switch run_one [OF r, of h1 q h2] by (simp add: moves split: if_splits)
  moreover have "\<forall>p. p_state (tproc s' p) = RUNNING \<longleftrightarrow> \<not> out (ppc s' p)" using r switch by (auto simp: run_inv_def moves)
  ultimately show ?thesis unfolding run_inv_def by blast
next
  case (wake_set p i)
  have "p = i \<longrightarrow> \<not> out (ppc s i)" using wake_set by auto
  then show ?thesis using r wake_set by (simp add: run_inv_def moves on_hart_def)
qed (use r in \<open>simp_all add: run_inv_def moves on_hart_def sleep_proc_def yield_proc_def\<close>)

text \<open>
  The reason why no wakeup is lost: a process that has given up the condition's lock in order to sleep, or sleeps, while the condition holds
  is still ahead of a \<^verbatim>\<open>wakeup\<close> under way.
\<close>

definition pending :: "chan \<Rightarrow> ssys \<Rightarrow> nat \<Rightarrow> bool" where
  "pending c s p \<longleftrightarrow> ppc s p = SleepS c \<or> p_state (tproc s p) = SLEEPING \<and> p_chan (tproc s p) = c"

fun waking :: "ppc \<Rightarrow> nat option" where
  "waking (Wake i) = Some i"
| "waking (WakeAt i) = Some i"
| "waking _ = None"

definition wake_inv :: "nat \<Rightarrow> chan \<Rightarrow> ssys \<Rightarrow> bool" where
  "wake_inv n c s \<longleftrightarrow> (\<forall>p. pending c s p \<longrightarrow> p < n) \<and>
     (ready s \<longrightarrow> (\<forall>p. pending c s p \<longrightarrow> (\<exists>q i. lk s = Some q \<and> waking (ppc s q) = Some i \<and> i \<le> p)))"

lemma wake_inv_cong:
  assumes w: "wake_inv n c s" and "\<And>p. pending c s' p \<longrightarrow> pending c s p" "ready s' \<longrightarrow> ready s" "\<And>q. lk s = Some q \<Longrightarrow> lk s' = Some q"
    "\<And>q. waking (ppc s q) = None \<or> waking (ppc s' q) = waking (ppc s q)"
  shows "wake_inv n c s'"
  unfolding wake_inv_def
proof (intro conjI allI impI)
  show "p < n" if "pending c s' p" for p using that assms by (auto simp: wake_inv_def)
  show "\<exists>q i. lk s' = Some q \<and> waking (ppc s' q) = Some i \<and> i \<le> p" if rp: "ready s'" "pending c s' p" for p
  proof -
    have "ready s" "pending c s p" using rp assms(2) [of p] assms(3) by auto
    then obtain q i where "lk s = Some q" "waking (ppc s q) = Some i" "i \<le> p" using w by (auto simp: wake_inv_def)
    then show ?thesis using assms(4) [of q] assms(5) [of q] by auto
  qed
qed

text \<open>The steps of \<^verbatim>\<open>wakeup\<close> from one process of the table to the next.\<close>

lemma wake_inv_next:
  assumes w: "wake_inv n c s" and l: "lk s = Some q" "waking (ppc s q) = Some i" and s': "lk s' = lk s" "ready s' = ready s" "waking (ppc s' q) = Some (Suc i)"
    and p: "\<And>p. pending c s' p \<Longrightarrow> pending c s p \<and> p \<noteq> i"
  shows "wake_inv n c s'"
  unfolding wake_inv_def
proof (intro conjI allI impI)
  show "p < n" if "pending c s' p" for p using that p w by (auto simp: wake_inv_def)
  show "\<exists>q i. lk s' = Some q \<and> waking (ppc s' q) = Some i \<and> i \<le> p'" if "ready s'" "pending c s' p'" for p'
  proof -
    have "pending c s p'" "p' \<noteq> i" "ready s" using p [OF that(2)] that(1) s' by auto
    then have "i \<le> p'" using w l by (auto simp: wake_inv_def)
    then show ?thesis using s' l \<open>p' \<noteq> i\<close> by auto
  qed
qed

lemma no_pending: "wake_inv n c s \<Longrightarrow> lk s = Some p \<Longrightarrow> waking (ppc s p) = None \<or> waking (ppc s p) = Some i \<and> \<not> i < n \<Longrightarrow> ready s \<Longrightarrow> \<not> pending c s q"
  by (force simp: wake_inv_def)

lemma wake_inv_none:
  assumes "wake_inv n c s" "ready s \<longrightarrow> (\<forall>q. \<not> pending c s q)" "\<And>q. pending c s' q \<longrightarrow> pending c s q" "ready s' = ready s"
  shows "wake_inv n c s'"
  using assms unfolding wake_inv_def by blast

lemma wake_inv_step:
  assumes st: "sstep n c s s'" and w: "wake_inv n c s" and l: "lk_inv s" and pl: "plock_inv s" and r: "run_inv n s"
  shows "wake_inv n c s'"
  using st
proof cases
  case (sleep_rel p)
  then obtain h where "hat s h = Exec p" by (auto simp: on_hart_def)
  then have "p < n" using hix_hat [OF r, of h "Exec p"] by simp
  moreover have "\<not> ready s" using l sleep_rel by (simp add: lk_inv_def)
  ultimately show ?thesis using w sleep_rel by (simp add: wake_inv_def pending_def moves)
next
  case (produce p)
  then show ?thesis using w by (simp add: wake_inv_def moves pending_def)
next
  case (wake_self p)
  have "lk s = Some p" using l wake_self by (simp add: lk_inv_def)
  moreover have "p_state (tproc s p) = RUNNING" using run_state [OF r, of p] wake_self by simp
  ultimately show ?thesis by (intro wake_inv_next [OF w, of p p]) (use wake_self in \<open>simp_all add: moves pending_def split: if_splits\<close>)
next
  case (wake_set p i)
  have lp: "lk s = Some p" using l wake_set by (simp add: lk_inv_def)
  have "plock s i = Some (Pr p)" using pl wake_set by (simp add: plock_inv_def)
  moreover have "plock s i = Some (Pr i)" if "ppc s i = SleepS c" using pl that by (simp add: plock_inv_def)
  ultimately have "ppc s i \<noteq> SleepS c" using wake_set by auto
  then show ?thesis by (intro wake_inv_next [OF w lp, of i]) (use wake_set in \<open>simp_all add: moves pending_def wake_proc_def split: if_splits\<close>)
next
  case (wake_end p i)
  have lp: "lk s = Some p" using l wake_end by (simp add: lk_inv_def)
  have "ready s \<longrightarrow> (\<forall>q. \<not> pending c s q)" using no_pending [OF w lp] wake_end by simp
  then show ?thesis by (rule wake_inv_none [OF w]) (use wake_end in \<open>simp_all add: pending_def moves\<close>)
next
  case (rel p)
  have lp: "lk s = Some p" using l rel by (simp add: lk_inv_def)
  have "ready s \<longrightarrow> (\<forall>q. \<not> pending c s q)" using no_pending [OF w lp] rel by simp
  then show ?thesis by (rule wake_inv_none [OF w]) (use rel in \<open>simp_all add: pending_def moves\<close>)
next
  case (resume p y)
  then have "p_state (tproc s p) = RUNNING" using run_state [OF r, of p] by simp
  then show ?thesis by (intro wake_inv_cong [OF w]) (use resume in \<open>simp_all add: moves pending_def after_def\<close>)
qed (rule wake_inv_cong [OF w]; simp add: moves pending_def sleep_proc_def yield_proc_def)+

lemma sreach_inv:
  assumes "sreach n c s"
  shows "plock_inv s" "lk_inv s" "run_inv n s" "wake_inv n c s"
proof -
  obtain s0 where s0: "sstart n s0" "(sstep n c)\<^sup>*\<^sup>* s0 s" using assms by (auto simp: sreach_def)
  have "\<exists>i<n. hat s0 h = Scan i" for h using s0(1) by (simp add: sstart_def)
  then have h: "hlk (hat s0 h) = None" "hat s0 h \<noteq> Exec p" "hix (hat s0 h) < n" for h p by (metis hlk.simps(3) hart_pc.distinct(3) hix.simps(1))+
  have "plock_inv s0" "lk_inv s0" "run_inv n s0" "wake_inv n c s0"
  proof -
    show "plock_inv s0" using s0(1) h by (simp add: plock_inv_def sstart_def)
    show "lk_inv s0" using s0(1) by (simp add: lk_inv_def sstart_def)
    show "run_inv n s0" using s0(1) h by (simp add: run_inv_def sstart_def)
    show "wake_inv n c s0" using s0(1) by (simp add: wake_inv_def sstart_def pending_def)
  qed
  with s0(2) have "plock_inv s \<and> lk_inv s \<and> run_inv n s \<and> wake_inv n c s"
    by (induction rule: rtranclp_induct) (simp, blast intro: plock_inv_step lk_inv_step run_inv_step wake_inv_step)
  then show "plock_inv s" "lk_inv s" "run_inv n s" "wake_inv n c s" by simp_all
qed

section \<open>Properties\<close>

text \<open>
  C2. No wakeup is lost and no process runs twice: in every interleaving of any number of harts and processes that use \<^verbatim>\<open>sleep\<close> and
  \<^verbatim>\<open>wakeup\<close> with a condition under a lock, when the condition holds and nobody has its lock, no process sleeps on its channel or is on
  the way to; a process runs on one hart at most; \<^verbatim>\<open>sched\<close> is entered with the lock of the process held and its state not \<^verbatim>\<open>RUNNING\<close>;
  and a process that the scheduler finds \<^verbatim>\<open>RUNNABLE\<close> with its lock in hand has saved its context.
\<close>

theorem no_lost_wakeup:
  assumes "sreach n c s"
  shows "(ready s \<and> lk s = None \<longrightarrow> ppc s p \<noteq> SleepS c \<and> \<not> (p_state (tproc s p) = SLEEPING \<and> p_chan (tproc s p) = c)) \<and>
    (hat s h = Exec p \<and> hat s h' = Exec p \<longrightarrow> h = h') \<and>
    (ppc s p = SwOut y \<longrightarrow> plock s p = Some (Pr p) \<and> p_state (tproc s p) \<noteq> RUNNING) \<and>
    (hat s h = Look p \<and> p_state (tproc s p) = RUNNABLE \<longrightarrow> plock s p = Some (Sc h) \<and> (\<exists>y. ppc s p = Off y))"
proof (intro conjI impI; (elim conjE)?)
  note i = sreach_inv [OF assms]
  show "ppc s p \<noteq> SleepS c" "\<not> (p_state (tproc s p) = SLEEPING \<and> p_chan (tproc s p) = c)" if "ready s" "lk s = None"
    using i(4) that by (auto simp: wake_inv_def pending_def)
  show "h = h'" if "hat s h = Exec p" "hat s h' = Exec p" using run_one [OF i(3)] that by blast
  show "plock s p = Some (Pr p)" "p_state (tproc s p) \<noteq> RUNNING" if "ppc s p = SwOut y"
    using i(1) run_state [OF i(3), of p] that by (simp_all add: plock_inv_def)
  assume lp: "hat s h = Look p" "p_state (tproc s p) = RUNNABLE"
  show pl: "plock s p = Some (Sc h)" using i(1) lp by (simp add: plock_inv_def)
  have "out (ppc s p)" using run_state [OF i(3), of p] lp by simp
  moreover have "plock s p = Some (Pr p)" if "ppc s p = SwOut y" for y using i(1) that by (simp add: plock_inv_def)
  ultimately show "\<exists>y. ppc s p = Off y" using pl by (cases "ppc s p") auto
qed

text \<open>Process 0 sleeps on a condition that process 1 then makes true, on one hart.\<close>

definition ssys0 :: ssys where
  "ssys0 = \<lparr>tproc = (\<lambda>_. empty_proc\<lparr>p_state := RUNNABLE\<rparr>), plock = (\<lambda>_. None), lk = None, ready = False, ppc = (\<lambda>_. Off Yielded),
     hat = (\<lambda>_. Scan 0)\<rparr>"

lemma sleep_then_wake:
  defines "z0 \<equiv> ssys0"
  defines "z1 \<equiv> hgoto 0 (Look 0) (own 0 (Some (Sc 0)) z0)"
  defines "z2 \<equiv> at 0 (SwIn Yielded) (hgoto 0 (Exec 0) (own 0 (Some (Pr 0)) (setp 0 (\<lambda>q. q\<lparr>p_state := RUNNING\<rparr>) z1)))"
  defines "z3 \<equiv> at 0 (after Yielded) (own 0 None (setp 0 (tidy Yielded) z2))"
  defines "z4 \<equiv> at 0 (WantLk True) z3"
  defines "z5 \<equiv> at 0 Test (z4\<lparr>lk := Some 0\<rparr>)"
  defines "z6 \<equiv> at 0 SleepP z5"
  defines "z7 \<equiv> at 0 SleepR (own 0 (Some (Pr 0)) z6)"
  defines "z8 \<equiv> at 0 (SleepS ChTicks) (z7\<lparr>lk := None\<rparr>)"
  defines "z9 \<equiv> at 0 (SwOut (if ChTicks = ChTicks then Slept else SleptOther)) (setp 0 (sleep_proc ChTicks) z8)"
  defines "z10 \<equiv> at 0 (Off Slept) (hgoto 0 (Back 0) (own 0 (Some (Sc 0)) z9))"
  defines "z11 \<equiv> hgoto 0 (Scan (Suc 0 mod 2)) (own 0 None z10)"
  defines "z12 \<equiv> hgoto 0 (Look 1) (own 1 (Some (Sc 0)) z11)"
  defines "z13 \<equiv> at 1 (SwIn Yielded) (hgoto 0 (Exec 1) (own 1 (Some (Pr 1)) (setp 1 (\<lambda>q. q\<lparr>p_state := RUNNING\<rparr>) z12)))"
  defines "z14 \<equiv> at 1 (after Yielded) (own 1 None (setp 1 (tidy Yielded) z13))"
  defines "z15 \<equiv> at 1 (WantLk False) z14"
  defines "z16 \<equiv> at 1 (Wake 0) (z15\<lparr>lk := Some 1, ready := True\<rparr>)"
  defines "z17 \<equiv> at 1 (WakeAt 0) (own 0 (Some (Pr 1)) z16)"
  defines "z18 \<equiv> at 1 (Wake (Suc 0)) (own 0 None (setp 0 (wake_proc ChTicks) z17))"
  defines "z19 \<equiv> at 1 (Wake (Suc 1)) z18"
  defines "z20 \<equiv> at 1 RelLk z19"
  defines "z21 \<equiv> at 1 User (z20\<lparr>lk := None\<rparr>)"
  shows "sreach 2 ChTicks z9" "p_state (tproc z9 0) = SLEEPING" "sreach 2 ChTicks z21" "ready z21" "lk z21 = None" "p_state (tproc z21 0) = RUNNABLE"
proof -
  let ?R = "(sstep 2 ChTicks)\<^sup>*\<^sup>* ssys0"
  note defs = z0_def ssys0_def z1_def z2_def z3_def z4_def z5_def z6_def z7_def z8_def z9_def z10_def z11_def z12_def z13_def z14_def z15_def z16_def z17_def z18_def z19_def z20_def z21_def
  note f = moves on_hart_def after_def tidy_def sleep_proc_def wake_proc_def
  note via = rtranclp.rtrancl_into_rtrancl
  have r0: "?R z0" by (simp add: z0_def)
  have r1: "?R z1" by (rule via [OF r0], unfold z1_def, rule sstep.look) (simp_all add: defs f)
  have r2: "?R z2" by (rule via [OF r1], unfold z2_def, rule sstep.pick) (simp_all add: defs f)
  have r3: "?R z3" by (rule via [OF r2], unfold z3_def, rule sstep.resume) (simp_all add: defs f)
  have r4: "?R z4" by (rule via [OF r3], unfold z4_def, rule sstep.want) (simp_all add: defs f)
  have r5: "?R z5" by (rule via [OF r4], unfold z5_def, rule sstep.take) (simp_all add: defs f)
  have r6: "?R z6" by (rule via [OF r5], unfold z6_def, rule sstep.wait) (simp_all add: defs f)
  have r7: "?R z7" by (rule via [OF r6], unfold z7_def, rule sstep.sleep_acq) (simp_all add: defs f)
  have r8: "?R z8" by (rule via [OF r7], unfold z8_def, rule sstep.sleep_rel) (simp_all add: defs f)
  have r9: "?R z9" by (rule via [OF r8], unfold z9_def, rule sstep.sleep_set) (simp_all add: defs f)
  have r10: "?R z10" by (rule via [OF r9], unfold z10_def, rule sstep.switch) (simp_all add: defs f)
  have r11: "?R z11" by (rule via [OF r10], unfold z11_def, rule sstep.swback) (simp_all add: defs f)
  have r12: "?R z12" by (rule via [OF r11], unfold z12_def, rule sstep.look) (simp_all add: defs f)
  have r13: "?R z13" by (rule via [OF r12], unfold z13_def, rule sstep.pick) (simp_all add: defs f)
  have r14: "?R z14" by (rule via [OF r13], unfold z14_def, rule sstep.resume) (simp_all add: defs f)
  have r15: "?R z15" by (rule via [OF r14], unfold z15_def, rule sstep.want) (simp_all add: defs f)
  have r16: "?R z16" by (rule via [OF r15], unfold z16_def, rule sstep.produce) (simp_all add: defs f)
  have r17: "?R z17" by (rule via [OF r16], unfold z17_def, rule sstep.wake_acq) (simp_all add: defs f)
  have r18: "?R z18" by (rule via [OF r17], unfold z18_def, rule sstep.wake_set) (simp_all add: defs f)
  have r19: "?R z19" by (rule via [OF r18], unfold z19_def, rule sstep.wake_self) (simp_all add: defs f)
  have r20: "?R z20" by (rule via [OF r19], unfold z20_def, rule sstep.wake_end [where i = "Suc 1"]) (simp_all add: defs f)
  have r21: "?R z21" by (rule via [OF r20], unfold z21_def, rule sstep.rel) (simp_all add: defs f)
  have "sstart 2 ssys0" by (simp add: sstart_def ssys0_def empty_proc_def)
  then show "sreach 2 ChTicks z9" "sreach 2 ChTicks z21" using r9 r21 by (auto simp: sreach_def)
  show "p_state (tproc z9 0) = SLEEPING" "ready z21" "lk z21 = None" "p_state (tproc z21 0) = RUNNABLE" by (simp_all add: defs f)
qed

theorem no_lost_wakeup_witness:
  "\<exists>s s'. sreach 2 ChTicks s \<and> p_state (tproc s 0) = SLEEPING \<and> sreach 2 ChTicks s' \<and> ready s' \<and> lk s' = None \<and>
     \<not> (p_state (tproc s' 0) = SLEEPING \<and> p_chan (tproc s' 0) = ChTicks)"
  using sleep_then_wake no_lost_wakeup by blast

section \<open>Progress of the scheduler\<close>

text \<open>What a process may do to the table while it runs: processes that are \<^verbatim>\<open>RUNNABLE\<close> stay so until a scheduler picks them.\<close>

definition keeps_runnable :: "(nat \<Rightarrow> 'z ksys_scheme \<Rightarrow> 'z ksys_scheme kres) \<Rightarrow> bool" where
  "keeps_runnable run \<longleftrightarrow> (\<forall>i s. \<exists>s'. run i s = Inr s' \<and> length (procs s') = length (procs s) \<and>
     (\<forall>j. j \<noteq> i \<longrightarrow> p_state (prc s j) = RUNNABLE \<longrightarrow> prc s' j = prc s j))"

lemma sched_scan_runs:
  assumes "keeps_runnable run" "\<forall>i\<in>set is. i < length (procs s)" "distinct is"
  shows "\<exists>ran s'. sched_scan run is s = Inr (ran, s') \<and> length (procs s') = length (procs s) \<and> subseq (map fst ran) is \<and>
    (\<forall>i\<in>set is. p_state (prc s i) = RUNNABLE \<longrightarrow> (i, MAKE_SATP (p_kpagetable (prc s i))) \<in> set ran) \<and>
    (\<forall>j. j \<notin> set is \<longrightarrow> p_state (prc s j) = RUNNABLE \<longrightarrow> prc s' j = prc s j)"
  using assms(2,3)
proof (induction "is" arbitrary: s)
  case Nil
  then show ?case by simp
next
  case (Cons i ps)
  show ?case
  proof (cases "p_state (prc s i) = RUNNABLE")
    case True
    let ?s = "(upd_proc i (\<lambda>q. q\<lparr>p_state := RUNNING\<rparr>) s)\<lparr>cur := i, curpid := p_pid (prc s i)\<rparr>"
    obtain s1 where s1: "run i ?s = Inr s1" "length (procs s1) = length (procs s)"
      "\<And>j. j \<noteq> i \<Longrightarrow> p_state (prc s j) = RUNNABLE \<Longrightarrow> prc s1 j = prc s j"
    proof -
      have j: "length (procs ?s) = length (procs s)" "j \<noteq> i \<Longrightarrow> prc ?s j = prc s j" for j by (simp_all add: upd_proc_def)
      obtain s1 where "run i ?s = Inr s1" "length (procs s1) = length (procs ?s)" "\<forall>j. j \<noteq> i \<longrightarrow> p_state (prc ?s j) = RUNNABLE \<longrightarrow> prc s1 j = prc ?s j"
        using assms(1) unfolding keeps_runnable_def by blast
      then show ?thesis using that [of s1] j by simp
    qed
    obtain ran s2 where s2: "sched_scan run ps s1 = Inr (ran, s2)" "length (procs s2) = length (procs s)" "subseq (map fst ran) ps"
      "\<forall>i\<in>set ps. p_state (prc s1 i) = RUNNABLE \<longrightarrow> (i, MAKE_SATP (p_kpagetable (prc s1 i))) \<in> set ran"
      "\<forall>j. j \<notin> set ps \<longrightarrow> p_state (prc s1 j) = RUNNABLE \<longrightarrow> prc s2 j = prc s1 j"
      using Cons.IH [of s1] Cons.prems s1(2) by auto
    have "sched_scan run (i # ps) s = Inr ((i, MAKE_SATP (p_kpagetable (prc s i))) # ran, s2)"
      using True s1(1) s2(1) Cons.prems(1) by (simp add: Let_def upd_proc_def)
    moreover have "i \<notin> set ps" using Cons.prems(2) by simp
    moreover have "(k, MAKE_SATP (p_kpagetable (prc s k))) \<in> set ran" if "k \<in> set ps" "p_state (prc s k) = RUNNABLE" for k
      using that s1(3) [of k] s2(4) \<open>i \<notin> set ps\<close> by force
    moreover have "prc s2 j = prc s j" if "j \<notin> set (i # ps)" "p_state (prc s j) = RUNNABLE" for j
      using that s1(3) [of j] s2(5) by force
    ultimately show ?thesis using s2(2,3) by (intro exI [of _ "(i, MAKE_SATP (p_kpagetable (prc s i))) # ran"] exI [of _ s2]) auto
  next
    case False
    then show ?thesis using Cons.IH [of s] Cons.prems by (auto intro: list_emb_Cons)
  qed
qed


text \<open>A table in which process 3 alone is runnable, and processes that go to sleep when they run.\<close>

definition ksys_on :: "proc list \<Rightarrow> ksys" where
  "ksys_on ps = \<lparr>bufs = [], lru = [], disk = (\<lambda>_. []), hist = [], curpid = 0, start = 2, outstanding = 0, committing = False, ncommit = 0, lh = [],
     sb = super0, inodes = [], um = \<lparr>mem = (\<lambda>_. 0), freelist = [], refcnt = (\<lambda>_. 0), kend = 0, tp = 0\<rparr>, ftable = [],
     pipes = (\<lambda>_. \<lparr>p_data = [], nread = 0, nwrite = 0, readopen = False, writeopen = False\<rparr>), procs = ps, nextpid = 1, initproc = None, cur = 0,
     kticks = 0, kcons = \<lparr>cbuf = [], cr = 0, cw = 0, ce = 0\<rparr>, kuart = \<lparr>tx_busy = False, sent = []\<rparr>, kbuf = 0, kernel_pagetable = 0, etext = 0,
     trampoline = 0\<rparr>"


end
