(* ===== verification/Virtio.thy ===== *)
theory Virtio
  imports Kalloc Ring
begin

text \<open>
  The driver of the virtio disk (\<^verbatim>\<open>kernel/virtio_disk.c\<close>, \<^verbatim>\<open>kernel/virtio.h\<close>): descriptors, the two rings and the
  interrupt handler, and the device they talk to. The handlers run under \<^verbatim>\<open>vdisk_lock\<close>, so a run is an interleaving of
  whole handlers with steps of the device. Buffers are numbered; addresses in descriptors are named by what they
  point to. The device serves the chains of the available ring as the virtio specification says, in any order.
\<close>

unbundle bit_operations_syntax

section \<open>Driver\<close>

definition NUM :: nat where
  "NUM = 8"

definition VRING_DESC_F_NEXT :: u16 where
  "VRING_DESC_F_NEXT = 1"

definition VRING_DESC_F_WRITE :: u16 where
  "VRING_DESC_F_WRITE = 2"

definition VIRTIO_BLK_T_IN :: u32 where
  "VIRTIO_BLK_T_IN = 0"

definition VIRTIO_BLK_T_OUT :: u32 where
  "VIRTIO_BLK_T_OUT = 1"

text \<open>\<open>OpsA i\<close> is \<^verbatim>\<open>&disk.ops[i]\<close>, \<open>DataA b\<close> is \<^verbatim>\<open>b->data\<close>, \<open>StatusA i\<close> is \<^verbatim>\<open>&disk.info[i].status\<close>.\<close>

datatype vaddr = NullA | OpsA nat | DataA nat | StatusA nat

record virtq_desc =
  d_addr :: vaddr
  d_len :: u32
  d_flags :: u16
  d_next :: u16

record virtio_blk_req =
  r_type :: u32
  r_reserved :: u32
  r_sector :: u64

text \<open>\<open>b_disk\<close> is the field \<^verbatim>\<open>disk\<close> of the buffers: does the disk own the buffer?\<close>

record vdisk =
  desc :: "nat \<Rightarrow> virtq_desc"
  avail_idx :: u16
  avail_ring :: "u16 list"
  used_ridx :: u16
  used_ring :: "u32 list"
  vfree :: "nat \<Rightarrow> bool"
  used_idx :: u16
  info_b :: "nat \<Rightarrow> nat option"
  info_status :: "nat \<Rightarrow> u8"
  ops :: "nat \<Rightarrow> virtio_blk_req"
  b_disk :: "nat \<Rightarrow> bool"

definition no_desc :: virtq_desc where
  "no_desc = \<lparr>d_addr = NullA, d_len = 0, d_flags = 0, d_next = 0\<rparr>"

definition alloc_desc :: "'z vdisk_scheme \<Rightarrow> nat option \<times> 'z vdisk_scheme" where
  "alloc_desc s = (case List.find (\<lambda>i. vfree s i) [0..<NUM] of
     None \<Rightarrow> (None, s)
   | Some i \<Rightarrow> (Some i, s\<lparr>vfree := (vfree s)(i := False)\<rparr>))"

definition free_desc :: "nat \<Rightarrow> 'z vdisk_scheme \<Rightarrow> 'z vdisk_scheme kres" where
  "free_desc i s =
     panic_if (i \<ge> NUM) ''free_desc 1'' (
     panic_if (vfree s i) ''free_desc 2'' (
     Inr (s\<lparr>desc := (desc s)(i := no_desc), vfree := (vfree s)(i := True)\<rparr>)))"

function free_chain :: "nat \<Rightarrow> 'z vdisk_scheme \<Rightarrow> 'z vdisk_scheme kres" where
  "free_chain i s =
     (let flag = d_flags (desc s i); nxt = unat (d_next (desc s i)) in
      bnd (free_desc i s) (\<lambda>s.
      if flag AND VRING_DESC_F_NEXT \<noteq> 0 then free_chain nxt s else Inr s))"
  by pat_completeness auto
termination
proof (relation "measure (\<lambda>(i, s). card {i. i < NUM \<and> \<not> vfree s i})")
  fix i :: nat and s s' :: "'z vdisk_scheme" and flag nxt
  assume "free_desc i s = Inr s'"
  then have i: "i < NUM" "\<not> vfree s i" "vfree s' = (vfree s)(i := True)" by (auto simp: free_desc_def kres_simps)
  have "{j. j < NUM \<and> \<not> vfree s' j} \<subseteq> {j. j < NUM \<and> \<not> vfree s j} - {i}"
    unfolding i(3) using i by (auto split: if_splits)
  also have "\<dots> \<subset> {j. j < NUM \<and> \<not> vfree s j}" using i by auto
  finally show "((nxt, s'), i, s) \<in> measure (\<lambda>(i, s). card {i. i < NUM \<and> \<not> vfree s i})"
    by (simp add: psubset_card_mono)
qed simp

declare free_chain.simps [simp del]

primrec free_descs :: "nat list \<Rightarrow> 'z vdisk_scheme \<Rightarrow> 'z vdisk_scheme kres" where
  "free_descs [] s = Inr s"
| "free_descs (i # is) s = bnd (free_desc i s) (free_descs is)"

text \<open>The loop of \<^verbatim>\<open>alloc3_desc\<close>: \<open>k\<close> descriptors to go, those of \<open>idx\<close> found.\<close>

primrec alloc3_loop :: "nat \<Rightarrow> nat list \<Rightarrow> 'z vdisk_scheme \<Rightarrow> (nat list option \<times> 'z vdisk_scheme) kres" where
  "alloc3_loop 0 idx s = Inr (Some idx, s)"
| "alloc3_loop (Suc k) idx s = (case alloc_desc s of
     (None, s) \<Rightarrow> bnd (free_descs idx s) (\<lambda>s. Inr (None, s))
   | (Some i, s) \<Rightarrow> alloc3_loop k (idx @ [i]) s)"

definition alloc3_desc :: "'z vdisk_scheme \<Rightarrow> (nat list option \<times> 'z vdisk_scheme) kres" where
  "alloc3_desc s = alloc3_loop 3 [] s"

text \<open>
  \<^verbatim>\<open>virtio_disk_rw\<close> up to the wait for the interrupt, for a buffer of block \<open>bno\<close>: \<open>None\<close> when it has to wait for free descriptors.
  The sector is computed in 32 bits.
\<close>

definition sector_of :: "u32 \<Rightarrow> u64" where
  "sector_of bno = ucast (bno * (1024 div 512))"

definition format_descs :: "nat \<Rightarrow> bool \<Rightarrow> u32 \<Rightarrow> nat \<Rightarrow> nat \<Rightarrow> nat \<Rightarrow> 'z vdisk_scheme \<Rightarrow> 'z vdisk_scheme" where
  "format_descs b wr bno i0 i1 i2 s = s\<lparr>
     ops := (ops s)(i0 := \<lparr>r_type = if wr then VIRTIO_BLK_T_OUT else VIRTIO_BLK_T_IN, r_reserved = 0, r_sector = sector_of bno\<rparr>),
     desc := (desc s)(
       i0 := \<lparr>d_addr = OpsA i0, d_len = 16, d_flags = VRING_DESC_F_NEXT, d_next = of_nat i1\<rparr>,
       i1 := \<lparr>d_addr = DataA b, d_len = 1024, d_flags = (if wr then 0 else VRING_DESC_F_WRITE) OR VRING_DESC_F_NEXT, d_next = of_nat i2\<rparr>,
       i2 := \<lparr>d_addr = StatusA i0, d_len = 1, d_flags = VRING_DESC_F_WRITE, d_next = 0\<rparr>),
     info_status := (info_status s)(i0 := 0xff),
     b_disk := (b_disk s)(b := True),
     info_b := (info_b s)(i0 := Some b)\<rparr>"

definition rw_submit :: "nat \<Rightarrow> bool \<Rightarrow> u32 \<Rightarrow> 'z vdisk_scheme \<Rightarrow> (nat list option \<times> 'z vdisk_scheme) kres" where
  "rw_submit b wr bno s =
     bnd (alloc3_desc s) (\<lambda>(r, s). case r of
       None \<Rightarrow> Inr (None, s)
     | Some idx \<Rightarrow>
         let s = format_descs b wr bno (idx ! 0) (idx ! 1) (idx ! 2) s;
             s = s\<lparr>avail_ring := (avail_ring s)[unat (avail_idx s) mod NUM := of_nat (idx ! 0)]\<rparr> in
         Inr (Some idx, s\<lparr>avail_idx := avail_idx s + 1\<rparr>))"

text \<open>The rest of \<^verbatim>\<open>virtio_disk_rw\<close>, when \<^verbatim>\<open>b->disk\<close> is 0.\<close>

definition rw_finish :: "nat list \<Rightarrow> 'z vdisk_scheme \<Rightarrow> 'z vdisk_scheme kres" where
  "rw_finish idx s = free_chain (idx ! 0) (s\<lparr>info_b := (info_b s)(idx ! 0 := None)\<rparr>)"

text \<open>The handler: a completed chain whose \<^verbatim>\<open>info\<close> has no buffer would make it use a null pointer.\<close>

function virtio_disk_intr :: "'z vdisk_scheme \<Rightarrow> 'z vdisk_scheme kres" where
  "virtio_disk_intr s =
     (if used_idx s = used_ridx s then Inr s
      else
        let id = unat (used_ring s ! (unat (used_idx s) mod NUM)) in
        if id \<ge> NUM then Inl (Undef ''disk.info index'')
        else panic_if (info_status s id \<noteq> 0) ''virtio_disk_intr status'' (
          case info_b s id of
            None \<Rightarrow> Inl (Undef ''b->disk of null'')
          | Some b \<Rightarrow> virtio_disk_intr (s\<lparr>b_disk := (b_disk s)(b := False), used_idx := used_idx s + 1\<rparr>)))"
  by pat_completeness auto
termination
proof (relation "measure (\<lambda>s. unat (used_ridx s - used_idx s))")
  fix s :: "'z vdisk_scheme" and id b
  assume "used_idx s \<noteq> used_ridx s"
  then have "used_ridx s - used_idx s \<noteq> 0" by simp
  then have "unat (used_ridx s - used_idx s - 1) < unat (used_ridx s - used_idx s)" by (metis unat_minus_one diff_less unat_gt_0 zero_less_one)
  then show "(s\<lparr>b_disk := (b_disk s)(b := False), used_idx := used_idx s + 1\<rparr>, s) \<in> measure (\<lambda>s. unat (used_ridx s - used_idx s))"
    by (simp add: algebra_simps)
qed simp

declare virtio_disk_intr.simps [simp del]

text \<open>
  \<^verbatim>\<open>virtio_disk_init\<close>: \<open>reg r w\<close> is what register \<open>r\<close> of the device reads after the writes \<open>w\<close>. The result is the list of writes, the memory,
  and the driver's state with the queue memory zeroed.
\<close>

definition features_wanted :: "u64 \<Rightarrow> u64" where
  "features_wanted f = fold (\<lambda>b f. f AND NOT (push_bit b 1)) [5, 7, 11, 12, 27, 29, 28] f"

definition vdisk_zero :: vdisk where
  "vdisk_zero = \<lparr>desc = (\<lambda>_. no_desc), avail_idx = 0, avail_ring = replicate NUM 0, used_ridx = 0, used_ring = replicate NUM 0,
     vfree = (\<lambda>i. i < NUM), used_idx = 0, info_b = (\<lambda>_. None), info_status = (\<lambda>_. 0),
     ops = (\<lambda>_. \<lparr>r_type = 0, r_reserved = 0, r_sector = 0\<rparr>), b_disk = (\<lambda>_. False)\<rparr>"

definition zero_page :: "u64 \<Rightarrow> kmem \<Rightarrow> kmem" where
  "zero_page pa m = m\<lparr>mem := memset (mem m) pa 0 4096\<rparr>"

definition virtio_disk_init :: "(nat \<Rightarrow> (nat \<times> u32) list \<Rightarrow> u32) \<Rightarrow> kmem \<Rightarrow> ((nat \<times> u32) list \<times> kmem \<times> vdisk) kres" where
  "virtio_disk_init reg m =
     panic_if (reg 0x000 [] \<noteq> 0x74726976 \<or> reg 0x004 [] \<noteq> 2 \<or> reg 0x008 [] \<noteq> 2 \<or> reg 0x00c [] \<noteq> 0x554d4551) ''could not find virtio disk'' (
     let w = [(0x070, 0), (0x070, 1), (0x070, 3)];
         features = features_wanted (ucast (reg 0x010 w));
         w = w @ [(0x020, ucast features), (0x070, 11)];
         status = reg 0x070 w in
     panic_if (status AND 8 = 0) ''virtio disk FEATURES_OK unset'' (
     let w = w @ [(0x030, 0)] in
     panic_if (reg 0x044 w \<noteq> 0) ''virtio disk should not be ready'' (
     let mx = reg 0x034 w in
     panic_if (mx = 0) ''virtio disk has no queue 0'' (
     panic_if (unat mx < NUM) ''virtio disk max queue too short'' (
     bnd (kalloc m) (\<lambda>(de, m).
     bnd (kalloc m) (\<lambda>(av, m).
     bnd (kalloc m) (\<lambda>(us, m).
     panic_if (de = 0 \<or> av = 0 \<or> us = 0) ''virtio disk kalloc'' (
     let m = zero_page us (zero_page av (zero_page de m));
         w = w @ [(0x038, of_nat NUM), (0x080, ucast de), (0x084, ucast (drop_bit 32 de)), (0x090, ucast av), (0x094, ucast (drop_bit 32 av)),
           (0x0a0, ucast us), (0x0a4, ucast (drop_bit 32 us)), (0x044, 1), (0x070, status OR 4)] in
     Inr (w, m, vdisk_zero))))))))))"

section \<open>Driver and device\<close>

text \<open>
  \<open>dev_seen\<close> and \<open>dev_pend\<close> are the device's: how far it has looked at the available ring, and the chains it works on. \<open>vdata\<close> is the
  content of the buffers, \<open>vblocks\<close> that of the disk by the sector where a block starts, \<open>waiting\<close> the requests whose process is inside
  \<^verbatim>\<open>virtio_disk_rw\<close>.
\<close>

record vsys = vdisk +
  dev_seen :: u16
  dev_pend :: "nat list"
  vdata :: "nat \<Rightarrow> u8 list"
  vblocks :: "u64 \<Rightarrow> u8 list"
  waiting :: "(nat \<times> bool \<times> nat list) list"

text \<open>What the device does for the chain that starts at \<open>h\<close>: \<open>None\<close> if it is not a block request it can serve.\<close>

definition serve :: "nat \<Rightarrow> vsys \<Rightarrow> vsys option" where
  "serve h s =
     (let d0 = desc s h; d1 = desc s (unat (d_next d0)); d2 = desc s (unat (d_next d1)) in
      if d_flags d0 AND 1 = 0 \<or> d_flags d0 AND 2 \<noteq> 0 \<or> d_len d0 \<noteq> 16 \<or> d_flags d1 AND 1 = 0 \<or> d_len d1 \<noteq> 1024 \<or>
        d_flags d2 AND 1 \<noteq> 0 \<or> d_flags d2 AND 2 = 0 \<or> d_len d2 \<noteq> 1 then None
      else case (d_addr d0, d_addr d1, d_addr d2) of
        (OpsA k, DataA b, StatusA j) \<Rightarrow>
          let sec = r_sector (ops s k); s' = s\<lparr>info_status := (info_status s)(j := 0)\<rparr> in
          if r_type (ops s k) = 0 \<and> d_flags d1 AND 2 \<noteq> 0 then Some (s'\<lparr>vdata := (vdata s)(b := vblocks s sec)\<rparr>)
          else if r_type (ops s k) = 1 \<and> d_flags d1 AND 2 = 0 then Some (s'\<lparr>vblocks := (vblocks s)(sec := vdata s b)\<rparr>)
          else None
      | _ \<Rightarrow> None)"

inductive vstep :: "(nat \<Rightarrow> u32) \<Rightarrow> vsys \<Rightarrow> vsys \<Rightarrow> bool" for bno where
  submit: "b \<notin> fst ` set (waiting s) \<Longrightarrow> rw_submit b wr (bno b) s = Inr (Some idx, s') \<Longrightarrow>
    vstep bno s (s'\<lparr>waiting := (b, wr, idx) # waiting s\<rparr>)"
| full: "rw_submit b wr (bno b) s = Inr (None, s') \<Longrightarrow> vstep bno s s'"
| take: "dev_seen s \<noteq> avail_idx s \<Longrightarrow>
    vstep bno s (s\<lparr>dev_seen := dev_seen s + 1, dev_pend := unat (avail_ring s ! (unat (dev_seen s) mod NUM)) # dev_pend s\<rparr>)"
| complete: "h \<in> set (dev_pend s) \<Longrightarrow> serve h s = Some s' \<Longrightarrow>
    vstep bno s (s'\<lparr>dev_pend := remove1 h (dev_pend s), used_ring := (used_ring s)[unat (used_ridx s) mod NUM := of_nat h],
      used_ridx := used_ridx s + 1\<rparr>)"
| intr: "virtio_disk_intr s = Inr s' \<Longrightarrow> vstep bno s s'"
| finish: "(b, wr, idx) \<in> set (waiting s) \<Longrightarrow> \<not> b_disk s b \<Longrightarrow> rw_finish idx s = Inr s' \<Longrightarrow>
    vstep bno s (s'\<lparr>waiting := remove1 (b, wr, idx) (waiting s)\<rparr>)"

definition vstart :: "vsys \<Rightarrow> bool" where
  "vstart s \<longleftrightarrow> (\<exists>dt bl. s = vdisk.extend vdisk_zero \<lparr>dev_seen = 0, dev_pend = [], vdata = dt, vblocks = bl, waiting = []\<rparr>)"

definition vreach :: "(nat \<Rightarrow> u32) \<Rightarrow> vsys \<Rightarrow> bool" where
  "vreach bno s \<longleftrightarrow> (\<exists>s0. vstart s0 \<and> (vstep bno)\<^sup>*\<^sup>* s0 s)"

section \<open>Descriptors\<close>

definition freed :: "nat set \<Rightarrow> 'z vdisk_scheme \<Rightarrow> 'z vdisk_scheme" where
  "freed A s = s\<lparr>desc := (\<lambda>i. if i \<in> A then no_desc else desc s i), vfree := (\<lambda>i. vfree s i \<or> i \<in> A)\<rparr>"

definition taken :: "nat set \<Rightarrow> 'z vdisk_scheme \<Rightarrow> 'z vdisk_scheme" where
  "taken A s = s\<lparr>vfree := (\<lambda>i. vfree s i \<and> i \<notin> A)\<rparr>"

lemma freed_empty [simp]: "freed {} s = s" "taken {} s = s"
  by (simp_all add: freed_def taken_def)

lemma freed_freed: "freed A (freed B s) = freed (A \<union> B) s"
  by (cases s) (auto simp: freed_def fun_eq_iff)

lemma taken_taken: "taken A (taken B s) = taken (A \<union> B) s"
  by (cases s) (auto simp: taken_def fun_eq_iff)

lemma free_desc_ok: "i < NUM \<Longrightarrow> \<not> vfree s i \<Longrightarrow> free_desc i s = Inr (freed {i} s)"
  by (auto simp: free_desc_def freed_def fun_eq_iff panic_if_def)

lemma free_descs_ok:
  "distinct idx \<Longrightarrow> \<forall>i\<in>set idx. i < NUM \<and> \<not> vfree s i \<Longrightarrow> free_descs idx s = Inr (freed (set idx) s)"
proof (induction idx arbitrary: s)
  case (Cons i idx)
  have "free_descs idx (freed {i} s) = Inr (freed (set idx) (freed {i} s))"
    using Cons.prems by (intro Cons.IH) (auto simp: freed_def)
  then show ?case using Cons.prems free_desc_ok [of i s] by (simp add: freed_freed insert_commute)
qed simp

lemma alloc_desc_cases:
  obtains (none) "alloc_desc s = (None, s)" "\<And>i. i < NUM \<Longrightarrow> \<not> vfree s i"
  | (some) i where "alloc_desc s = (Some i, taken {i} s)" "i < NUM" "vfree s i"
proof (cases "List.find (\<lambda>i. vfree s i) [0..<NUM]")
  case None
  have "alloc_desc s = (None, s)" using None by (simp add: alloc_desc_def)
  moreover have "\<forall>i<NUM. \<not> vfree s i" using None by (simp add: find_None_iff)
  ultimately show ?thesis using none by blast
next
  case (Some i)
  then have "i < NUM" "vfree s i" by (auto simp: find_Some_iff)
  moreover have "alloc_desc s = (Some i, taken {i} s)" using Some by (auto simp: alloc_desc_def taken_def fun_eq_iff)
  ultimately show ?thesis using some by blast
qed

lemma alloc3_loop_cases:
  assumes "distinct idx" "\<forall>i\<in>set idx. i < NUM \<and> \<not> vfree s i"
  obtains (got) new where "alloc3_loop k idx s = Inr (Some (idx @ new), taken (set new) s)" "length new = k" "distinct new" "\<forall>i\<in>set new. i < NUM \<and> vfree s i"
  | (full) A where "alloc3_loop k idx s = Inr (None, freed (set idx \<union> A) (taken A s))" "\<forall>i\<in>A. i < NUM \<and> vfree s i"
  using assms
proof (induction k arbitrary: idx s thesis)
  case 0
  then show ?case by (auto intro: 0(1) [of "[]"])
next
  case (Suc k)
  show ?case
  proof (cases rule: alloc_desc_cases [of s])
    case none
    then show ?thesis using Suc.prems free_descs_ok [of idx s] by (auto intro: Suc.prems(2) [of "{}"])
  next
    case (some i)
    have "distinct (idx @ [i])" "\<forall>j\<in>set (idx @ [i]). j < NUM \<and> \<not> vfree (taken {i} s) j" using Suc.prems some by (auto simp: taken_def)
    then consider (got') new where "alloc3_loop k (idx @ [i]) (taken {i} s) = Inr (Some ((idx @ [i]) @ new), taken (set new) (taken {i} s))"
        "length new = k" "distinct new" "\<forall>j\<in>set new. j < NUM \<and> vfree (taken {i} s) j"
      | (full') A where "alloc3_loop k (idx @ [i]) (taken {i} s) = Inr (None, freed (set (idx @ [i]) \<union> A) (taken A (taken {i} s)))"
        "\<forall>j\<in>A. j < NUM \<and> vfree (taken {i} s) j"
      by (rule Suc.IH [rotated 2]) blast+
    then show ?thesis
    proof cases
      case got'
      then show ?thesis using some by (intro Suc.prems(1) [of "i # new"]) (auto simp: taken_taken, auto simp: taken_def)
    next
      case full'
      then show ?thesis using some by (intro Suc.prems(2) [of "insert i A"]) (auto simp: taken_taken Un_commute, auto simp: taken_def)
    qed
  qed
qed

lemma freed_taken: "\<forall>i\<in>A. vfree s i \<Longrightarrow> freed A (taken A s) = s\<lparr>desc := (\<lambda>i. if i \<in> A then no_desc else desc s i)\<rparr>"
  by (cases s) (auto simp: freed_def taken_def fun_eq_iff)

lemma of_nat_u16: "i < NUM \<Longrightarrow> unat (of_nat i :: u16) = i"
  by (simp add: NUM_def unat_of_nat take_bit_nat_eq_self)

lemma of_nat_u32: "i < NUM \<Longrightarrow> unat (of_nat i :: u32) = i"
  by (simp add: NUM_def unat_of_nat take_bit_nat_eq_self)

text \<open>A request as the driver formats it.\<close>

definition chain_ok :: "(nat \<Rightarrow> u32) \<Rightarrow> 'z vdisk_scheme \<Rightarrow> nat \<times> bool \<times> nat list \<Rightarrow> bool" where
  "chain_ok bno s r = (case r of (b, wr, idx) \<Rightarrow> length idx = 3 \<and>
     ops s (idx ! 0) = \<lparr>r_type = if wr then VIRTIO_BLK_T_OUT else VIRTIO_BLK_T_IN, r_reserved = 0, r_sector = sector_of (bno b)\<rparr> \<and>
     desc s (idx ! 0) = \<lparr>d_addr = OpsA (idx ! 0), d_len = 16, d_flags = VRING_DESC_F_NEXT, d_next = of_nat (idx ! 1)\<rparr> \<and>
     desc s (idx ! 1) = \<lparr>d_addr = DataA b, d_len = 1024, d_flags = (if wr then 0 else VRING_DESC_F_WRITE) OR VRING_DESC_F_NEXT, d_next = of_nat (idx ! 2)\<rparr> \<and>
     desc s (idx ! 2) = \<lparr>d_addr = StatusA (idx ! 0), d_len = 1, d_flags = VRING_DESC_F_WRITE, d_next = 0\<rparr> \<and>
     info_b s (idx ! 0) = Some b)"

definition chain_flags :: "'z vdisk_scheme \<Rightarrow> nat \<Rightarrow> nat \<Rightarrow> nat \<Rightarrow> bool" where
  "chain_flags s i0 i1 i2 \<longleftrightarrow> d_flags (desc s i0) AND 1 \<noteq> 0 \<and> d_next (desc s i0) = of_nat i1 \<and> d_flags (desc s i1) AND 1 \<noteq> 0 \<and>
     d_next (desc s i1) = of_nat i2 \<and> d_flags (desc s i2) AND 1 = 0"

lemma free_chain_ok:
  assumes c: "chain_flags s i0 i1 i2" and d: "distinct [i0, i1, i2]" and f: "\<forall>i\<in>{i0, i1, i2}. i < NUM \<and> \<not> vfree s i"
  shows "free_chain i0 s = Inr (freed {i0, i1, i2} s)"
proof -
  let ?s1 = "freed {i0} s" let ?s2 = "freed {i1} ?s1"
  have n: "unat (of_nat i1 :: u16) = i1" "unat (of_nat i2 :: u16) = i2" using f by (simp_all add: of_nat_u16)
  have "free_chain i0 s = free_chain i1 ?s1"
    using c f n free_desc_ok [of i0 s] by (subst free_chain.simps) (simp add: chain_flags_def VRING_DESC_F_NEXT_def Let_def)
  also have "\<dots> = free_chain i2 ?s2"
    using c d f n free_desc_ok [of i1 ?s1] by (subst free_chain.simps) (simp add: chain_flags_def VRING_DESC_F_NEXT_def Let_def freed_def)
  also have "\<dots> = Inr (freed {i2} ?s2)"
    using c d f free_desc_ok [of i2 ?s2] by (subst free_chain.simps) (simp add: chain_flags_def VRING_DESC_F_NEXT_def Let_def freed_def)
  finally show ?thesis by (simp add: freed_freed insert_commute)
qed

lemma chain_ok_flags: "chain_ok bno s (b, wr, idx) \<Longrightarrow> chain_flags s (idx ! 0) (idx ! 1) (idx ! 2)"
  by (auto simp: chain_ok_def chain_flags_def VRING_DESC_F_NEXT_def VRING_DESC_F_WRITE_def)

lemma desc_bits:
  "VRING_DESC_F_NEXT AND 1 \<noteq> 0" "VRING_DESC_F_NEXT AND 2 = 0" "VRING_DESC_F_WRITE AND 1 = 0" "VRING_DESC_F_WRITE AND 2 \<noteq> 0"
  "((if wr then 0 else VRING_DESC_F_WRITE) OR VRING_DESC_F_NEXT) AND 1 \<noteq> 0"
  "((if wr then 0 else VRING_DESC_F_WRITE) OR VRING_DESC_F_NEXT) AND 2 = 0 \<longleftrightarrow> wr"
  by (auto simp: VRING_DESC_F_NEXT_def VRING_DESC_F_WRITE_def)

lemma serve_ok:
  assumes c: "chain_ok bno s (b, wr, idx)" and i: "\<forall>i\<in>set idx. i < NUM"
  shows "serve (idx ! 0) s = Some (if wr then s\<lparr>info_status := (info_status s)(idx ! 0 := 0), vblocks := (vblocks s)(sector_of (bno b) := vdata s b)\<rparr>
     else s\<lparr>info_status := (info_status s)(idx ! 0 := 0), vdata := (vdata s)(b := vblocks s (sector_of (bno b)))\<rparr>)"
proof -
  have l: "length idx = 3" using c by (simp add: chain_ok_def)
  then have "idx ! 1 < NUM" "idx ! 2 < NUM" using i by simp_all
  then have n: "unat (of_nat (idx ! 1) :: u16) = idx ! 1" "unat (of_nat (idx ! 2) :: u16) = idx ! 2" by (simp_all only: of_nat_u16)
  let ?d0 = "desc s (idx ! 0)" and ?d1 = "desc s (idx ! 1)" and ?d2 = "desc s (idx ! 2)"
  have d: "d_flags ?d0 = VRING_DESC_F_NEXT" "d_len ?d0 = 16" "d_addr ?d0 = OpsA (idx ! 0)" "unat (d_next ?d0) = idx ! 1"
    "d_flags ?d1 = (if wr then 0 else VRING_DESC_F_WRITE) OR VRING_DESC_F_NEXT" "d_len ?d1 = 1024" "d_addr ?d1 = DataA b" "unat (d_next ?d1) = idx ! 2"
    "d_flags ?d2 = VRING_DESC_F_WRITE" "d_len ?d2 = 1" "d_addr ?d2 = StatusA (idx ! 0)"
    and o: "ops s (idx ! 0) = \<lparr>r_type = if wr then VIRTIO_BLK_T_OUT else VIRTIO_BLK_T_IN, r_reserved = 0, r_sector = sector_of (bno b)\<rparr>"
    using c n by (simp_all add: chain_ok_def)
  show ?thesis unfolding serve_def Let_def d by (simp add: desc_bits o VIRTIO_BLK_T_OUT_def VIRTIO_BLK_T_IN_def)
qed

section \<open>Invariant\<close>

interpretation vq: ring_counters NUM "TYPE(16)"
  by unfold_locales (simp_all add: NUM_def)

text \<open>The heads of the chains the device has not looked at, and of those it has returned and the driver has not seen.\<close>

definition submitted :: "vsys \<Rightarrow> nat list" where
  "submitted s = map unat (ring_list NUM (avail_ring s) (dev_seen s) (avail_idx s))"

definition returned :: "vsys \<Rightarrow> nat list" where
  "returned s = map unat (ring_list NUM (used_ring s) (used_idx s) (used_ridx s))"

definition heads :: "vsys \<Rightarrow> nat list" where
  "heads s = map (\<lambda>(b, wr, idx). idx ! 0) (waiting s)"

definition descs :: "vsys \<Rightarrow> nat list" where
  "descs s = concat (map (\<lambda>(b, wr, idx). idx) (waiting s))"

definition busy :: "vsys \<Rightarrow> nat list" where
  "busy s = submitted s @ dev_pend s @ returned s"

definition vinv :: "(nat \<Rightarrow> u32) \<Rightarrow> vsys \<Rightarrow> bool" where
  "vinv bno s \<longleftrightarrow> length (avail_ring s) = NUM \<and> length (used_ring s) = NUM \<and>
     (\<forall>r\<in>set (waiting s). chain_ok bno s r) \<and> distinct (descs s) \<and> (\<forall>i. vfree s i \<longleftrightarrow> i < NUM \<and> i \<notin> set (descs s)) \<and>
     set (descs s) \<subseteq> {..<NUM} \<and> distinct (map fst (waiting s)) \<and> distinct (busy s) \<and> set (busy s) \<subseteq> set (heads s) \<and>
     (\<forall>(b, wr, idx)\<in>set (waiting s). b_disk s b \<longleftrightarrow> idx ! 0 \<in> set (busy s)) \<and> (\<forall>h\<in>set (returned s). info_status s h = 0)"

lemma vinvD:
  assumes "vinv bno s"
  shows "length (avail_ring s) = NUM" "length (used_ring s) = NUM" "r \<in> set (waiting s) \<Longrightarrow> chain_ok bno s r" "distinct (descs s)"
    "vfree s i \<longleftrightarrow> i < NUM \<and> i \<notin> set (descs s)" "i \<in> set (descs s) \<Longrightarrow> i < NUM" "distinct (map fst (waiting s))" "distinct (busy s)"
    "set (busy s) \<subseteq> set (heads s)" "(b, wr, idx) \<in> set (waiting s) \<Longrightarrow> b_disk s b \<longleftrightarrow> idx ! 0 \<in> set (busy s)"
    "h \<in> set (returned s) \<Longrightarrow> info_status s h = 0"
  using assms by (auto simp: vinv_def)

lemma concat_inj:
  assumes "distinct (concat (map f xs))" "a \<in> set xs" "b \<in> set xs" "x \<in> set (f a)" "x \<in> set (f b)"
  shows "a = b"
  using assms
proof (induction xs)
  case (Cons y ys)
  then have "x \<in> set (concat (map f ys))" if "c \<in> set ys" "x \<in> set (f c)" for c using that by auto
  then show ?case using Cons by auto
qed simp

lemma chain_idx:
  assumes "vinv bno s" "(b, wr, idx) \<in> set (waiting s)"
  shows "length idx = 3" "set idx \<subseteq> set (descs s)" "\<forall>i\<in>set idx. i < NUM" "idx ! 0 \<in> set idx" "idx ! 1 \<in> set idx" "idx ! 2 \<in> set idx" "distinct idx"
proof -
  show l: "length idx = 3" using vinvD(3) [OF assms] by (simp add: chain_ok_def)
  then show "idx ! 0 \<in> set idx" "idx ! 1 \<in> set idx" "idx ! 2 \<in> set idx" by simp_all
  show d: "set idx \<subseteq> set (descs s)" using assms(2) by (force simp: descs_def)
  show "\<forall>i\<in>set idx. i < NUM" using d vinvD(6) [OF assms(1)] by blast
  have "idx \<in> set (map (\<lambda>(b, wr, idx). idx) (waiting s))" using assms(2) by force
  then show "distinct idx" using vinvD(4) [OF assms(1)] by (auto simp: descs_def distinct_concat_iff)
qed

lemma chain_unique:
  assumes "vinv bno s" "(b, wr, idx) \<in> set (waiting s)" "(b', wr', idx') \<in> set (waiting s)" "x \<in> set idx" "x \<in> set idx'"
  shows "b' = b \<and> wr' = wr \<and> idx' = idx"
  using concat_inj [OF vinvD(4) [OF assms(1), unfolded descs_def] assms(2,3)] assms(4,5) by auto

lemma buf_unique:
  "vinv bno s \<Longrightarrow> (b, wr, idx) \<in> set (waiting s) \<Longrightarrow> (b, wr', idx') \<in> set (waiting s) \<Longrightarrow> wr' = wr \<and> idx' = idx"
  using eq_key_imp_eq_value [of "waiting s" b "(wr, idx)" "(wr', idx')"] vinvD(7) by blast

lemma heads_descs: "vinv bno s \<Longrightarrow> set (heads s) \<subseteq> set (descs s)"
  using chain_idx(2,4) by (fastforce simp: heads_def)

lemma head_request: "h \<in> set (heads s) \<Longrightarrow> \<exists>b wr idx. (b, wr, idx) \<in> set (waiting s) \<and> h = idx ! 0"
  by (auto simp: heads_def)

lemma length_concat_3: "\<forall>x\<in>set xs. length (f x) = 3 \<Longrightarrow> length (concat (map f xs)) = 3 * length xs"
  by (induction xs) simp_all

lemma few_waiting:
  assumes "vinv bno s"
  shows "length (waiting s) \<le> 2" "length (busy s) \<le> 2"
proof -
  have "length (descs s) = 3 * length (waiting s)"
    unfolding descs_def using chain_idx(1) [OF assms] by (intro length_concat_3) auto
  moreover have "length (descs s) \<le> NUM"
    using card_mono [of "{..<NUM}" "set (descs s)"] vinvD(4,6) [OF assms] by (auto simp: distinct_card)
  ultimately show w: "length (waiting s) \<le> 2" by (simp add: NUM_def)
  have "length (busy s) \<le> length (heads s)"
    using card_mono [OF _ vinvD(9) [OF assms]] vinvD(8) [OF assms] card_length [of "heads s"] by (simp add: distinct_card)
  then show "length (busy s) \<le> 2" using w by (simp add: heads_def)
qed

text \<open>Only the descriptors of a chain matter to it.\<close>

lemma chain_ok_cong:
  assumes "chain_ok bno s (b, wr, idx)" "\<And>i. i \<in> set idx \<Longrightarrow> desc s' i = desc s i \<and> ops s' i = ops s i \<and> info_b s' i = info_b s i"
  shows "chain_ok bno s' (b, wr, idx)"
proof -
  have "length idx = 3" using assms(1) by (simp add: chain_ok_def)
  then have "idx ! 0 \<in> set idx" "idx ! 1 \<in> set idx" "idx ! 2 \<in> set idx" by simp_all
  then show ?thesis using assms by (simp add: chain_ok_def)
qed

section \<open>Steps\<close>

lemma rw_submit_cases:
  fixes s :: vsys
  obtains (got) idx where "rw_submit b wr bn s = Inr (Some idx, (let s = format_descs b wr bn (idx ! 0) (idx ! 1) (idx ! 2) (taken (set idx) s) in
        s\<lparr>avail_ring := (avail_ring s)[unat (avail_idx s) mod NUM := of_nat (idx ! 0)], avail_idx := avail_idx s + 1\<rparr>))"
      "length idx = 3" "distinct idx" "\<forall>i\<in>set idx. i < NUM \<and> vfree s i"
  | (full) A where "rw_submit b wr bn s = Inr (None, s\<lparr>desc := (\<lambda>i. if i \<in> A then no_desc else desc s i)\<rparr>)" "\<forall>i\<in>A. vfree s i"
proof (rule alloc3_loop_cases [of "[]" s 3])
  fix new assume "alloc3_loop 3 [] s = Inr (Some ([] @ new), taken (set new) s)" "length new = 3" "distinct new" "\<forall>i\<in>set new. i < NUM \<and> vfree s i"
  then show thesis by (intro got [of new]) (simp_all add: rw_submit_def alloc3_desc_def Let_def)
next
  fix A assume "alloc3_loop 3 [] s = Inr (None, freed (set [] \<union> A) (taken A s))" "\<forall>i\<in>A. i < NUM \<and> vfree s i"
  then show thesis using freed_taken [of A s] by (intro full [of A]) (simp_all add: rw_submit_def alloc3_desc_def)
qed simp_all

lemma vinv_full:
  assumes "vinv bno s" "\<forall>i\<in>A. vfree s i"
  shows "vinv bno (s\<lparr>desc := (\<lambda>i. if i \<in> A then no_desc else desc s i)\<rparr>)"
proof -
  let ?s = "s\<lparr>desc := (\<lambda>i. if i \<in> A then no_desc else desc s i)\<rparr>"
  have e: "descs ?s = descs s" "busy ?s = busy s" "heads ?s = heads s" "returned ?s = returned s"
    by (simp_all add: descs_def busy_def heads_def returned_def submitted_def)
  have "chain_ok bno ?s r" if "r \<in> set (waiting s)" for r
  proof (cases r)
    case (fields b wr idx)
    have "set idx \<inter> A = {}" using chain_idx(2) [OF assms(1)] that fields vinvD(5) [OF assms(1)] assms(2) by blast
    then have "desc ?s k = desc s k" if "k \<in> set idx" for k using that by auto
    then show ?thesis using chain_ok_cong [of bno s b wr idx ?s] vinvD(3) [OF assms(1) that] fields by simp
  qed
  then show ?thesis using assms(1) unfolding vinv_def e by simp
qed

lemma vinv_submit:
  fixes wr :: bool
  assumes inv: "vinv bno s" and b: "b \<notin> fst ` set (waiting s)" and idx: "length idx = 3" "distinct idx" "\<forall>i\<in>set idx. i < NUM \<and> vfree s i"
  defines "s1 \<equiv> format_descs b wr (bno b) (idx ! 0) (idx ! 1) (idx ! 2) (taken (set idx) s)"
  defines "s' \<equiv> s1\<lparr>avail_ring := (avail_ring s1)[unat (avail_idx s1) mod NUM := of_nat (idx ! 0)], avail_idx := avail_idx s1 + 1, waiting := (b, wr, idx) # waiting s\<rparr>"
  shows "vinv bno s'" "submitted s' = submitted s @ [idx ! 0]" "returned s' = returned s"
proof -
  have i: "idx ! 0 \<in> set idx" "idx ! 1 \<in> set idx" "idx ! 2 \<in> set idx" "idx ! 0 \<noteq> idx ! 1" "idx ! 0 \<noteq> idx ! 2" "idx ! 1 \<noteq> idx ! 2"
    using idx(1,2) by (auto simp: nth_eq_iff_index_eq)
  have new: "set idx \<inter> set (descs s) = {}" using idx(3) vinvD(5) [OF inv] by blast
  have ax: "avail_idx s1 = avail_idx s" "avail_ring s1 = avail_ring s" "dev_seen s1 = dev_seen s" by (simp_all add: s1_def format_descs_def taken_def)
  have "length (submitted s) < NUM" using few_waiting(2) [OF inv] by (simp add: busy_def NUM_def)
  then have "unat (avail_idx s - dev_seen s) < NUM" by (simp add: submitted_def)
  then show sub: "submitted s' = submitted s @ [idx ! 0]"
    using vq.push [OF _ vinvD(1) [OF inv]] i(1) idx(3) of_nat_u16 by (simp add: submitted_def s'_def ax)
  show ret: "returned s' = returned s" by (simp add: returned_def s'_def s1_def format_descs_def taken_def)
  have hd: "idx ! 0 \<notin> set (heads s)" using heads_descs [OF inv] new i(1) by blast
  have e: "descs s' = idx @ descs s" "heads s' = idx ! 0 # heads s" "set (busy s') = insert (idx ! 0) (set (busy s))"
    "distinct (busy s')" "dev_pend s' = dev_pend s"
    using vinvD(8,9) [OF inv] hd sub ret by (auto simp: descs_def heads_def busy_def s'_def s1_def format_descs_def taken_def)
  have ok: "chain_ok bno s' (b, wr, idx)" using i idx(1) by (simp add: chain_ok_def s'_def s1_def format_descs_def taken_def)
  have old: "chain_ok bno s' r" if r: "r \<in> set (waiting s)" for r
  proof (cases r)
    case (fields b' wr' idx')
    have "set idx' \<inter> set idx = {}" using chain_idx(2) [OF inv] r fields new by blast
    then have "desc s' k = desc s k \<and> ops s' k = ops s k \<and> info_b s' k = info_b s k" if "k \<in> set idx'" for k
      using that i(1-3) by (auto simp: s'_def s1_def format_descs_def taken_def)
    then show ?thesis using chain_ok_cong [of bno s b' wr' idx' s'] vinvD(3) [OF inv r] fields by blast
  qed
  have bd: "b_disk s' b' \<longleftrightarrow> idx' ! 0 \<in> set (busy s')" if r: "(b', wr', idx') \<in> set (waiting s')" for b' wr' idx'
  proof (cases "b' = b")
    case True
    then have "idx' = idx" using r b by (force simp: s'_def)
    then show ?thesis using True e(3) by (simp add: s'_def s1_def format_descs_def)
  next
    case False
    then have r': "(b', wr', idx') \<in> set (waiting s)" using r by (simp add: s'_def)
    then have "idx' ! 0 \<noteq> idx ! 0" using chain_idx(2,4) [OF inv r'] new i(1) by force
    then show ?thesis using vinvD(10) [OF inv r'] False e(3) by (simp add: s'_def s1_def format_descs_def taken_def)
  qed
  have st: "info_status s' h = 0" if "h \<in> set (returned s)" for h
    using that vinvD(9,11) [OF inv] hd by (auto simp: busy_def s'_def s1_def format_descs_def taken_def)
  have fr: "vfree s' k \<longleftrightarrow> k < NUM \<and> k \<notin> set (descs s')" for k
    using vinvD(5) [OF inv] e(1) by (simp add: s'_def s1_def format_descs_def taken_def) blast
  have "length (avail_ring s') = NUM" "length (used_ring s') = NUM" using vinvD(1,2) [OF inv] by (simp_all add: s'_def s1_def format_descs_def taken_def)
  moreover have "\<forall>r\<in>set (waiting s'). chain_ok bno s' r" using ok old by (simp add: s'_def)
  moreover have "distinct (descs s')" "set (descs s') \<subseteq> {..<NUM}" using e(1) vinvD(4,6) [OF inv] new idx(2,3) by auto
  moreover have "distinct (map fst (waiting s'))" using vinvD(7) [OF inv] b by (simp add: s'_def)
  moreover have "set (busy s') \<subseteq> set (heads s')" using e(2,3) vinvD(9) [OF inv] by auto
  ultimately show "vinv bno s'" unfolding vinv_def using e(4) bd st fr ret by auto
qed

lemma vinv_busy:
  assumes inv: "vinv bno s" and same: "waiting s' = waiting s" "desc s' = desc s" "ops s' = ops s" "info_b s' = info_b s" "vfree s' = vfree s"
    and len: "length (avail_ring s') = NUM" "length (used_ring s') = NUM"
    and bus: "distinct (busy s')" "set (busy s') \<subseteq> set (busy s)"
    and bd: "\<And>b wr idx. (b, wr, idx) \<in> set (waiting s) \<Longrightarrow> b_disk s' b \<longleftrightarrow> idx ! 0 \<in> set (busy s')"
    and st: "\<And>h. h \<in> set (returned s') \<Longrightarrow> info_status s' h = 0"
  shows "vinv bno s'"
proof -
  have e: "descs s' = descs s" "heads s' = heads s" by (simp_all add: descs_def heads_def same)
  have "chain_ok bno s' r \<longleftrightarrow> chain_ok bno s r" for r by (simp add: chain_ok_def same)
  then show ?thesis using inv len bus bd st unfolding vinv_def e by (auto simp: same)
qed

lemma vinv_take:
  assumes inv: "vinv bno s" and n: "dev_seen s \<noteq> avail_idx s"
  defines "h \<equiv> unat (avail_ring s ! (unat (dev_seen s) mod NUM))"
  defines "s' \<equiv> s\<lparr>dev_seen := dev_seen s + 1, dev_pend := h # dev_pend s\<rparr>"
  shows "vinv bno s'" "submitted s = h # submitted s'" "returned s' = returned s"
proof -
  show sub: "submitted s = h # submitted s'" using vq.pop [OF n, of "avail_ring s"] by (simp add: submitted_def s'_def h_def)
  show ret: "returned s' = returned s" by (simp add: returned_def s'_def)
  have p: "dev_pend s' = h # dev_pend s" by (simp add: s'_def)
  have b: "set (busy s') = set (busy s)" "distinct (busy s')" using vinvD(8) [OF inv] unfolding busy_def sub ret p by auto
  show "vinv bno s'"
  proof (rule vinv_busy [OF inv])
    show "b_disk s' b \<longleftrightarrow> idx ! 0 \<in> set (busy s')" if "(b, wr, idx) \<in> set (waiting s)" for b wr idx
      unfolding b using vinvD(10) [OF inv that] by (simp add: s'_def)
    show "info_status s' k = 0" if "k \<in> set (returned s')" for k using that vinvD(11) [OF inv] ret by (simp add: s'_def)
  qed (use b vinvD(1,2) [OF inv] in \<open>simp_all add: s'_def\<close>)
qed

lemma vinv_complete:
  assumes inv: "vinv bno s" and h: "h \<in> set (dev_pend s)"
    and s1: "s1 = s\<lparr>info_status := (info_status s)(h := 0), vdata := dt, vblocks := bl\<rparr>"
  defines "s' \<equiv> s1\<lparr>dev_pend := remove1 h (dev_pend s), used_ring := (used_ring s)[unat (used_ridx s) mod NUM := of_nat h], used_ridx := used_ridx s + 1\<rparr>"
  shows "vinv bno s'" "submitted s' = submitted s" "returned s' = returned s @ [h]"
proof -
  have hh: "h \<in> set (heads s)" using h vinvD(9) [OF inv] by (auto simp: busy_def)
  then have hn: "h < NUM" using heads_descs [OF inv] vinvD(6) [OF inv] by blast
  show sub: "submitted s' = submitted s" by (simp add: submitted_def s'_def s1)
  have "length (returned s) < NUM" using few_waiting(2) [OF inv] by (simp add: busy_def NUM_def)
  then have "unat (used_ridx s - used_idx s) < NUM" by (simp add: returned_def)
  then show ret: "returned s' = returned s @ [h]"
    using vq.push [OF _ vinvD(2) [OF inv]] of_nat_u32 [OF hn] by (simp add: returned_def s'_def s1)
  have p: "dev_pend s' = remove1 h (dev_pend s)" by (simp add: s'_def)
  have d: "distinct (dev_pend s)" "h \<notin> set (submitted s)" "h \<notin> set (returned s)" using vinvD(8) [OF inv] h by (auto simp: busy_def)
  have b: "set (busy s') = set (busy s)" "distinct (busy s')" using vinvD(8) [OF inv] h d unfolding busy_def sub ret p by auto
  show "vinv bno s'"
  proof (rule vinv_busy [OF inv])
    show "b_disk s' b \<longleftrightarrow> idx ! 0 \<in> set (busy s')" if "(b, wr, idx) \<in> set (waiting s)" for b wr idx
      unfolding b using vinvD(10) [OF inv that] by (simp add: s'_def s1)
    show "info_status s' k = 0" if "k \<in> set (returned s')" for k using that vinvD(11) [OF inv] ret by (auto simp: s'_def s1)
  qed (use b vinvD(1,2) [OF inv] in \<open>simp_all add: s'_def s1\<close>)
qed

lemma vinv_intr:
  assumes "vinv bno s"
  shows "\<exists>s'. virtio_disk_intr s = Inr s' \<and> vinv bno s' \<and> submitted s' = submitted s \<and> dev_pend s' = dev_pend s \<and> returned s' = [] \<and>
    waiting s' = waiting s \<and> vdata s' = vdata s \<and> vblocks s' = vblocks s"
  using assms
proof (induction "unat (used_ridx s - used_idx s)" arbitrary: s rule: less_induct)
  case less
  note inv = less.prems
  show ?case
  proof (cases "used_idx s = used_ridx s")
    case True
    then show ?thesis using inv by (intro exI [of _ s]) (subst virtio_disk_intr.simps, simp add: returned_def)
  next
    case False
    let ?h = "unat (used_ring s ! (unat (used_idx s) mod NUM))"
    have ret: "returned s = ?h # map unat (ring_list NUM (used_ring s) (used_idx s + 1) (used_ridx s))"
      using vq.pop [OF False, of "used_ring s"] by (simp add: returned_def)
    then have "?h \<in> set (heads s)" using vinvD(9) [OF inv] by (auto simp: busy_def)
    then obtain b wr idx where r: "(b, wr, idx) \<in> set (waiting s)" "?h = idx ! 0" using head_request by blast
    have hn: "?h < NUM" using chain_idx(3,4) [OF inv r(1)] r(2) by simp
    have st: "info_status s ?h = 0" using vinvD(11) [OF inv] ret by simp
    have ib: "info_b s ?h = Some b" using vinvD(3) [OF inv r(1)] r(2) by (simp add: chain_ok_def)
    let ?s = "s\<lparr>b_disk := (b_disk s)(b := False), used_idx := used_idx s + 1\<rparr>"
    have step: "virtio_disk_intr s = virtio_disk_intr ?s" using False hn st ib by (subst virtio_disk_intr.simps) (simp add: Let_def)
    have e: "submitted ?s = submitted s" "dev_pend ?s = dev_pend s" "returned s = ?h # returned ?s" using ret by (simp_all add: submitted_def returned_def)
    have b: "set (busy ?s) = set (busy s) - {?h}" "distinct (busy ?s)" using vinvD(8) [OF inv] unfolding busy_def e by auto
    have inv': "vinv bno ?s"
    proof (rule vinv_busy [OF inv])
      show "b_disk ?s b' \<longleftrightarrow> idx' ! 0 \<in> set (busy ?s)" if r': "(b', wr', idx') \<in> set (waiting s)" for b' wr' idx'
      proof (cases "b' = b")
        case True
        then have "idx' = idx" using buf_unique [OF inv r(1)] r' by blast
        then show ?thesis unfolding b using True r(2) by simp
      next
        case False
        then have "idx' ! 0 \<noteq> ?h" using chain_unique [OF inv r(1) r'] chain_idx(4) [OF inv r(1)] chain_idx(4) [OF inv r'] r(2) by metis
        then show ?thesis unfolding b using False vinvD(10) [OF inv r'] by simp
      qed
      show "info_status ?s k = 0" if "k \<in> set (returned ?s)" for k using that vinvD(11) [OF inv] e(3) by simp
    qed (use b vinvD(1,2) [OF inv] in simp_all)
    have "unat (used_ridx s - (used_idx s + 1)) < unat (used_ridx s - used_idx s)"
      using arg_cong [OF e(3), of length] by (simp add: returned_def)
    then show ?thesis using less.hyps [of ?s] inv' e step by auto
  qed
qed

lemma concat_remove1:
  assumes "distinct (concat (map f xs))" "x \<in> set xs" "distinct xs"
  shows "set (concat (map f (remove1 x xs))) = set (concat (map f xs)) - set (f x)" "distinct (concat (map f (remove1 x xs)))"
  using assms by (induction xs) auto

lemma vinv_finish:
  assumes inv: "vinv bno s" and r: "(b, wr, idx) \<in> set (waiting s)" and nd: "\<not> b_disk s b"
  defines "s1 \<equiv> freed (set idx) (s\<lparr>info_b := (info_b s)(idx ! 0 := None)\<rparr>)"
  defines "s' \<equiv> s1\<lparr>waiting := remove1 (b, wr, idx) (waiting s)\<rparr>"
  shows "rw_finish idx s = Inr s1" "vinv bno s'" "submitted s' = submitted s" "returned s' = returned s" "dev_pend s' = dev_pend s" "idx ! 0 \<notin> set (busy s)"
proof -
  note i = chain_idx [OF inv r]
  let ?s = "s\<lparr>info_b := (info_b s)(idx ! 0 := None)\<rparr>"
  have three: "idx = [idx ! 0, idx ! 1, idx ! 2]" using i(1) by (auto simp: list_eq_iff_nth_eq less_Suc_eq numeral_3_eq_3 numeral_2_eq_2)
  then have set: "set idx = {idx ! 0, idx ! 1, idx ! 2}" "distinct [idx ! 0, idx ! 1, idx ! 2]" using i(7) by (metis list.set(1) list.set(2)) (use three i(7) in metis)
  have "chain_flags ?s (idx ! 0) (idx ! 1) (idx ! 2)" using chain_ok_flags [OF vinvD(3) [OF inv r]] by (simp add: chain_flags_def)
  moreover have "\<forall>k\<in>{idx ! 0, idx ! 1, idx ! 2}. k < NUM \<and> \<not> vfree ?s k" unfolding set(1) [symmetric] using i(2,3) vinvD(5) [OF inv] by auto
  ultimately show "rw_finish idx s = Inr s1" unfolding rw_finish_def s1_def set(1) by (intro free_chain_ok set(2))
  show e: "submitted s' = submitted s" "returned s' = returned s" "dev_pend s' = dev_pend s" by (simp_all add: s'_def s1_def freed_def submitted_def returned_def)
  then have bs: "busy s' = busy s" by (simp add: busy_def)
  show nb: "idx ! 0 \<notin> set (busy s)" using vinvD(10) [OF inv r] nd by simp
  have dw: "distinct (waiting s)" using vinvD(7) [OF inv] by (simp add: distinct_map)
  have w: "set (waiting s') = set (waiting s) - {(b, wr, idx)}" using dw by (simp add: s'_def)
  have ds: "set (descs s') = set (descs s) - set idx" "distinct (descs s')"
    using concat_remove1 [OF vinvD(4) [OF inv, unfolded descs_def] r dw] by (simp_all add: descs_def s'_def)
  have ok: "chain_ok bno s' q" if q: "q \<in> set (waiting s')" for q
  proof (cases q)
    case (fields b' wr' idx')
    then have q': "(b', wr', idx') \<in> set (waiting s)" "(b', wr', idx') \<noteq> (b, wr, idx)" using q w by auto
    then have "set idx' \<inter> set idx = {}" using chain_unique [OF inv r q'(1)] by blast
    then have "desc s' k = desc s k \<and> ops s' k = ops s k \<and> info_b s' k = info_b s k" if "k \<in> set idx'" for k
      using that i(4) by (auto simp: s'_def s1_def freed_def)
    then show ?thesis using chain_ok_cong [of bno s b' wr' idx' s'] vinvD(3) [OF inv q'(1)] fields by blast
  qed
  have hs: "set (busy s') \<subseteq> set (heads s')" unfolding bs
  proof
    fix h assume h: "h \<in> set (busy s)"
    then obtain b' wr' idx' where "(b', wr', idx') \<in> set (waiting s)" "h = idx' ! 0" using vinvD(9) [OF inv] head_request by blast
    moreover from this h nb have "(b', wr', idx') \<in> set (waiting s')" using w by auto
    ultimately show "h \<in> set (heads s')" by (force simp: heads_def)
  qed
  have fr: "vfree s' k \<longleftrightarrow> k < NUM \<and> k \<notin> set (descs s')" for k
    using vinvD(5) [OF inv, of k] ds(1) i(3) by (auto simp: s'_def s1_def freed_def)
  have "distinct (map fst (waiting s'))" using vinvD(7) [OF inv] dw by (simp add: s'_def distinct_map inj_on_diff)
  moreover have "length (avail_ring s') = NUM" "length (used_ring s') = NUM" using vinvD(1,2) [OF inv] by (simp_all add: s'_def s1_def freed_def)
  moreover have "set (descs s') \<subseteq> {..<NUM}" using ds(1) vinvD(6) [OF inv] by auto
  moreover have "b_disk s' b' \<longleftrightarrow> idx' ! 0 \<in> set (busy s')" if "(b', wr', idx') \<in> set (waiting s')" for b' wr' idx'
    using that w vinvD(10) [OF inv, of b' wr' idx'] bs by (simp add: s'_def s1_def freed_def)
  moreover have "info_status s' h = 0" if "h \<in> set (returned s')" for h using that e(2) vinvD(11) [OF inv] by (simp add: s'_def s1_def freed_def)
  ultimately show "vinv bno s'" unfolding vinv_def using ok ds(2) fr hs vinvD(8) [OF inv] bs by auto
qed

section \<open>Specification\<close>

text \<open>A disk that serves outstanding requests in any order, each by one transfer; \<open>sec b\<close> is where the block of buffer \<open>b\<close> starts.\<close>

record aspec =
  a_todo :: "(nat \<times> bool) set"
  a_done :: "(nat \<times> bool) set"
  a_data :: "nat \<Rightarrow> u8 list"
  a_blocks :: "u64 \<Rightarrow> u8 list"

definition transfer :: "(nat \<Rightarrow> u64) \<Rightarrow> nat \<Rightarrow> bool \<Rightarrow> aspec \<Rightarrow> aspec" where
  "transfer sec b wr a = (if wr then a\<lparr>a_blocks := (a_blocks a)(sec b := a_data a b)\<rparr> else a\<lparr>a_data := (a_data a)(b := a_blocks a (sec b))\<rparr>)"

inductive astep :: "(nat \<Rightarrow> u64) \<Rightarrow> aspec \<Rightarrow> aspec \<Rightarrow> bool" for sec where
  request: "b \<notin> fst ` (a_todo a \<union> a_done a) \<Longrightarrow> astep sec a (a\<lparr>a_todo := insert (b, wr) (a_todo a)\<rparr>)"
| serve_one: "(b, wr) \<in> a_todo a \<Longrightarrow>
    astep sec a (transfer sec b wr (a\<lparr>a_todo := a_todo a - {(b, wr)}, a_done := insert (b, wr) (a_done a)\<rparr>))"
| return: "(b, wr) \<in> a_done a \<Longrightarrow> astep sec a (a\<lparr>a_done := a_done a - {(b, wr)}\<rparr>)"

definition unserved :: "vsys \<Rightarrow> nat set" where
  "unserved s = set (submitted s) \<union> set (dev_pend s)"

definition abs_disk :: "vsys \<Rightarrow> aspec" where
  "abs_disk s = \<lparr>a_todo = {(b, wr). \<exists>idx. (b, wr, idx) \<in> set (waiting s) \<and> idx ! 0 \<in> unserved s},
     a_done = {(b, wr). \<exists>idx. (b, wr, idx) \<in> set (waiting s) \<and> idx ! 0 \<notin> unserved s}, a_data = vdata s, a_blocks = vblocks s\<rparr>"

lemma abs_same: "waiting s' = waiting s \<Longrightarrow> unserved s' = unserved s \<Longrightarrow> vdata s' = vdata s \<Longrightarrow> vblocks s' = vblocks s \<Longrightarrow> abs_disk s' = abs_disk s"
  by (simp add: abs_disk_def)

lemma abs_submit:
  assumes inv: "vinv bno s" and b: "b \<notin> fst ` set (waiting s)" and h: "idx ! 0 \<notin> set (heads s)"
    and s': "waiting s' = (b, wr, idx) # waiting s" "unserved s' = insert (idx ! 0) (unserved s)" "vdata s' = vdata s" "vblocks s' = vblocks s"
  shows "astep sec (abs_disk s) (abs_disk s')"
proof -
  have "idx' ! 0 \<noteq> idx ! 0" if "(b', wr', idx') \<in> set (waiting s)" for b' wr' idx' using that h by (force simp: heads_def)
  then have "abs_disk s' = (abs_disk s)\<lparr>a_todo := insert (b, wr) (a_todo (abs_disk s))\<rparr>" by (auto simp: abs_disk_def s')
  moreover have "b \<notin> fst ` (a_todo (abs_disk s) \<union> a_done (abs_disk s))" using b by (force simp: abs_disk_def)
  ultimately show ?thesis using astep.request by metis
qed

lemma abs_complete:
  assumes inv: "vinv bno s" and r: "(b, wr, idx) \<in> set (waiting s)" "idx ! 0 \<in> unserved s"
    and s': "waiting s' = waiting s" "unserved s' = unserved s - {idx ! 0}"
      "vdata s' = (if wr then vdata s else (vdata s)(b := vblocks s (sec b)))" "vblocks s' = (if wr then (vblocks s)(sec b := vdata s b) else vblocks s)"
  shows "astep sec (abs_disk s) (abs_disk s')"
proof -
  have u: "idx' ! 0 = idx ! 0 \<longleftrightarrow> (b', wr') = (b, wr)" if "(b', wr', idx') \<in> set (waiting s)" for b' wr' idx'
  proof
    show "(b', wr') = (b, wr)" if "idx' ! 0 = idx ! 0"
      using chain_unique [OF inv r(1) \<open>(b', wr', idx') \<in> set (waiting s)\<close>, of "idx ! 0"] chain_idx(4) [OF inv r(1)]
        chain_idx(4) [OF inv \<open>(b', wr', idx') \<in> set (waiting s)\<close>] that by simp
    show "idx' ! 0 = idx ! 0" if "(b', wr') = (b, wr)" using buf_unique [OF inv r(1)] \<open>(b', wr', idx') \<in> set (waiting s)\<close> that by blast
  qed
  have "a_todo (abs_disk s') = a_todo (abs_disk s) - {(b, wr)}" using u by (fastforce simp: abs_disk_def s')
  moreover have "a_done (abs_disk s') = insert (b, wr) (a_done (abs_disk s))" using u r by (fastforce simp: abs_disk_def s')
  ultimately have "abs_disk s' = transfer sec b wr ((abs_disk s)\<lparr>a_todo := a_todo (abs_disk s) - {(b, wr)}, a_done := insert (b, wr) (a_done (abs_disk s))\<rparr>)"
    by (simp add: abs_disk_def s' transfer_def)
  moreover have "(b, wr) \<in> a_todo (abs_disk s)" using r by (auto simp: abs_disk_def)
  ultimately show ?thesis using astep.serve_one by metis
qed

lemma abs_finish:
  assumes inv: "vinv bno s" and r: "(b, wr, idx) \<in> set (waiting s)" "idx ! 0 \<notin> unserved s"
    and s': "set (waiting s') = set (waiting s) - {(b, wr, idx)}" "unserved s' = unserved s" "vdata s' = vdata s" "vblocks s' = vblocks s"
  shows "astep sec (abs_disk s) (abs_disk s')"
proof -
  have u: "idx' = idx" if "(b, wr, idx') \<in> set (waiting s)" for idx' using buf_unique [OF inv r(1) that] by simp
  have "a_todo (abs_disk s') = a_todo (abs_disk s)" using r(2) by (auto simp: abs_disk_def s')
  moreover have "a_done (abs_disk s') = a_done (abs_disk s) - {(b, wr)}" using u by (auto simp: abs_disk_def s')
  ultimately have "abs_disk s' = (abs_disk s)\<lparr>a_done := a_done (abs_disk s) - {(b, wr)}\<rparr>" by (simp add: abs_disk_def s')
  moreover have "(b, wr) \<in> a_done (abs_disk s)" using r by (auto simp: abs_disk_def)
  ultimately show ?thesis using astep.return by metis
qed

lemma unserved_eq: "submitted s' = submitted s \<Longrightarrow> dev_pend s' = dev_pend s \<Longrightarrow> unserved s' = unserved s"
  by (simp add: unserved_def)

lemma serve_pend:
  assumes "vinv bno s" "h \<in> set (dev_pend s)"
  obtains b wr idx where "(b, wr, idx) \<in> set (waiting s)" "h = idx ! 0"
    "serve h s = Some (if wr then s\<lparr>info_status := (info_status s)(h := 0), vblocks := (vblocks s)(sector_of (bno b) := vdata s b)\<rparr>
       else s\<lparr>info_status := (info_status s)(h := 0), vdata := (vdata s)(b := vblocks s (sector_of (bno b)))\<rparr>)"
proof -
  have "h \<in> set (heads s)" using assms vinvD(9) [OF assms(1)] by (auto simp: busy_def)
  then obtain b wr idx where r: "(b, wr, idx) \<in> set (waiting s)" "h = idx ! 0" using head_request by blast
  then show ?thesis using that [OF r] serve_ok [OF vinvD(3) [OF assms(1) r(1)] chain_idx(3) [OF assms(1) r(1)]] by simp
qed

definition sim :: "(nat \<Rightarrow> u32) \<Rightarrow> vsys \<Rightarrow> vsys \<Rightarrow> bool" where
  "sim bno s s' \<longleftrightarrow> vinv bno s' \<and> (abs_disk s' = abs_disk s \<or> astep (\<lambda>b. sector_of (bno b)) (abs_disk s) (abs_disk s'))"

lemma sim_submit:
  assumes inv: "vinv bno s" and b: "b \<notin> fst ` set (waiting s)" and sub: "rw_submit b wr (bno b) s = Inr (Some idx, s1)"
  shows "sim bno s (s1\<lparr>waiting := (b, wr, idx) # waiting s\<rparr>)"
proof (cases rule: rw_submit_cases [of b wr "bno b" s])
  case (got idx')
  let ?s = "s1\<lparr>waiting := (b, wr, idx) # waiting s\<rparr>"
  have e: "idx' = idx" "s1 = (let s = format_descs b wr (bno b) (idx ! 0) (idx ! 1) (idx ! 2) (taken (set idx) s) in
      s\<lparr>avail_ring := (avail_ring s)[unat (avail_idx s) mod NUM := of_nat (idx ! 0)], avail_idx := avail_idx s + 1\<rparr>)" using got sub by auto
  have w: "waiting ?s = (b, wr, idx) # waiting s" "dev_pend ?s = dev_pend s" "vdata ?s = vdata s" "vblocks ?s = vblocks s"
    unfolding e(2) by (simp_all add: Let_def format_descs_def taken_def)
  have inv': "vinv bno ?s" "submitted ?s = submitted s @ [idx ! 0]" using vinv_submit [OF inv b, of idx wr] got e by (simp_all add: Let_def)
  have "idx ! 0 \<in> set idx" using got e by simp
  then have h: "idx ! 0 \<notin> set (heads s)" using got e vinvD(5) [OF inv, of "idx ! 0"] heads_descs [OF inv] by blast
  have "unserved ?s = insert (idx ! 0) (unserved s)" using inv'(2) w(2) by (simp add: unserved_def)
  then show ?thesis using abs_submit [OF inv b h w(1) _ w(3,4)] inv'(1) by (simp add: sim_def)
next
  case (full A)
  then show ?thesis using sub by simp
qed

lemma sim_full:
  assumes inv: "vinv bno s" and sub: "rw_submit b wr (bno b) s = Inr (None, s')"
  shows "sim bno s s'"
proof (cases rule: rw_submit_cases [of b wr "bno b" s])
  case (full A)
  then have s': "s' = s\<lparr>desc := (\<lambda>i. if i \<in> A then no_desc else desc s i)\<rparr>" using sub by simp
  have "abs_disk s' = abs_disk s" unfolding s' by (rule abs_same) (simp_all add: unserved_def submitted_def)
  then show ?thesis using vinv_full [OF inv full(2)] s' by (simp add: sim_def)
qed (use sub in simp)

lemma sim_complete:
  assumes inv: "vinv bno s" and h: "h \<in> set (dev_pend s)" and sv: "serve h s = Some s1"
  shows "sim bno s (s1\<lparr>dev_pend := remove1 h (dev_pend s), used_ring := (used_ring s)[unat (used_ridx s) mod NUM := of_nat h], used_ridx := used_ridx s + 1\<rparr>)"
    (is "sim bno s ?s")
proof -
  obtain b wr idx where r: "(b, wr, idx) \<in> set (waiting s)" "h = idx ! 0"
    and e: "serve h s = Some (if wr then s\<lparr>info_status := (info_status s)(h := 0), vblocks := (vblocks s)(sector_of (bno b) := vdata s b)\<rparr>
       else s\<lparr>info_status := (info_status s)(h := 0), vdata := (vdata s)(b := vblocks s (sector_of (bno b)))\<rparr>)"
    by (rule serve_pend [OF inv h])
  have s1: "s1 = s\<lparr>info_status := (info_status s)(h := 0), vdata := vdata s1, vblocks := vblocks s1\<rparr>" using sv e by auto
  have d: "vdata s1 = (if wr then vdata s else (vdata s)(b := vblocks s (sector_of (bno b))))"
    "vblocks s1 = (if wr then (vblocks s)(sector_of (bno b) := vdata s b) else vblocks s)" using sv e by auto
  note v = vinv_complete [OF inv h s1]
  have w: "waiting ?s = waiting s" by (subst s1) simp
  have "h \<notin> set (submitted s)" "distinct (dev_pend s)" using vinvD(8) [OF inv] h by (auto simp: busy_def)
  then have u: "unserved ?s = unserved s - {idx ! 0}" "idx ! 0 \<in> unserved s" using v(2) r(2) h by (auto simp: unserved_def)
  show ?thesis using abs_complete [OF inv r(1) u(2) w u(1), of "\<lambda>b. sector_of (bno b)"] d v(1) by (simp add: sim_def)
qed

lemma sim_finish:
  assumes inv: "vinv bno s" and r: "(b, wr, idx) \<in> set (waiting s)" "\<not> b_disk s b" and f: "rw_finish idx s = Inr s1"
  shows "sim bno s (s1\<lparr>waiting := remove1 (b, wr, idx) (waiting s)\<rparr>)" (is "sim bno s ?s")
proof -
  note v = vinv_finish [OF inv r]
  have s1: "s1 = freed (set idx) (s\<lparr>info_b := (info_b s)(idx ! 0 := None)\<rparr>)" using v(1) f by simp
  have "distinct (waiting s)" using vinvD(7) [OF inv] by (simp add: distinct_map)
  then have w: "set (waiting ?s) = set (waiting s) - {(b, wr, idx)}" "vdata ?s = vdata s" "vblocks ?s = vblocks s" unfolding s1 by (simp_all add: freed_def)
  have n: "idx ! 0 \<notin> unserved s" using v(6) by (auto simp: busy_def unserved_def)
  have u: "unserved ?s = unserved s" unfolding s1 by (rule unserved_eq [OF v(3,5)])
  show ?thesis using abs_finish [OF inv r(1) n w(1) u w(2,3)] v(2) s1 by (simp add: sim_def)
qed

lemma vstep_sim:
  assumes st: "vstep bno s s'" and inv: "vinv bno s"
  shows "sim bno s s'"
  using st
proof cases
  case take
  note v = vinv_take [OF inv take(2)]
  have "unserved s' = unserved s" using v(2) unfolding take(1) by (auto simp: unserved_def)
  then have "abs_disk s' = abs_disk s" unfolding take(1) by (intro abs_same) simp_all
  then show ?thesis using v(1) unfolding take(1) by (simp add: sim_def)
next
  case intr
  then show ?thesis using vinv_intr [OF inv] abs_same [of s' s] unserved_eq [of s' s] by (auto simp: sim_def)
qed (use sim_submit [OF inv] sim_full [OF inv] sim_complete [OF inv] sim_finish [OF inv] in blast)+

lemma vreach_vinv: "vreach bno s \<Longrightarrow> vinv bno s"
proof -
  assume "vreach bno s"
  then obtain s0 where s0: "vstart s0" "(vstep bno)\<^sup>*\<^sup>* s0 s" by (auto simp: vreach_def)
  have "vinv bno s0" using s0(1)
    by (auto simp: vstart_def vdisk_zero_def vdisk.extend_def vinv_def descs_def busy_def heads_def submitted_def returned_def)
  with s0(2) show ?thesis by (induction rule: rtranclp_induct) (simp, use vstep_sim in \<open>auto simp: sim_def\<close>)
qed

section \<open>Properties\<close>

text \<open>
  C4. The driver with the device implements a disk that serves requests one by one: in every interleaving of requests of any number of
  processes, interrupts and steps of the device, each step is a request, one complete transfer of the block of an outstanding request in its
  direction, a return after that transfer, or invisible; the interrupt handler, requests and returns never panic, the device can serve
  every chain it is given, and all descriptors are free when no request is outstanding.
\<close>

theorem virtio_disk_refines:
  assumes "vreach bno s"
  shows "(\<forall>s'. vstep bno s s' \<longrightarrow> abs_disk s' = abs_disk s \<or> astep (\<lambda>b. sector_of (bno b)) (abs_disk s) (abs_disk s')) \<and>
    (\<exists>s'. virtio_disk_intr s = Inr s') \<and> (\<forall>b wr. \<exists>r. rw_submit b wr (bno b) s = Inr r) \<and>
    (\<forall>b wr idx. (b, wr, idx) \<in> set (waiting s) \<longrightarrow> \<not> b_disk s b \<longrightarrow> (\<exists>s'. rw_finish idx s = Inr s')) \<and>
    (\<forall>h\<in>set (dev_pend s). serve h s \<noteq> None) \<and> (waiting s = [] \<longrightarrow> (\<forall>i<NUM. vfree s i))"
proof (intro conjI allI impI ballI)
  note inv = vreach_vinv [OF assms]
  show "abs_disk s' = abs_disk s \<or> astep (\<lambda>b. sector_of (bno b)) (abs_disk s) (abs_disk s')" if "vstep bno s s'" for s'
    using vstep_sim [OF that inv] by (simp add: sim_def)
  show "\<exists>s'. virtio_disk_intr s = Inr s'" using vinv_intr [OF inv] by blast
  show "\<exists>r. rw_submit b wr (bno b) s = Inr r" for b wr by (rule rw_submit_cases [of b wr "bno b" s]) blast+
  show "\<exists>s'. rw_finish idx s = Inr s'" if "(b, wr, idx) \<in> set (waiting s)" "\<not> b_disk s b" for b wr idx using vinv_finish(1) [OF inv that] by blast
  show "serve h s \<noteq> None" if "h \<in> set (dev_pend s)" for h by (rule serve_pend [OF inv that]) simp
  show "vfree s i" if "waiting s = []" "i < NUM" for i using that vinvD(5) [OF inv, of i] by (simp add: descs_def)
qed

definition vsys0 :: vsys where
  "vsys0 = vdisk.extend vdisk_zero \<lparr>dev_seen = 0, dev_pend = [], vdata = (\<lambda>_. []), vblocks = (\<lambda>_. []), waiting = []\<rparr>"

lemma submit_first:
  "rw_submit 5 False 7 vsys0 = Inr (Some [0, 1, 2], (format_descs 5 False 7 0 1 2 (taken {0, 1, 2} vsys0))\<lparr>avail_ring := 0 # replicate 7 0, avail_idx := 1\<rparr>)"
proof -
  have f: "vfree vsys0 = (\<lambda>i. i < 8)" "avail_ring vsys0 = replicate 8 0" "avail_idx vsys0 = 0"
    by (simp_all add: vsys0_def vdisk.extend_def vdisk_zero_def NUM_def)
  have "alloc_desc vsys0 = (Some 0, taken {0} vsys0)" by (simp add: alloc_desc_def taken_def f NUM_def upt_rec fun_eq_iff)
  moreover have "alloc_desc (taken {0} vsys0) = (Some 1, taken {1} (taken {0} vsys0))" by (simp add: alloc_desc_def taken_def f NUM_def upt_rec fun_eq_iff)
  moreover have "alloc_desc (taken {0, 1} vsys0) = (Some 2, taken {2} (taken {0, 1} vsys0))" by (simp add: alloc_desc_def taken_def f NUM_def upt_rec fun_eq_iff)
  ultimately have "alloc3_desc vsys0 = Inr (Some [0, 1, 2], taken {0, 1, 2} vsys0)" by (simp add: alloc3_desc_def numeral_3_eq_3 taken_taken insert_commute)
  moreover have "avail_ring (format_descs 5 False 7 0 1 2 (taken {0, 1, 2} vsys0)) = replicate 8 0" "avail_idx (format_descs 5 False 7 0 1 2 (taken {0, 1, 2} vsys0)) = 0"
    by (simp_all add: format_descs_def taken_def f)
  moreover have "(replicate 8 0 :: u16 list)[0 := 0] = 0 # replicate 7 0" by (simp add: numeral_eq_Suc)
  ultimately show ?thesis by (simp add: rw_submit_def Let_def NUM_def)
qed

theorem virtio_disk_refines_witness:
  "\<exists>s. vreach (\<lambda>_. 7) s \<and> waiting s = [(5, False, [0, 1, 2])] \<and> dev_pend s = [0] \<and> serve 0 s \<noteq> None"
proof -
  let ?s1 = "(format_descs 5 False 7 0 1 2 (taken {0, 1, 2} vsys0))\<lparr>avail_ring := 0 # replicate 7 0, avail_idx := 1, waiting := [(5, False, [0, 1, 2])]\<rparr>"
  let ?s2 = "?s1\<lparr>dev_seen := 1, dev_pend := [0]\<rparr>"
  have z: "waiting vsys0 = []" "dev_seen vsys0 = 0" "dev_pend vsys0 = []" by (simp_all add: vsys0_def vdisk.extend_def vdisk_zero_def)
  have "vstep (\<lambda>_. 7) vsys0 ?s1" using vstep.submit [of 5 vsys0 False "\<lambda>_. 7", OF _ submit_first] z by simp
  moreover have "vstep (\<lambda>_. 7) ?s1 ?s2" using vstep.take [of ?s1 "\<lambda>_. 7"] z by (simp add: format_descs_def taken_def NUM_def)
  moreover have "vstart vsys0" by (auto simp: vstart_def vsys0_def)
  ultimately have r: "vreach (\<lambda>_. 7) ?s2" unfolding vreach_def by (blast intro: rtranclp.rtrancl_into_rtrancl rtranclp.rtrancl_refl)
  then have "serve 0 ?s2 \<noteq> None" using virtio_disk_refines [OF r] by simp
  then show ?thesis using r by (intro exI [of _ ?s2]) simp
qed

end
