(* ===== verification/Spec2Isabelle.thy ===== *)
theory Spec2Isabelle
  imports Grep ShParse Writing Sched Virtio
begin

text \<open>
  A verification of the xv6 operating system of this repository: the kernel under \<^verbatim>\<open>src/xv6/kernel\<close> with its
  changes (copy-on-write fork, lazy allocation, a kernel page table per process, free lists per CPU, alarms, tracing) and
  parts of the user programs under \<^verbatim>\<open>src/xv6/user\<close>. The C functions are translated to HOL functions under their own
  names; loops are recursive functions, a local section or helper of a C function that is a definition of its own is
  named after it.

  \<^bold>\<open>Results.\<close> Kernel code returns \<open>'a kres\<close> (\<^verbatim>\<open>Kprelude\<close>): a value, or a \<open>Panic\<close>, an operation without meaning in C
  (\<open>Undef\<close>: an index out of range, a null pointer), or \<open>Sleeps\<close>, which ends the run of a process that has to wait for another.
  Every panic and early return of the source is a branch. Machine integers are words of their width; C's \<^verbatim>\<open>int\<close> is an
  \<open>int\<close> where it cannot wrap.

  \<^bold>\<open>Memory\<close> (\<^verbatim>\<open>kalloc.c\<close>, \<^verbatim>\<open>vm.c\<close>, \<^verbatim>\<open>vmcopyin.c\<close>, \<^verbatim>\<open>string.c\<close>, \<^verbatim>\<open>riscv.h\<close>, \<^verbatim>\<open>memlayout.h\<close>). \<open>Riscv\<close> has the constants and
  address macros, \<open>Kstring\<close> the byte routines. \<open>Kalloc\<close> has the page allocator on free lists threaded through byte memory, with
  its reference counts; its contract is the locale \<open>page_allocator\<close>, interpreted on \<open>kalloc\<close> and \<open>kfree\<close>. \<open>Pagetable\<close> and
  \<open>Vm\<close> have the three-level tables, kept in the same memory, and the address spaces; \<open>Uvm\<close>, \<open>Cow\<close> and \<open>Usercopy\<close> show what
  \<^verbatim>\<open>mappages\<close>, \<^verbatim>\<open>uvmalloc\<close>, \<^verbatim>\<open>uvmdealloc\<close>, \<^verbatim>\<open>uvmcopy\<close>, \<^verbatim>\<open>copyout\<close> and \<^verbatim>\<open>vmfault\<close> do to mappings, counts and contents;
  \<open>Kcopyin\<close> has the copies through the kernel page table of the process.

  \<^bold>\<open>Locks, processes, scheduling\<close> (\<^verbatim>\<open>spinlock.c\<close>, \<^verbatim>\<open>sleeplock.c\<close>, \<^verbatim>\<open>proc.c\<close>). \<open>Spinlock\<close> interleaves the atomic actions
  of \<^verbatim>\<open>acquire\<close> and \<^verbatim>\<open>release\<close> over any number of harts: mutual exclusion, and interrupts off while a lock is held. On that ground
  the other theories take a locked section as one step. \<open>Sched\<close> interleaves \<^verbatim>\<open>sleep\<close>, \<^verbatim>\<open>wakeup\<close>, \<^verbatim>\<open>sched\<close>, \<^verbatim>\<open>yield\<close> and \<^verbatim>\<open>scheduler\<close>
  with their locks (no wakeup is lost, no process runs on two harts) and shows that a round of \<^verbatim>\<open>scheduler\<close> runs every runnable
  process. \<open>Kstate\<close> is the state of the kernel (a record that extends that of the file system), \<open>Proc\<close> has the process table, fork,
  exit, wait and kill.

  \<^bold>\<open>Devices\<close> (\<^verbatim>\<open>virtio_disk.c\<close>, \<^verbatim>\<open>console.c\<close>, \<^verbatim>\<open>uart.c\<close>, \<^verbatim>\<open>pipe.c\<close>, \<^verbatim>\<open>printk.c\<close>). \<open>Ring\<close> is the locale \<open>ring_counters\<close> of rings with
  counters that wrap; it is interpreted for the pipe (\<open>Pipe\<close>), the console's line buffer (\<open>Console\<close>) and the queues of the disk
  (\<open>Virtio\<close>). \<open>Console\<close> refines an abstract line editor, \<open>Pipe\<close> transfers bytes in order, and \<open>Virtio\<close> shows that the driver and
  a device that follows the virtio specification implement a disk whose requests are single transfers; above it the buffer cache uses
  that disk. \<open>Printf\<close> has the two formatted printers and \<^verbatim>\<open>backtrace\<close>.

  \<^bold>\<open>File system\<close> (\<^verbatim>\<open>bio.c\<close>, \<^verbatim>\<open>log.c\<close>, \<^verbatim>\<open>fs.c\<close>). The state grows by record extension: \<open>bsys\<close> (\<open>Bio\<close>: buffers, recency list, disk and
  the history of its writes), \<open>logsys\<close> (\<open>Log\<close>), \<open>fsys\<close> (\<open>Fs\<close>: superblock and inode table). \<open>Bytes\<close> has the fields of blocks. \<open>Bio\<close>
  shows that the cache is transparent, \<open>Txn\<close> that commit is atomic whatever prefix of its disk writes a crash leaves, that
  the reservation of \<^verbatim>\<open>begin_op\<close> suffices, and what reading and logging a block inside a transaction does. Over that \<open>Balloc\<close> has the
  block allocator, \<open>Inode\<close> the inodes on disk, \<open>Content\<close> and \<open>Writing\<close> what \<^verbatim>\<open>readi\<close>, \<^verbatim>\<open>writei\<close> and \<^verbatim>\<open>dirlookup\<close> do to and find in the
  bytes of a file. \<^verbatim>\<open>readi\<close> and \<^verbatim>\<open>writei\<close> take the copy routine as an argument; the locales \<open>byte_sink\<close> and \<open>byte_source\<close> say what they
  need of it and are interpreted for variables of the kernel. \<open>Dir\<close> has directories and path names.

  \<^bold>\<open>System calls and traps\<close> (\<^verbatim>\<open>file.c\<close>, \<^verbatim>\<open>sysfile.c\<close>, \<^verbatim>\<open>exec.c\<close>, \<^verbatim>\<open>sysproc.c\<close>, \<^verbatim>\<open>syscall.c\<close>, \<^verbatim>\<open>trap.c\<close>). \<open>File\<close>, \<open>Sysfile\<close>, \<open>Exec\<close>,
  \<open>Syscall\<close> and \<open>Trap\<close> have the file table, every system call, program loading, the dispatch and the trap handlers, for a run of one
  process up to its return, wait or exit. What the hardware reports is an argument. Functions that the code calls and no file defines
  (\<^verbatim>\<open>ukvmunmap\<close>, \<^verbatim>\<open>ufreewalk\<close>, \<^verbatim>\<open>sys_sysinfo\<close>) are parameters in the records \<open>kvm_ext\<close> and \<open>sys_ext\<close>.

  \<^bold>\<open>User programs\<close> (\<^verbatim>\<open>sh.c\<close>, \<^verbatim>\<open>grep.c\<close>, \<^verbatim>\<open>wc.c\<close>, \<^verbatim>\<open>printf.c\<close>, \<^verbatim>\<open>ulib.c\<close>). \<open>Sh\<close> has the shell: tokenizer, parser, and \<^verbatim>\<open>runcmd\<close> as
  the tree of its system calls, which start the programs of the command with the descriptors it asks for; \<open>ShParse\<close> shows that the parser
  reads back every printed command. \<open>Grep\<close> has the pattern matcher with the language it accepts, the line loop and the counts of \<^verbatim>\<open>wc\<close>.

  \<^bold>\<open>Bounds.\<close> Loops end by a termination proof; loops over memory that may lack a NUL and \<^verbatim>\<open>backtrace\<close> are partial functions into
  \<open>option\<close>. Two recursions of the source are bounded by fuel that stands for stack frames: \<^verbatim>\<open>freewalk\<close>, called with three, the depth of a page table, and
  the shell's parser, for which \<open>5 * nodes c + 2\<close> suffices for a command \<open>c\<close>. Theorems about file content assume room in the
  buffer cache and the log for the blocks they touch.

  \<^bold>\<open>Findings.\<close> Some theorems show what the code does where it does not do what it means to: \<^verbatim>\<open>kinit\<close> panics, \<^verbatim>\<open>kfree\<close> overwrites shared pages,
  \<^verbatim>\<open>copyout\<close> fails after a fork, \<^verbatim>\<open>copyin\<close> of a bad pointer and \<^verbatim>\<open>copy_proc_to_kernel\<close> of an unallocated page panic, and a full
  transaction leaves \<^verbatim>\<open>commit\<close> without buffers.

  \<^bold>\<open>Not modelled.\<close> Assembly (\<^verbatim>\<open>entry.S\<close>, \<^verbatim>\<open>swtch.S\<close>, \<^verbatim>\<open>trampoline.S\<close>, \<^verbatim>\<open>kernelvec.S\<close>) and the control registers of \<^verbatim>\<open>riscv.h\<close>; \<^verbatim>\<open>start.c\<close>
  and \<^verbatim>\<open>main.c\<close>, which order the initialisers; \<^verbatim>\<open>plic.c\<close>, four accesses to device registers; \<^verbatim>\<open>ramdisk.c\<close>, which has no code; \<^verbatim>\<open>mkfs.c\<close>, a
  program of the build host; the test programs; the small user programs, which are sequences of system calls; \<^verbatim>\<open>umalloc.c\<close> and \<^verbatim>\<open>uthread.c\<close>;
  \<^verbatim>\<open>vmprint\<close> and the messages that \<^verbatim>\<open>fs.c\<close> prints when it runs out of blocks or inodes. The system call theories see one process at a
  time: the interleaving of two processes inside the file system is covered by the log's reservation and the locks, not by a theorem
  about the whole kernel.
\<close>

end
